(* ===== verification/Go_Prelude.thy ===== *)
theory Go_Prelude
  imports Main "HOL-Library.Multiset" "HOL-Library.Char_ord" "HOL-Library.List_Lexorder"
begin

text \<open>
  What every component shares: the run-time failures of a Go program as values, the checked
  index and slice operations of Go slices, the two counting facts behind majorities, and
  reachability of a step relation together with the rule that carries an invariant along it.

  A Go function that may panic is a function into \<open>'a res\<close>: \<open>Inl e\<close> is the panic (or the
  \<open>log.Fatal\<close>), \<open>Inr x\<close> the normal return. Go's \<open>int\<close> is modelled by \<^typ>\<open>int\<close>: the
  quantities the code keeps in it (terms, log indices, task numbers, counters) are counted up one
  by one from small values, so the 64-bit bound is never met; where a width matters (hashes, bit
  sets) the components use words.
\<close>

section \<open>Run-time failures\<close>

datatype go_error =
    IndexOutOfRange
  | SliceBounds
  | DivideByZero
  | NilDereference
  | Panicked string
  | LogFatal string

type_synonym 'a res = "go_error + 'a"

definition bindR :: "'a res \<Rightarrow> ('a \<Rightarrow> 'b res) \<Rightarrow> 'b res" where
  "bindR m f = (case m of Inl e \<Rightarrow> Inl e | Inr x \<Rightarrow> f x)"

lemma bindR_simps [simp]:
  "bindR (Inl e) f = Inl e"
  "bindR (Inr x) f = f x"
  by (simp_all add: bindR_def)

lemma bindR_eq_Inr: "bindR m f = Inr y \<longleftrightarrow> (\<exists>x. m = Inr x \<and> f x = Inr y)"
  by (cases m) auto

lemma bindR_eq_Inl: "bindR m f = Inl e \<longleftrightarrow> m = Inl e \<or> (\<exists>x. m = Inr x \<and> f x = Inl e)"
  by (cases m) auto

lemma bindR_cong [fundef_cong]:
  assumes "m = m'" and "\<And>x. m' = Inr x \<Longrightarrow> f x = f' x"
  shows "bindR m f = bindR m' f'"
  using assms by (cases m') auto

section \<open>Slices\<close>

abbreviation len :: "'a list \<Rightarrow> int" where
  "len xs \<equiv> int (length xs)"

definition idx :: "'a list \<Rightarrow> int \<Rightarrow> 'a res" where
  "idx xs i = (if 0 \<le> i \<and> i < len xs then Inr (xs ! nat i) else Inl IndexOutOfRange)"

definition upd :: "'a list \<Rightarrow> int \<Rightarrow> 'a \<Rightarrow> 'a list res" where
  "upd xs i x = (if 0 \<le> i \<and> i < len xs then Inr (xs[nat i := x]) else Inl IndexOutOfRange)"

text \<open>
  \<open>xs[0:j]\<close> and \<open>xs[i:]\<close>. Go allows the upper bound of a reslice to reach the capacity; every
  reslice in the modelled code stays within the length, and the model panics beyond it.
\<close>

definition slice_to :: "'a list \<Rightarrow> int \<Rightarrow> 'a list res" where
  "slice_to xs j = (if 0 \<le> j \<and> j \<le> len xs then Inr (take (nat j) xs) else Inl SliceBounds)"

definition slice_from :: "'a list \<Rightarrow> int \<Rightarrow> 'a list res" where
  "slice_from xs i = (if 0 \<le> i \<and> i \<le> len xs then Inr (drop (nat i) xs) else Inl SliceBounds)"

lemma idx_ok [simp]: "0 \<le> i \<Longrightarrow> i < len xs \<Longrightarrow> idx xs i = Inr (xs ! nat i)"
  by (simp add: idx_def)

lemma idx_eq_Inr: "idx xs i = Inr x \<longleftrightarrow> 0 \<le> i \<and> i < len xs \<and> x = xs ! nat i"
  by (auto simp: idx_def)

lemma upd_ok [simp]: "0 \<le> i \<Longrightarrow> i < len xs \<Longrightarrow> upd xs i x = Inr (xs[nat i := x])"
  by (simp add: upd_def)

lemma upd_eq_Inr: "upd xs i x = Inr ys \<longleftrightarrow> 0 \<le> i \<and> i < len xs \<and> ys = xs[nat i := x]"
  by (auto simp: upd_def)

lemma slice_to_ok [simp]: "0 \<le> j \<Longrightarrow> j \<le> len xs \<Longrightarrow> slice_to xs j = Inr (take (nat j) xs)"
  by (simp add: slice_to_def)

lemma slice_to_eq_Inr: "slice_to xs j = Inr ys \<longleftrightarrow> 0 \<le> j \<and> j \<le> len xs \<and> ys = take (nat j) xs"
  by (auto simp: slice_to_def)

lemma slice_from_ok [simp]: "0 \<le> i \<Longrightarrow> i \<le> len xs \<Longrightarrow> slice_from xs i = Inr (drop (nat i) xs)"
  by (simp add: slice_from_def)

lemma slice_from_eq_Inr:
  "slice_from xs i = Inr ys \<longleftrightarrow> 0 \<le> i \<and> i \<le> len xs \<and> ys = drop (nat i) xs"
  by (auto simp: slice_from_def)

lemma nth_int_last [simp]: "xs \<noteq> [] \<Longrightarrow> xs ! nat (len xs - 1) = last xs"
  by (cases xs rule: rev_cases) (auto simp: nth_append)

lemma drop_int_Cons:
  "0 \<le> i \<Longrightarrow> i < len xs \<Longrightarrow> drop (nat i) xs = xs ! nat i # drop (nat (i + 1)) xs"
  using Cons_nth_drop_Suc[of "nat i" xs] by (simp add: nat_add_distrib)

text \<open>\<open>copy(dst, src)\<close>: the common prefix of the two slices is overwritten.\<close>

definition copy_slice :: "'a list \<Rightarrow> 'a list \<Rightarrow> 'a list" where
  "copy_slice dst src = take (length dst) src @ drop (length src) dst"

lemma copy_slice_same_length [simp]: "length dst = length src \<Longrightarrow> copy_slice dst src = src"
  by (simp add: copy_slice_def)

text \<open>A loop that evaluates a fallible expression once per element.\<close>

fun mapR :: "('a \<Rightarrow> 'b res) \<Rightarrow> 'a list \<Rightarrow> 'b list res" where
  "mapR f [] = Inr []"
| "mapR f (x # xs) = bindR (f x) (\<lambda>y. bindR (mapR f xs) (\<lambda>ys. Inr (y # ys)))"

text \<open>A loop that threads a state through a fallible body.\<close>

fun foldR :: "('a \<Rightarrow> 's \<Rightarrow> 's res) \<Rightarrow> 'a list \<Rightarrow> 's \<Rightarrow> 's res" where
  "foldR f [] s = Inr s"
| "foldR f (x # xs) s = bindR (f x s) (foldR f xs)"

lemma foldR_append: "foldR f (xs @ ys) s = bindR (foldR f xs s) (foldR f ys)"
proof (induction xs arbitrary: s)
  case (Cons x xs)
  then show ?case by (cases "f x s") simp_all
qed simp

lemma foldR_ok:
  assumes "\<And>x s. x \<in> set xs \<Longrightarrow> f x s = Inr (g x s)"
  shows "foldR f xs s = Inr (foldl (\<lambda>s x. g x s) s xs)"
  using assms by (induction xs arbitrary: s) simp_all

lemma foldR_fail:
  assumes "x \<in> set xs" "\<And>s. f x s = Inl e" "\<And>y s e'. y \<in> set xs \<Longrightarrow> f y s = Inl e' \<Longrightarrow> e' = e"
  shows "foldR f xs s = Inl e"
  using assms
proof (induction xs arbitrary: s)
  case (Cons y ys)
  show ?case
  proof (cases "f y s")
    case (Inl e')
    then show ?thesis using Cons.prems(3)[of y s e'] by simp
  next
    case (Inr s')
    then have "x \<in> set ys" using Cons.prems(1,2) by auto
    then have "foldR f ys s' = Inl e"
      by (rule Cons.IH[OF _ Cons.prems(2)]) (rule Cons.prems(3), simp_all)
    then show ?thesis using Inr by simp
  qed
qed simp

lemma mapR_eq_Inr:
  "mapR f xs = Inr ys \<longleftrightarrow> length ys = length xs \<and> (\<forall>i < length xs. f (xs ! i) = Inr (ys ! i))"
proof (induction xs arbitrary: ys)
  case Nil
  then show ?case by auto
next
  case (Cons x xs)
  show ?case
  proof (cases ys)
    case Nil
    then show ?thesis by (auto simp: bindR_eq_Inr)
  next
    case (Cons y zs)
    then show ?thesis
      by (auto simp: bindR_eq_Inr Cons.IH All_less_Suc2)
  qed
qed

lemma mapR_total: "(\<And>x. x \<in> set xs \<Longrightarrow> \<exists>y. f x = Inr y) \<Longrightarrow> \<exists>ys. mapR f xs = Inr ys"
proof (induction xs)
  case Nil
  then show ?case by simp
next
  case (Cons x xs)
  then obtain y ys where "f x = Inr y" and "mapR f xs = Inr ys"
    by (metis list.set_intros)
  then show ?case by simp
qed

lemmas go_checked = bindR_eq_Inr idx_eq_Inr upd_eq_Inr slice_to_eq_Inr slice_from_eq_Inr

section \<open>Majorities\<close>

text \<open>Two subsets of a finite set that are both more than half of it share an element.\<close>

lemma majorities_meet:
  assumes "finite P" and "A \<subseteq> P" and "B \<subseteq> P"
    and "card P div 2 < card A" and "card P div 2 < card B"
  shows "A \<inter> B \<noteq> {}"
proof
  assume disj: "A \<inter> B = {}"
  have "card (A \<union> B) = card A + card B"
    using assms(1-3) disj by (intro card_Un_disjoint) (auto intro: finite_subset)
  moreover have "card (A \<union> B) \<le> card P"
    using assms(1-3) by (intro card_mono) auto
  ultimately show False using assms(4,5) by linarith
qed

text \<open>
  In a sorted list, at least \<open>length xs - k\<close> positions hold a value that reaches the \<open>k\<close>-th.
\<close>

lemma sorted_nth_count_ge:
  fixes xs :: "'a::linorder list"
  assumes "sorted xs" and "k < length xs"
  shows "length xs - k \<le> length (filter (\<lambda>x. xs ! k \<le> x) xs)"
proof -
  have "\<forall>x \<in> set (drop k xs). xs ! k \<le> x"
    using assms by (auto simp: in_set_conv_nth intro!: sorted_nth_mono)
  then have "filter (\<lambda>x. xs ! k \<le> x) (drop k xs) = drop k xs"
    by simp
  then have "length (filter (\<lambda>x. xs ! k \<le> x) (take k xs @ drop k xs)) \<ge> length (drop k xs)"
    by (simp only: filter_append length_append)
  then show ?thesis by simp
qed

lemma length_filter_sort: "length (filter P (sort xs)) = length (filter P xs)"
proof -
  have "mset (filter P (sort xs)) = mset (filter P xs)"
    by simp
  then show ?thesis by (metis size_mset)
qed

section \<open>Taking one of several pending items\<close>

text \<open>Messages in flight and goroutines waiting to send are lists from which any element may go next.\<close>

definition removeAt :: "nat \<Rightarrow> 'a list \<Rightarrow> 'a list" where
  "removeAt k xs = take k xs @ drop (Suc k) xs"

lemma mset_removeAt: "k < length xs \<Longrightarrow> mset xs = add_mset (xs ! k) (mset (removeAt k xs))"
  by (metis append_take_drop_id Cons_nth_drop_Suc mset_append mset.simps(2) removeAt_def
      union_mset_add_mset_right)

lemma set_removeAt: "x \<in> set (removeAt k xs) \<Longrightarrow> x \<in> set xs"
  by (auto simp: removeAt_def dest: in_set_takeD in_set_dropD)

lemma distinct_move:
  assumes "k < length xs" "distinct (map f xs @ map g ys)" "g y = f (xs ! k)"
  shows "distinct (map f (removeAt k xs) @ map g (ys @ [y]))"
proof -
  have "mset (map f (removeAt k xs) @ map g (ys @ [y])) = mset (map f xs @ map g ys)"
    using assms(3) by (simp add: mset_removeAt[OF assms(1)])
  then show ?thesis using assms(2) mset_eq_imp_distinct_iff by blast
qed

lemma distinct_removeAt: "distinct xs \<Longrightarrow> distinct (removeAt k xs)"
proof (cases "k < length xs")
  case True
  assume "distinct xs"
  moreover have "mset xs = mset (xs ! k # removeAt k xs)" using mset_removeAt[OF True] by simp
  ultimately have "distinct (xs ! k # removeAt k xs)" using mset_eq_imp_distinct_iff by blast
  then show ?thesis by simp
qed (simp add: removeAt_def)

lemma map_removeAt: "map f (removeAt k xs) = removeAt k (map f xs)"
  by (simp add: removeAt_def take_map drop_map)

section \<open>Ranging over a map\<close>

text \<open>
  Go ranges over a map in an order that is not determined, but visits every entry once. A map is an
  association list here, and \<open>rng\<close> the order of one range loop.
\<close>

locale map_range =
  fixes rng :: "('k \<times> 'v) list \<Rightarrow> ('k \<times> 'v) list"
  assumes rng_mset: "mset (rng al) = mset al"
begin

lemma rng_set: "set (rng al) = set al"
  using rng_mset by (metis set_mset_mset)

lemma rng_keys:
  assumes "distinct (map fst al)"
  shows "distinct (map fst (rng al))"
  using assms rng_mset[of al] by (metis mset_eq_imp_distinct_iff mset_map)

lemma rng_filter:
  assumes "distinct (map fst al)"
  shows "filter (\<lambda>(k', v). k' = k) (rng al) = (case map_of al k of None \<Rightarrow> [] | Some v \<Rightarrow> [(k, v)])"
proof -
  have "map_of (rng al) k = map_of al k"
    using map_of_eqI rng_keys[OF assms] rng_set assms by (metis map_of_inject_set)
  moreover have "filter (\<lambda>(k', v). k' = k) xs = (case map_of xs k of None \<Rightarrow> [] | Some v \<Rightarrow> [(k, v)])"
    if "distinct (map fst xs)" for xs :: "('k \<times> 'v) list"
    using that by (induction xs) (auto simp: filter_empty_conv map_of_eq_None_iff image_iff split: option.splits)
  ultimately show ?thesis using rng_keys[OF assms] by simp
qed

end

text \<open>Two orders: that of first insertion, and its reverse.\<close>

interpretation insertion_order: map_range "\<lambda>al. al"
  by unfold_locales simp

interpretation reverse_order: map_range rev
  by unfold_locales simp

section \<open>Reachability\<close>

inductive reach :: "('s \<Rightarrow> bool) \<Rightarrow> ('s \<Rightarrow> 's \<Rightarrow> bool) \<Rightarrow> 's \<Rightarrow> bool"
  for init :: "'s \<Rightarrow> bool" and step :: "'s \<Rightarrow> 's \<Rightarrow> bool" where
  reach_init: "init s \<Longrightarrow> reach init step s"
| reach_step: "reach init step s \<Longrightarrow> step s t \<Longrightarrow> reach init step t"

text \<open>
  The interface of an invariant proof: what a component discharges for its own initial states and
  steps, and what it gets back for its reachable states.
\<close>

locale invariant =
  fixes init :: "'s \<Rightarrow> bool"
    and step :: "'s \<Rightarrow> 's \<Rightarrow> bool"
    and inv :: "'s \<Rightarrow> bool"
  assumes inv_init: "init s \<Longrightarrow> inv s"
    and inv_step: "inv s \<Longrightarrow> step s t \<Longrightarrow> inv t"
begin

lemma inv_reach: "reach init step s \<Longrightarrow> inv s"
  by (induction rule: reach.induct) (auto intro: inv_init inv_step)

lemma inv_steps: "step\<^sup>*\<^sup>* s t \<Longrightarrow> inv s \<Longrightarrow> inv t"
  by (induction rule: rtranclp_induct) (auto intro: inv_step)

end

end
