(* ===== verification/Persister.thy ===== *)
theory Persister
  imports Go_Prelude
begin

text \<open>
  \<open>raft/persister.go\<close>: the stable storage of a peer. A \<open>Persister\<close> holds two byte slices, the
  Raft state and the service's snapshot; a nil slice and an empty one behave alike (\<open>len\<close> is 0), so
  both are \<open>[]\<close>. The element type is left open: \<open>Raft.thy\<close> stores the values that \<open>labgob\<close> writes.
  The methods hold the object's mutex for their whole body, so each is one atomic operation.
\<close>

record 'b Persister =
  raftstate :: "'b list"
  snapshot :: "'b list"

definition MakePersister :: "'b Persister" where
  "MakePersister = \<lparr>raftstate = [], snapshot = []\<rparr>"

definition Copy :: "'b Persister \<Rightarrow> 'b Persister" where
  "Copy ps = (MakePersister\<lparr>raftstate := raftstate ps\<rparr>)\<lparr>snapshot := snapshot ps\<rparr>"

definition SaveRaftState :: "'b Persister \<Rightarrow> 'b list \<Rightarrow> 'b Persister" where
  "SaveRaftState ps state = ps\<lparr>raftstate := state\<rparr>"

definition ReadRaftState :: "'b Persister \<Rightarrow> 'b list" where
  "ReadRaftState ps = raftstate ps"

definition RaftStateSize :: "'b Persister \<Rightarrow> int" where
  "RaftStateSize ps = len (raftstate ps)"

definition SaveStateAndSnapshot :: "'b Persister \<Rightarrow> 'b list \<Rightarrow> 'b list \<Rightarrow> 'b Persister" where
  "SaveStateAndSnapshot ps state snap = ps\<lparr>raftstate := state, snapshot := snap\<rparr>"

definition ReadSnapshot :: "'b Persister \<Rightarrow> 'b list" where
  "ReadSnapshot ps = snapshot ps"

definition SnapshotSize :: "'b Persister \<Rightarrow> int" where
  "SnapshotSize ps = len (snapshot ps)"

section \<open>The storage interface\<close>

text \<open>
  What a client relies on: reading returns what was saved last, a copy is indistinguishable by
  reading, and saving the Raft state leaves the snapshot alone.
\<close>

locale stable_storage =
  fixes save :: "'p \<Rightarrow> 'd \<Rightarrow> 'p"
    and read :: "'p \<Rightarrow> 'd"
    and copy :: "'p \<Rightarrow> 'p"
  assumes read_save: "read (save p d) = d"
    and read_copy: "read (copy p) = read p"
begin

text \<open>A restarted client that saves nothing reads what its predecessor saved last.\<close>

lemma read_after_crashes: "read ((copy ^^ n) (fold (\<lambda>d p. save p d) ds p)) =
  (if ds = [] then read p else last ds)"
proof -
  have "read ((copy ^^ n) q) = read q" for q
    by (induction n) (auto simp: read_copy)
  moreover have "read (fold (\<lambda>d p. save p d) ds p) = (if ds = [] then read p else last ds)"
    by (induction ds rule: rev_induct) (auto simp: read_save)
  ultimately show ?thesis by simp
qed

end

lemmas persister_defs = MakePersister_def Copy_def SaveRaftState_def ReadRaftState_def
  RaftStateSize_def SaveStateAndSnapshot_def ReadSnapshot_def SnapshotSize_def

interpretation raft_storage: stable_storage SaveRaftState ReadRaftState Copy
  by unfold_locales (simp_all add: persister_defs)

interpretation both_storage: stable_storage
  "\<lambda>ps (d, s). SaveStateAndSnapshot ps d s" "\<lambda>ps. (ReadRaftState ps, ReadSnapshot ps)" Copy
  by unfold_locales (auto simp: persister_defs)

lemma SaveRaftState_simps [simp]:
  "raftstate (SaveRaftState ps d) = d"
  "snapshot (SaveRaftState ps d) = snapshot ps"
  "ReadRaftState (SaveRaftState ps d) = d"
  by (simp_all add: persister_defs)

lemma ReadSnapshot_SaveRaftState [simp]: "ReadSnapshot (SaveRaftState ps d) = ReadSnapshot ps"
  by (simp add: persister_defs)

end
