(* ===== verification/Raft.thy ===== *)
theory Raft
  imports Persister
begin

text \<open>
  \<open>raft/raft.go\<close> and \<open>raft/util.go\<close>: one Raft peer. The record \<open>Raft\<close> is the Go struct; each RPC
  handler and API call is a function from the state to the state and the reply, its whole body
  being one critical section of \<open>rf.mu\<close>. The long-running routines (leader, candidate, follower)
  are cut at the points where they release the mutex, one function per critical section;
  \<open>Raft_Cluster.thy\<close> puts the sections together.

  \<^item> \<open>interface{}\<close> commands are an open type \<open>'c\<close>, with \<open>None\<close> for nil (the content of entry 0).
  \<^item> The buffered channels \<open>resetElectionTimer\<close>, \<open>toFollower\<close>, \<open>terminateCh\<close> (capacity 1, element
    \<open>struct{}\<close>) are the number of tokens they hold.
  \<^item> \<open>applyCh\<close> is unbuffered and fed by one goroutine per \<open>applyLog\<close> call: the field holds, per
    goroutine, the messages it still has to send.
  \<^item> A buffer written by \<open>labgob\<close> is the sequence of values encoded into it; decoding takes them off
    the front and fails on the end of the buffer and on a value of another type.
  \<^item> Slices are values: the backing array that \<open>args.Entries\<close> shares with \<open>rf.log\<close> until the RPC is
    encoded is not modelled.
\<close>

section \<open>Data\<close>

record 'c ApplyMsg =
  CommandValid :: bool
  Command :: "'c option"
  CommandIndex :: int

record 'c LogEntry =
  Content :: "'c option"
  TermIdx :: int

datatype 'c gobval = GobInt int | GobLog "'c LogEntry list"

record 'c Raft =
  peers :: nat \<comment> \<open>number of RPC end points\<close>
  persister :: "'c gobval Persister"
  me :: int
  currentTerm :: int
  votedFor :: int
  log :: "'c LogEntry list"
  commitIndex :: int
  lastApplied :: int
  nextIndex :: "int list"
  matchIndex :: "int list"
  status :: int \<comment> \<open>0: leader, 1: candidate, 2: follower\<close>
  resetElectionTimer :: nat
  toFollower :: nat
  terminateCh :: nat
  applyCh :: "'c ApplyMsg list list"

record RequestVoteArgs =
  rvTerm :: int
  CandidateId :: int
  LastLogIndex :: int
  LastLogTerm :: int

record RequestVoteReply =
  rvrTerm :: int
  VoteGranted :: bool

record 'c AppendEntriesArgs =
  aeTerm :: int
  LeaderId :: int
  PrevLogIndex :: int
  PrevLogTerm :: int
  Entries :: "'c LogEntry list"
  LeaderCommit :: int

record AppendEntriesReply =
  aerTerm :: int
  Success :: bool
  NextIndex :: int

definition MinOf :: "int \<Rightarrow> int \<Rightarrow> int" where
  "MinOf a b = (if a < b then a else b)"

section \<open>State queries and persistence\<close>

definition GetState :: "'c Raft \<Rightarrow> int \<times> bool" where
  "GetState rf = (currentTerm rf, status rf = 0)"

definition persist :: "'c Raft \<Rightarrow> 'c Raft" where
  "persist rf =
     (let w = [];
          w = w @ [GobInt (currentTerm rf)];
          w = w @ [GobInt (votedFor rf)];
          w = w @ [GobLog (log rf)]
      in rf\<lparr>persister := SaveRaftState (persister rf) w\<rparr>)"

fun decodeInt :: "'c gobval list \<Rightarrow> (int \<times> 'c gobval list) option" where
  "decodeInt (GobInt i # r) = Some (i, r)"
| "decodeInt _ = None"

fun decodeLog :: "'c gobval list \<Rightarrow> ('c LogEntry list \<times> 'c gobval list) option" where
  "decodeLog (GobLog l # r) = Some (l, r)"
| "decodeLog _ = None"

definition readPersist :: "'c Raft \<Rightarrow> 'c gobval list \<Rightarrow> 'c Raft" where
  "readPersist rf data =
     (if data = [] then rf
      else case decodeInt data of None \<Rightarrow> rf
      | Some (term, r) \<Rightarrow> (case decodeInt r of None \<Rightarrow> rf
      | Some (vote, r) \<Rightarrow> (case decodeLog r of None \<Rightarrow> rf
      | Some (lg, r) \<Rightarrow> rf\<lparr>currentTerm := term, votedFor := vote, log := lg\<rparr>)))"

definition Make :: "nat \<Rightarrow> int \<Rightarrow> 'c gobval Persister \<Rightarrow> 'c Raft" where
  "Make n i p =
     readPersist
       \<lparr>peers = n, persister = p, me = i, currentTerm = 0, votedFor = -1,
        log = [\<lparr>Content = None, TermIdx = 0\<rparr>],
        commitIndex = 0, lastApplied = 0,
        nextIndex = replicate n 0, matchIndex = replicate n 0, status = 2,
        resetElectionTimer = 0, toFollower = 0, terminateCh = 0, applyCh = []\<rparr>
       (ReadRaftState p)"

section \<open>Helpers of the handlers\<close>

definition logNewer :: "'c Raft \<Rightarrow> RequestVoteArgs \<Rightarrow> bool res" where
  "logNewer rf args =
     bindR (idx (log rf) (len (log rf) - 1)) (\<lambda>latest.
       if LastLogTerm args > TermIdx latest then Inr True
       else if LastLogTerm args = TermIdx latest
         then Inr (LastLogIndex args + 1 \<ge> len (log rf))
       else Inr False)"

definition updateTerm :: "'c Raft \<Rightarrow> int \<Rightarrow> 'c Raft \<times> bool" where
  "updateTerm rf term =
     (if term > currentTerm rf then
        (let rf = (if status rf \<noteq> 2 \<and> toFollower rf = 0
                   then rf\<lparr>status := 2, toFollower := toFollower rf + 1\<rparr> else rf);
             rf = rf\<lparr>currentTerm := term\<rparr>;
             rf = rf\<lparr>votedFor := -1\<rparr>
         in (persist rf, True))
      else (rf, False))"

function applyLoop :: "'c Raft \<Rightarrow> 'c ApplyMsg list \<Rightarrow> ('c Raft \<times> 'c ApplyMsg list) res" where
  "applyLoop rf msgs =
     (if lastApplied rf < commitIndex rf then
        (let rf = rf\<lparr>lastApplied := lastApplied rf + 1\<rparr> in
         bindR (idx (log rf) (lastApplied rf)) (\<lambda>e.
           applyLoop rf
             (msgs @ [\<lparr>CommandValid = True, Command = Content e, CommandIndex = lastApplied rf\<rparr>])))
      else Inr (rf, msgs))"
  by pat_completeness auto
termination
  by (relation "measure (\<lambda>(rf, _). nat (commitIndex rf - lastApplied rf))") auto

declare applyLoop.simps [simp del]

definition applyLog :: "'c Raft \<Rightarrow> 'c Raft res" where
  "applyLog rf = bindR (applyLoop rf []) (\<lambda>(rf, appMsgs). Inr (rf\<lparr>applyCh := applyCh rf @ [appMsgs]\<rparr>))"

definition pokeElectionTimer :: "'c Raft \<Rightarrow> 'c Raft" where
  "pokeElectionTimer rf =
     (if resetElectionTimer rf = 0 then rf\<lparr>resetElectionTimer := resetElectionTimer rf + 1\<rparr> else rf)"

section \<open>RPC handlers\<close>

definition RequestVote ::
  "'c Raft \<Rightarrow> RequestVoteArgs \<Rightarrow> ('c Raft \<times> RequestVoteReply) res" where
  "RequestVote rf args =
     (let reply = \<lparr>rvrTerm = currentTerm rf, VoteGranted = False\<rparr>;
          rf = fst (updateTerm rf (rvTerm args))
      in if rvTerm args < currentTerm rf then Inr (rf, reply\<lparr>VoteGranted := False\<rparr>)
         else if votedFor rf \<noteq> -1 \<and> votedFor rf \<noteq> CandidateId args
           then Inr (rf, reply\<lparr>VoteGranted := False\<rparr>)
         else bindR (logNewer rf args) (\<lambda>newer.
           if \<not> newer then Inr (rf, reply\<lparr>VoteGranted := False\<rparr>)
           else
             let rf = rf\<lparr>votedFor := CandidateId args\<rparr>;
                 rf = persist rf;
                 reply = reply\<lparr>VoteGranted := True\<rparr>
             in Inr (pokeElectionTimer rf, reply)))"

text \<open>The loop of lines 268--270: back over the entries of the conflicting term.\<close>

function conflictScan :: "'c LogEntry list \<Rightarrow> int \<Rightarrow> int \<Rightarrow> int res" where
  "conflictScan lg lastTerm prevIdx =
     (if prevIdx \<ge> 0 then
        bindR (idx lg prevIdx) (\<lambda>e.
          if TermIdx e = lastTerm then conflictScan lg lastTerm (prevIdx - 1) else Inr prevIdx)
      else Inr prevIdx)"
  by pat_completeness auto
termination
  by (relation "measure (\<lambda>(_, _, p). nat (p + 1))") auto

declare conflictScan.simps [simp del]

text \<open>The loop of lines 278--281: skip the new entries whose terms agree with the log.\<close>

function matchScan :: "'c LogEntry list \<Rightarrow> 'c LogEntry list \<Rightarrow> int \<Rightarrow> int \<Rightarrow> (int \<times> int) res" where
  "matchScan es lg newIdx oldIdx =
     (if newIdx < len es \<and> oldIdx < len lg then
        bindR (idx es newIdx) (\<lambda>e. bindR (idx lg oldIdx) (\<lambda>o'.
          if TermIdx e = TermIdx o' then matchScan es lg (newIdx + 1) (oldIdx + 1)
          else Inr (newIdx, oldIdx)))
      else Inr (newIdx, oldIdx))"
  by pat_completeness auto
termination
  by (relation "measure (\<lambda>(es, _, n, _). nat (len es - n))") auto

declare matchScan.simps [simp del]

text \<open>The loop of lines 284--288: append the remaining new entries.\<close>

function appendRest :: "'c LogEntry list \<Rightarrow> 'c LogEntry list \<Rightarrow> int \<Rightarrow> 'c LogEntry list res" where
  "appendRest es lg newIdx =
     (if newIdx < len es then bindR (idx es newIdx) (\<lambda>e. appendRest es (lg @ [e]) (newIdx + 1))
      else Inr lg)"
  by pat_completeness auto
termination
  by (relation "measure (\<lambda>(es, _, n). nat (len es - n))") auto

declare appendRest.simps [simp del]

definition AppendEntries ::
  "'c Raft \<Rightarrow> 'c AppendEntriesArgs \<Rightarrow> ('c Raft \<times> AppendEntriesReply) res" where
  "AppendEntries rf args =
     (let reply = \<lparr>aerTerm = currentTerm rf, Success = False, NextIndex = 0\<rparr>;
          rf = fst (updateTerm rf (aeTerm args))
      in if currentTerm rf > aeTerm args
         then Inr (rf, reply\<lparr>Success := False, NextIndex := -1\<rparr>)
         else
           bindR
             (if len (log rf) \<le> PrevLogIndex args then Inr True
              else bindR (idx (log rf) (PrevLogIndex args)) (\<lambda>e.
                Inr (TermIdx e \<noteq> PrevLogTerm args)))
             (\<lambda>missing.
           bindR
             (if missing then
                bindR
                  (if len (log rf) \<le> PrevLogIndex args then Inr (len (log rf))
                   else bindR (idx (log rf) (PrevLogIndex args)) (\<lambda>e.
                     bindR (conflictScan (log rf) (TermIdx e) (PrevLogIndex args - 1)) (\<lambda>prevIdx.
                       Inr (prevIdx + 1))))
                  (\<lambda>next. Inr (rf, reply\<lparr>Success := False, NextIndex := next\<rparr>))
              else
                bindR (matchScan (Entries args) (log rf) 0 (PrevLogIndex args + 1))
                  (\<lambda>(newIdx, oldIdx).
                bindR (slice_to (log rf) oldIdx) (\<lambda>lg.
                let rf = rf\<lparr>log := lg\<rparr>; rf = persist rf in
                bindR (appendRest (Entries args) (log rf) newIdx) (\<lambda>lg.
                let rf = rf\<lparr>log := lg\<rparr> in
                bindR
                  (if LeaderCommit args > commitIndex rf
                   then applyLog (rf\<lparr>commitIndex := MinOf (len (log rf) - 1) (LeaderCommit args)\<rparr>)
                   else Inr rf)
                  (\<lambda>rf. Inr (rf, reply\<lparr>Success := True\<rparr>))))))
             (\<lambda>(rf, reply). Inr (pokeElectionTimer rf, reply))))"

definition Start :: "'c Raft \<Rightarrow> 'c \<Rightarrow> ('c Raft \<times> int \<times> int \<times> bool) res" where
  "Start rf command =
     (let index = len (log rf);
          term = currentTerm rf;
          isLeader = (status rf = 0)
      in if isLeader then
           let rf = rf\<lparr>log := log rf @ [\<lparr>Content = Some command, TermIdx = currentTerm rf\<rparr>]\<rparr>;
               rf = persist rf
           in bindR (idx (matchIndex rf) (me rf)) (\<lambda>m.
              bindR (upd (matchIndex rf) (me rf) (m + 1)) (\<lambda>mi.
                Inr (rf\<lparr>matchIndex := mi\<rparr>, index, term, isLeader)))
         else Inr (rf, index, term, isLeader))"

definition Kill :: "'c Raft \<Rightarrow> 'c Raft" where
  "Kill rf = (if terminateCh rf = 0 then rf\<lparr>terminateCh := terminateCh rf + 1\<rparr> else rf)"

section \<open>The routines, one function per critical section\<close>

text \<open>
  Lines 359--363: a new leader resets its bookkeeping. The loop writes index by index into slices
  allocated by \<open>Make\<close>.
\<close>

fun fillUpTo :: "nat \<Rightarrow> int \<Rightarrow> int list \<Rightarrow> int list res" where
  "fillUpTo 0 v xs = Inr xs"
| "fillUpTo (Suc k) v xs = bindR (fillUpTo k v xs) (\<lambda>ys. upd ys (int k) v)"

definition leaderInit :: "'c Raft \<Rightarrow> 'c Raft res" where
  "leaderInit rf =
     bindR (fillUpTo (peers rf) (len (log rf)) (nextIndex rf)) (\<lambda>ni.
     bindR (fillUpTo (peers rf) 0 (matchIndex rf)) (\<lambda>mi.
     bindR (upd mi (me rf) (len (log rf) - 1)) (\<lambda>mi.
       Inr (rf\<lparr>nextIndex := ni, matchIndex := mi\<rparr>))))"

text \<open>Lines 382--407: the arguments of one round of AppendEntries, one per peer.\<close>

definition makeArgs :: "'c Raft \<Rightarrow> int \<Rightarrow> 'c AppendEntriesArgs res" where
  "makeArgs rf peer =
     (let args = \<lparr>aeTerm = currentTerm rf, LeaderId = me rf, PrevLogIndex = 0, PrevLogTerm = 0,
                  Entries = [], LeaderCommit = 0\<rparr>
      in if peer = me rf then Inr args
         else
           bindR (idx (nextIndex rf) peer) (\<lambda>nextIdx.
           bindR (idx (log rf) (nextIdx - 1)) (\<lambda>e.
           bindR (slice_from (log rf) nextIdx) (\<lambda>es.
             Inr (args\<lparr>PrevLogIndex := nextIdx - 1, PrevLogTerm := TermIdx e,
                       Entries := es, LeaderCommit := commitIndex rf\<rparr>)))))"

definition leaderRound :: "'c Raft \<Rightarrow> 'c AppendEntriesArgs list res" where
  "leaderRound rf = mapR (makeArgs rf) (map int [0..<peers rf])"

text \<open>
  Lines 436--439: the index that half of the peers have reached.
\<close>

definition medianMatch :: "'c Raft \<Rightarrow> int res" where
  "medianMatch rf =
     (let sortMatchIdx = sort (copy_slice (replicate (peers rf) 0) (matchIndex rf))
      in idx sortMatchIdx (int (peers rf) div 2))"

text \<open>
  Lines 419--452: the leader handles one reply. The second component tells whether the routine
  returns (the leader steps down).
\<close>

definition leaderReply ::
  "'c Raft \<Rightarrow> 'c AppendEntriesArgs list \<Rightarrow> int \<Rightarrow> AppendEntriesReply \<Rightarrow> ('c Raft \<times> bool) res" where
  "leaderReply rf args peer reply =
     (if aerTerm reply > currentTerm rf then
        let rf = rf\<lparr>currentTerm := aerTerm reply\<rparr>;
            rf = rf\<lparr>votedFor := -1\<rparr>;
            rf = persist rf;
            rf = rf\<lparr>status := 2\<rparr>
        in Inr (rf, True)
      else if Success reply then
        bindR (idx args peer) (\<lambda>a.
        if len (Entries a) \<noteq> 0 then
          bindR (upd (matchIndex rf) peer (PrevLogIndex a + len (Entries a))) (\<lambda>mi.
          let rf = rf\<lparr>matchIndex := mi\<rparr> in
          bindR (idx (matchIndex rf) peer) (\<lambda>m.
          bindR (upd (nextIndex rf) peer (m + 1)) (\<lambda>ni.
          let rf = rf\<lparr>nextIndex := ni\<rparr> in
          bindR (medianMatch rf) (\<lambda>newCommit.
          bindR (idx (log rf) newCommit) (\<lambda>e.
          if TermIdx e \<ge> currentTerm rf then
            bindR (applyLog (rf\<lparr>commitIndex := newCommit\<rparr>)) (\<lambda>rf. Inr (rf, False))
          else Inr (rf, False))))))
        else Inr (rf, False))
      else if NextIndex reply \<noteq> -1 then
        bindR (upd (nextIndex rf) peer (NextIndex reply)) (\<lambda>ni.
          Inr (rf\<lparr>nextIndex := ni\<rparr>, False))
      else Inr (rf, False))"

text \<open>Lines 462--472: a candidate opens a new term, votes for itself and asks for votes.\<close>

definition candidateStart :: "'c Raft \<Rightarrow> ('c Raft \<times> RequestVoteArgs) res" where
  "candidateStart rf =
     (let rf = rf\<lparr>currentTerm := currentTerm rf + 1\<rparr>;
          rf = rf\<lparr>votedFor := me rf\<rparr>;
          rf = persist rf
      in bindR (idx (log rf) (len (log rf) - 1)) (\<lambda>latest.
           Inr (rf, \<lparr>rvTerm = currentTerm rf, CandidateId = me rf,
                     LastLogIndex = len (log rf) - 1, LastLogTerm = TermIdx latest\<rparr>)))"

text \<open>
  Lines 505--514: a candidate looks at the term of one reply; the second component tells whether
  the routine returns. Lines 515--518 then count the vote outside the mutex, and lines 520--521
  make the peer the leader in a critical section of their own.
\<close>

definition candidateReply :: "'c Raft \<Rightarrow> RequestVoteReply \<Rightarrow> 'c Raft \<times> bool" where
  "candidateReply rf reply =
     (if currentTerm rf < rvrTerm reply then
        let rf = rf\<lparr>currentTerm := rvrTerm reply\<rparr>;
            rf = rf\<lparr>votedFor := -1\<rparr>;
            rf = persist rf;
            rf = rf\<lparr>status := 2\<rparr>
        in (rf, True)
      else (rf, False))"

definition countVote :: "'c Raft \<Rightarrow> RequestVoteReply \<Rightarrow> int \<Rightarrow> int \<times> bool" where
  "countVote rf reply grantN =
     (if VoteGranted reply
      then (grantN + 1, grantN + 1 > int (peers rf) div 2)
      else (grantN, False))"

definition becomeLeader :: "'c Raft \<Rightarrow> 'c Raft" where
  "becomeLeader rf = rf\<lparr>status := 0\<rparr>"

text \<open>Lines 546--549: the election timer of a follower fires.\<close>

definition followerTimeout :: "'c Raft \<Rightarrow> 'c Raft" where
  "followerTimeout rf = rf\<lparr>status := 1\<rparr>"

end
