(* ===== verification/Raft_Peer.thy ===== *)
theory Raft_Peer
  imports Raft
begin

text \<open>
  The lemmas about one peer: what survives a crash, the well-formedness invariant of the state,
  what each handler does on every branch, that no handler panics on a well-formed state, and the
  arithmetic of the commit index.
\<close>

section \<open>Small operations\<close>

lemma persist_simps [simp]:
  "peers (persist rf) = peers rf" "me (persist rf) = me rf"
  "currentTerm (persist rf) = currentTerm rf" "votedFor (persist rf) = votedFor rf"
  "log (persist rf) = log rf" "commitIndex (persist rf) = commitIndex rf"
  "lastApplied (persist rf) = lastApplied rf" "nextIndex (persist rf) = nextIndex rf"
  "matchIndex (persist rf) = matchIndex rf" "status (persist rf) = status rf"
  "resetElectionTimer (persist rf) = resetElectionTimer rf"
  "toFollower (persist rf) = toFollower rf" "terminateCh (persist rf) = terminateCh rf"
  "applyCh (persist rf) = applyCh rf"
  "ReadRaftState (persister (persist rf)) =
     [GobInt (currentTerm rf), GobInt (votedFor rf), GobLog (log rf)]"
  by (simp_all add: persist_def Let_def)

lemma pokeElectionTimer_simps [simp]:
  "peers (pokeElectionTimer rf) = peers rf" "me (pokeElectionTimer rf) = me rf"
  "persister (pokeElectionTimer rf) = persister rf"
  "currentTerm (pokeElectionTimer rf) = currentTerm rf"
  "votedFor (pokeElectionTimer rf) = votedFor rf"
  "log (pokeElectionTimer rf) = log rf" "commitIndex (pokeElectionTimer rf) = commitIndex rf"
  "lastApplied (pokeElectionTimer rf) = lastApplied rf"
  "nextIndex (pokeElectionTimer rf) = nextIndex rf"
  "matchIndex (pokeElectionTimer rf) = matchIndex rf" "status (pokeElectionTimer rf) = status rf"
  "toFollower (pokeElectionTimer rf) = toFollower rf"
  "terminateCh (pokeElectionTimer rf) = terminateCh rf"
  "applyCh (pokeElectionTimer rf) = applyCh rf"
  by (simp_all add: pokeElectionTimer_def)

lemma pokeElectionTimer_token: "resetElectionTimer rf \<le> 1 \<Longrightarrow> resetElectionTimer (pokeElectionTimer rf) = 1"
  by (auto simp: pokeElectionTimer_def)

lemma updateTerm_simps [simp]:
  "peers (fst (updateTerm rf t)) = peers rf" "me (fst (updateTerm rf t)) = me rf"
  "currentTerm (fst (updateTerm rf t)) = max t (currentTerm rf)"
  "votedFor (fst (updateTerm rf t)) = (if t > currentTerm rf then -1 else votedFor rf)"
  "log (fst (updateTerm rf t)) = log rf"
  "commitIndex (fst (updateTerm rf t)) = commitIndex rf"
  "lastApplied (fst (updateTerm rf t)) = lastApplied rf"
  "nextIndex (fst (updateTerm rf t)) = nextIndex rf"
  "matchIndex (fst (updateTerm rf t)) = matchIndex rf"
  "resetElectionTimer (fst (updateTerm rf t)) = resetElectionTimer rf"
  "terminateCh (fst (updateTerm rf t)) = terminateCh rf"
  "applyCh (fst (updateTerm rf t)) = applyCh rf"
  "snd (updateTerm rf t) \<longleftrightarrow> t > currentTerm rf"
  by (simp_all add: updateTerm_def Let_def)

lemma updateTerm_older: "t \<le> currentTerm rf \<Longrightarrow> fst (updateTerm rf t) = rf"
  by (simp add: updateTerm_def)

section \<open>What a restart finds\<close>

text \<open>
  A restarted peer is built by \<open>Make\<close> from the persister its predecessor left behind.
\<close>

definition recovered :: "'c Raft \<Rightarrow> 'c Raft" where
  "recovered rf = Make (peers rf) (me rf) (persister rf)"

definition durable_vote :: "'c Raft \<Rightarrow> bool" where
  "durable_vote rf \<longleftrightarrow> currentTerm (recovered rf) = currentTerm rf \<and> votedFor (recovered rf) = votedFor rf"

definition durable_log :: "'c Raft \<Rightarrow> bool" where
  "durable_log rf \<longleftrightarrow> log (recovered rf) = log rf"

lemma recovered_of_persister:
  assumes "ReadRaftState (persister rf) = [GobInt t, GobInt v, GobLog l]"
  shows "currentTerm (recovered rf) = t" "votedFor (recovered rf) = v" "log (recovered rf) = l"
  using assms by (simp_all add: recovered_def Make_def readPersist_def)

lemma recovered_persist [simp]:
  "currentTerm (recovered (persist rf)) = currentTerm rf"
  "votedFor (recovered (persist rf)) = votedFor rf"
  "log (recovered (persist rf)) = log rf"
  by (rule recovered_of_persister, simp)+

lemma recovered_cong:
  assumes "persister rf = persister rf'"
  shows "currentTerm (recovered rf) = currentTerm (recovered rf')"
    and "votedFor (recovered rf) = votedFor (recovered rf')"
    and "log (recovered rf) = log (recovered rf')"
  using assms by (auto simp: recovered_def Make_def readPersist_def split: option.splits)

lemma durable_persist [simp]: "durable_vote (persist rf)" "durable_log (persist rf)"
  by (simp_all add: durable_vote_def durable_log_def)

lemma durable_vote_cong:
  assumes "persister rf = persister rf'" "currentTerm rf = currentTerm rf'" "votedFor rf = votedFor rf'"
  shows "durable_vote rf = durable_vote rf'"
  using assms(2,3) recovered_cong[OF assms(1)] by (simp add: durable_vote_def)

lemma durable_log_cong:
  assumes "persister rf = persister rf'" "log rf = log rf'"
  shows "durable_log rf = durable_log rf'"
  using assms(2) recovered_cong[OF assms(1)] by (simp add: durable_log_def)

lemma updateTerm_durable:
  assumes "durable_vote rf"
  shows "durable_vote (fst (updateTerm rf t))"
  using assms by (simp add: updateTerm_def Let_def)

lemma updateTerm_durable_log:
  assumes "durable_log rf"
  shows "durable_log (fst (updateTerm rf t))"
  using assms by (simp add: updateTerm_def Let_def)

section \<open>The apply loop\<close>

definition msgAt :: "'c LogEntry list \<Rightarrow> int \<Rightarrow> 'c ApplyMsg" where
  "msgAt lg i = \<lparr>CommandValid = True, Command = Content (lg ! nat i), CommandIndex = i\<rparr>"

lemma applyLoop_ok:
  assumes "-1 \<le> lastApplied rf" and "commitIndex rf < len (log rf)"
  shows "applyLoop rf msgs =
    Inr (rf\<lparr>lastApplied := max (lastApplied rf) (commitIndex rf)\<rparr>,
         msgs @ map (msgAt (log rf)) [lastApplied rf + 1 .. commitIndex rf])"
  using assms
proof (induction rf msgs rule: applyLoop.induct)
  case (1 rf msgs)
  show ?case
  proof (cases "lastApplied rf < commitIndex rf")
    case False
    then show ?thesis by (simp add: applyLoop.simps[of rf])
  next
    case True
    let ?rf = "rf\<lparr>lastApplied := lastApplied rf + 1\<rparr>"
    have idx: "idx (log ?rf) (lastApplied ?rf) = Inr (log rf ! nat (lastApplied rf + 1))"
      using True "1.prems" by simp
    have split: "[lastApplied rf + 1 .. commitIndex rf] =
        (lastApplied rf + 1) # [lastApplied rf + 1 + 1 .. commitIndex rf]"
      using True by (simp add: upto_rec1)
    have IH: "applyLoop ?rf (msgs @ [msgAt (log rf) (lastApplied rf + 1)]) =
      Inr (?rf\<lparr>lastApplied := max (lastApplied ?rf) (commitIndex ?rf)\<rparr>,
        (msgs @ [msgAt (log rf) (lastApplied rf + 1)]) @
        map (msgAt (log ?rf)) [lastApplied ?rf + 1 .. commitIndex ?rf])"
      using "1.IH"[OF True refl idx] True "1.prems" by (simp add: msgAt_def)
    have "max (lastApplied rf + 1) (commitIndex rf) = max (lastApplied rf) (commitIndex rf)"
      using True by simp
    with IH idx True show ?thesis
      by (simp add: applyLoop.simps[of rf] msgAt_def split)
  qed
qed

lemma applyLog_ok:
  assumes "-1 \<le> lastApplied rf" and "commitIndex rf < len (log rf)"
  shows "applyLog rf =
    Inr (rf\<lparr>lastApplied := max (lastApplied rf) (commitIndex rf),
            applyCh := applyCh rf @ [map (msgAt (log rf)) [lastApplied rf + 1 .. commitIndex rf]]\<rparr>)"
  using applyLoop_ok[OF assms, of "[]"] by (simp add: applyLog_def)

section \<open>The scans of AppendEntries\<close>

text \<open>The length of the longest common prefix of two lists, by an equivalence of elements.\<close>

fun agree :: "('a \<Rightarrow> 'a \<Rightarrow> bool) \<Rightarrow> 'a list \<Rightarrow> 'a list \<Rightarrow> nat" where
  "agree R (x # xs) (y # ys) = (if R x y then Suc (agree R xs ys) else 0)"
| "agree R _ _ = 0"

lemma agree_bounds: "agree R xs ys \<le> length xs" "agree R xs ys \<le> length ys"
  by (induction R xs ys rule: agree.induct) auto

lemma agree_nth: "i < agree R xs ys \<Longrightarrow> R (xs ! i) (ys ! i)"
  by (induction R xs ys arbitrary: i rule: agree.induct) (auto simp: nth_Cons split: nat.splits if_splits)

lemma agree_maximal:
  "agree R xs ys < length xs \<Longrightarrow> agree R xs ys < length ys \<Longrightarrow>
     \<not> R (xs ! agree R xs ys) (ys ! agree R xs ys)"
  by (induction R xs ys rule: agree.induct) auto

abbreviation sameTerm :: "'c LogEntry \<Rightarrow> 'c LogEntry \<Rightarrow> bool" where
  "sameTerm e e' \<equiv> TermIdx e = TermIdx e'"

lemma matchScan_agree:
  assumes "0 \<le> n" "n \<le> len es" "0 \<le> old" "old \<le> len lg"
  shows "matchScan es lg n old =
    (let k = int (agree sameTerm (drop (nat n) es) (drop (nat old) lg)) in Inr (n + k, old + k))"
  using assms
proof (induction es lg n old rule: matchScan.induct)
  case (1 es lg n old)
  show ?case
  proof (cases "n < len es \<and> old < len lg")
    case False
    then show ?thesis using "1.prems" by (auto simp: matchScan.simps[of es lg n old])
  next
    case True
    then have "drop (nat n) es = es ! nat n # drop (nat (n + 1)) es"
      and "drop (nat old) lg = lg ! nat old # drop (nat (old + 1)) lg"
      using "1.prems" by (simp_all add: drop_int_Cons)
    with True "1.IH" "1.prems" show ?thesis
      by (auto simp: matchScan.simps[of es lg n old] Let_def)
  qed
qed

lemma appendRest_drop:
  "0 \<le> n \<Longrightarrow> n \<le> len es \<Longrightarrow> appendRest es lg n = Inr (lg @ drop (nat n) es)"
proof (induction es lg n rule: appendRest.induct)
  case (1 es lg n)
  show ?case
  proof (cases "n < len es")
    case False
    with "1.prems" show ?thesis by (simp add: appendRest.simps)
  next
    case True
    then have "drop (nat n) es = es ! nat n # drop (nat (n + 1)) es"
      using "1.prems" by (simp add: drop_int_Cons)
    with True "1.IH" "1.prems" show ?thesis by (simp add: appendRest.simps[of es lg n])
  qed
qed

lemma conflictScan_ok:
  assumes "-1 \<le> p" and "p < len lg"
  shows "\<exists>q. conflictScan lg t p = Inr q \<and> -1 \<le> q \<and> q \<le> p \<and>
    (0 \<le> q \<longrightarrow> TermIdx (lg ! nat q) \<noteq> t) \<and> (\<forall>i. q < i \<and> i \<le> p \<longrightarrow> TermIdx (lg ! nat i) = t)"
  using assms
proof (induction lg t p rule: conflictScan.induct)
  case (1 lg t p)
  show ?case
  proof (cases "0 \<le> p \<and> TermIdx (lg ! nat p) = t")
    case False
    with "1.prems" show ?thesis by (auto simp: conflictScan.simps[of lg t p])
  next
    case True
    with "1.prems" have i: "idx lg p = Inr (lg ! nat p)" by simp
    with "1.IH"[OF _ i] True "1.prems" obtain q where
      "conflictScan lg t (p - 1) = Inr q" "-1 \<le> q" "q \<le> p - 1"
      "0 \<le> q \<longrightarrow> TermIdx (lg ! nat q) \<noteq> t" "\<forall>i. q < i \<and> i \<le> p - 1 \<longrightarrow> TermIdx (lg ! nat i) = t"
      by auto
    moreover have "\<forall>i. q < i \<and> i \<le> p \<longrightarrow> TermIdx (lg ! nat i) = t"
      using calculation(5) True by (metis zle_diff1_eq order_le_less)
    ultimately show ?thesis
      using True i by (intro exI[of _ q]) (auto simp: conflictScan.simps[of lg t p])
  qed
qed

section \<open>Well-formed states and messages\<close>

text \<open>
  Entry 0 is the placeholder of term 0 that \<open>Make\<close> puts into the log; every other entry was
  created by \<open>Start\<close> in some leader's term, which is positive.
\<close>

definition log_wf :: "'c LogEntry list \<Rightarrow> bool" where
  "log_wf lg \<longleftrightarrow> lg \<noteq> [] \<and> TermIdx (hd lg) = 0 \<and> (\<forall>e \<in> set (tl lg). 0 < TermIdx e)"

definition log_bound :: "'c LogEntry list \<Rightarrow> int \<Rightarrow> bool" where
  "log_bound lg t \<longleftrightarrow> (\<forall>e \<in> set lg. TermIdx e \<le> t)"

definition raft_wf :: "'c Raft \<Rightarrow> bool" where
  "raft_wf rf \<longleftrightarrow>
     log_wf (log rf) \<and> log_bound (log rf) (currentTerm rf) \<and>
     log_wf (log (recovered rf)) \<and> log_bound (log (recovered rf)) (currentTerm (recovered rf)) \<and>
     0 \<le> currentTerm rf \<and> (status rf = 0 \<longrightarrow> 0 < currentTerm rf) \<and>
     0 \<le> commitIndex rf \<and> 0 \<le> lastApplied rf \<and>
     0 \<le> me rf \<and> me rf < int (peers rf) \<and>
     length (nextIndex rf) = peers rf \<and> length (matchIndex rf) = peers rf"

definition ae_wf :: "'c AppendEntriesArgs \<Rightarrow> bool" where
  "ae_wf args \<longleftrightarrow> 0 \<le> PrevLogIndex args \<and> (PrevLogIndex args = 0 \<longrightarrow> PrevLogTerm args = 0) \<and>
     (\<forall>e \<in> set (Entries args). 0 < TermIdx e \<and> TermIdx e \<le> aeTerm args)"

lemma log_wf_nth: "log_wf lg \<Longrightarrow> 0 < i \<Longrightarrow> i < length lg \<Longrightarrow> 0 < TermIdx (lg ! i)"
  by (cases lg; cases i) (auto simp: log_wf_def)

lemma log_wf_0: "log_wf lg \<Longrightarrow> TermIdx (lg ! 0) = 0" "log_wf lg \<Longrightarrow> 0 < length lg"
  by (cases lg; simp add: log_wf_def)+

lemma log_wf_take: "log_wf lg \<Longrightarrow> 0 < n \<Longrightarrow> log_wf (take n lg)"
  by (cases lg; cases n) (auto simp: log_wf_def dest: in_set_takeD)

lemma log_wf_append: "log_wf lg \<Longrightarrow> \<forall>e \<in> set es. 0 < TermIdx e \<Longrightarrow> log_wf (lg @ es)"
  by (cases lg) (auto simp: log_wf_def)

lemma log_bound_mono: "log_bound lg t \<Longrightarrow> t \<le> t' \<Longrightarrow> log_bound lg t'"
  by (force simp: log_bound_def)

lemma log_bound_take: "log_bound lg t \<Longrightarrow> log_bound (take n lg) t"
  by (auto simp: log_bound_def dest: in_set_takeD)

lemma log_bound_append [simp]: "log_bound (lg @ es) t \<longleftrightarrow> log_bound lg t \<and> (\<forall>e \<in> set es. TermIdx e \<le> t)"
  by (auto simp: log_bound_def)

lemma Make_fields:
  "peers (Make n i p) = n" "persister (Make n i p) = p" "me (Make n i p) = i"
  "commitIndex (Make n i p) = 0" "lastApplied (Make n i p) = 0"
  "nextIndex (Make n i p) = replicate n 0" "matchIndex (Make n i p) = replicate n 0"
  "status (Make n i p) = 2" "resetElectionTimer (Make n i p) = 0" "toFollower (Make n i p) = 0"
  "terminateCh (Make n i p) = 0" "applyCh (Make n i p) = []"
  by (simp_all add: Make_def readPersist_def split: option.splits)

lemma recovered_recovered:
  "recovered (recovered rf) = recovered rf"
  by (simp add: recovered_def Make_fields)

lemma Make_fresh:
  "currentTerm (Make n i MakePersister) = 0" "votedFor (Make n i MakePersister) = -1"
  "log (Make n i MakePersister) = [\<lparr>Content = None, TermIdx = 0\<rparr>]"
  by (simp_all add: Make_def readPersist_def persister_defs)

lemma Make_fresh_wf: "0 \<le> i \<Longrightarrow> i < int n \<Longrightarrow> raft_wf (Make n i MakePersister)"
  by (simp add: raft_wf_def recovered_def Make_fields Make_fresh log_wf_def log_bound_def)

lemma Make_fresh_durable:
  "durable_vote (Make n i MakePersister)" "durable_log (Make n i MakePersister)"
  by (simp_all add: durable_vote_def durable_log_def recovered_def Make_fields)

section \<open>AppendEntries on every branch\<close>

definition prevMatches :: "'c Raft \<Rightarrow> 'c AppendEntriesArgs \<Rightarrow> bool" where
  "prevMatches rf args \<longleftrightarrow> PrevLogIndex args < len (log rf) \<and>
     TermIdx (log rf ! nat (PrevLogIndex args)) = PrevLogTerm args"

text \<open>
  What the log becomes: the prefix up to the previous entry, the stretch on which the terms of the
  old and the new entries agree (kept from the old log), and the rest of the new entries. Whatever
  the old log held beyond that is dropped.
\<close>

definition keptLog :: "'c LogEntry list \<Rightarrow> int \<Rightarrow> 'c LogEntry list \<Rightarrow> 'c LogEntry list" where
  "keptLog lg prev es = take (nat (prev + 1) + agree sameTerm es (drop (nat (prev + 1)) lg)) lg"

definition mergedLog :: "'c LogEntry list \<Rightarrow> int \<Rightarrow> 'c LogEntry list \<Rightarrow> 'c LogEntry list" where
  "mergedLog lg prev es =
     keptLog lg prev es @ drop (agree sameTerm es (drop (nat (prev + 1)) lg)) es"

lemma length_keptLog:
  assumes "0 \<le> prev" "prev < len lg"
  shows "length (keptLog lg prev es) = nat (prev + 1) + agree sameTerm es (drop (nat (prev + 1)) lg)"
  using assms agree_bounds(2)[of sameTerm es "drop (nat (prev + 1)) lg"]
  by (simp add: keptLog_def min_def) linarith

lemma length_mergedLog:
  assumes "0 \<le> prev" "prev < len lg"
  shows "len (mergedLog lg prev es) = prev + 1 + len es"
  using assms length_keptLog[OF assms, of es] agree_bounds(1)[of sameTerm es "drop (nat (prev + 1)) lg"]
  by (simp add: mergedLog_def)

lemma mergedLog_terms:
  assumes "0 \<le> prev" "prev < len lg"
  shows "map TermIdx (mergedLog lg prev es) = map TermIdx (take (nat (prev + 1)) lg) @ map TermIdx es"
proof -
  let ?p = "nat (prev + 1)" and ?k = "agree sameTerm es (drop (nat (prev + 1)) lg)"
  have "map TermIdx (take ?k (drop ?p lg)) = map TermIdx (take ?k es)"
    using agree_bounds[of sameTerm es "drop ?p lg"] agree_nth[of _ sameTerm es "drop ?p lg"]
    by (intro nth_equalityI) auto
  then have "map TermIdx (take ?k (drop ?p lg) @ drop ?k es) = map TermIdx es"
    by (metis append_take_drop_id map_append)
  then show ?thesis
    by (simp add: mergedLog_def keptLog_def take_add)
qed

lemma AppendEntries_stale:
  assumes "aeTerm args < currentTerm rf"
  shows "AppendEntries rf args =
    Inr (rf, \<lparr>aerTerm = currentTerm rf, Success = False, NextIndex = -1\<rparr>)"
  using assms by (simp add: AppendEntries_def Let_def updateTerm_older)

lemma AppendEntries_missing:
  assumes "currentTerm rf \<le> aeTerm args" and "0 \<le> PrevLogIndex args"
    and "\<not> prevMatches rf args" and "log_wf (log rf)" and "ae_wf args"
  shows "\<exists>next. AppendEntries rf args =
      Inr (pokeElectionTimer (fst (updateTerm rf (aeTerm args))),
           \<lparr>aerTerm = currentTerm rf, Success = False, NextIndex = next\<rparr>) \<and>
    1 \<le> next \<and> next \<le> PrevLogIndex args \<and> next \<le> len (log rf) \<and>
    (\<forall>i. next \<le> i \<and> i \<le> PrevLogIndex args \<and> i < len (log rf) \<longrightarrow>
       TermIdx (log rf ! nat i) = TermIdx (log rf ! nat (PrevLogIndex args)))"
proof (cases "len (log rf) \<le> PrevLogIndex args")
  case True
  have "1 \<le> len (log rf)" using log_wf_0(2)[OF assms(4)] by linarith
  with True assms(1) show ?thesis
    by (intro exI[of _ "len (log rf)"]) (auto simp: AppendEntries_def Let_def)
next
  case False
  let ?p = "PrevLogIndex args" and ?t = "TermIdx (log rf ! nat (PrevLogIndex args))"
  have neq: "?t \<noteq> PrevLogTerm args" using False assms(3) by (simp add: prevMatches_def)
  then have p: "0 < ?p"
    using assms(2,5) log_wf_0(1)[OF assms(4)] by (cases "?p = 0") (auto simp: ae_wf_def)
  have t: "0 < ?t" using p False by (intro log_wf_nth[OF assms(4)]) auto
  obtain q where q: "conflictScan (log rf) ?t (?p - 1) = Inr q" "-1 \<le> q" "q \<le> ?p - 1"
    "\<forall>i. q < i \<and> i \<le> ?p - 1 \<longrightarrow> TermIdx (log rf ! nat i) = ?t"
    using conflictScan_ok[of "?p - 1" "log rf" ?t] False p by auto
  have "q \<noteq> -1"
  proof
    assume "q = -1"
    then have "TermIdx (log rf ! nat 0) = ?t" using q(4)[rule_format, of 0] p by simp
    with t log_wf_0(1)[OF assms(4)] show False by simp
  qed
  then have q0: "0 \<le> q" using q(2) by simp
  have same: "TermIdx (log rf ! nat i) = ?t" if "q + 1 \<le> i" "i \<le> ?p" for i
    using q(4)[rule_format, of i] that by (cases "i = ?p") auto
  have "AppendEntries rf args =
      Inr (pokeElectionTimer (fst (updateTerm rf (aeTerm args))),
           \<lparr>aerTerm = currentTerm rf, Success = False, NextIndex = q + 1\<rparr>)"
    using False neq assms(1,2) q(1) by (simp add: AppendEntries_def Let_def)
  moreover have "q + 1 \<le> ?p" "q + 1 \<le> len (log rf)" "1 \<le> q + 1" using q(3) q0 False by auto
  ultimately show ?thesis using same by blast
qed

lemma AppendEntries_success:
  assumes "currentTerm rf \<le> aeTerm args" and "0 \<le> PrevLogIndex args"
    and "prevMatches rf args" and "-1 \<le> lastApplied rf"
  shows "AppendEntries rf args =
    (let rf1 = fst (updateTerm rf (aeTerm args));
         rf2 = persist (rf1\<lparr>log := keptLog (log rf) (PrevLogIndex args) (Entries args)\<rparr>);
         rf3 = rf2\<lparr>log := mergedLog (log rf) (PrevLogIndex args) (Entries args)\<rparr>;
         c = min (len (log rf3) - 1) (LeaderCommit args);
         rf4 = (if LeaderCommit args > commitIndex rf
                then rf3\<lparr>commitIndex := c, lastApplied := max (lastApplied rf) c,
                         applyCh := applyCh rf @ [map (msgAt (log rf3)) [lastApplied rf + 1 .. c]]\<rparr>
                else rf3)
     in Inr (pokeElectionTimer rf4, \<lparr>aerTerm = currentTerm rf, Success = True, NextIndex = 0\<rparr>))"
proof -
  let ?p = "PrevLogIndex args" and ?es = "Entries args"
  let ?k = "agree sameTerm ?es (drop (nat (?p + 1)) (log rf))"
  have p: "?p < len (log rf)" using assms(3) by (simp add: prevMatches_def)
  have kb: "?k \<le> length ?es" "?p + 1 + int ?k \<le> len (log rf)"
    using agree_bounds[of sameTerm ?es "drop (nat (?p + 1)) (log rf)"] p assms(2) by auto
  have scan: "matchScan ?es (log rf) 0 (?p + 1) = Inr (int ?k, ?p + 1 + int ?k)"
    using matchScan_agree[of 0 ?es "?p + 1" "log rf"] p assms(2) by (simp add: Let_def)
  have kept: "slice_to (log rf) (?p + 1 + int ?k) = Inr (keptLog (log rf) ?p ?es)"
    using kb assms(2) by (simp add: keptLog_def nat_add_distrib)
  have rest: "appendRest ?es (keptLog (log rf) ?p ?es) (int ?k) = Inr (mergedLog (log rf) ?p ?es)"
    using kb by (simp add: appendRest_drop mergedLog_def)
  have min: "MinOf a b = min a b" for a b :: int by (auto simp: MinOf_def)
  show ?thesis
    using assms p by (auto simp: AppendEntries_def Let_def prevMatches_def scan kept rest min applyLog_ok)
qed

section \<open>RequestVote on every branch\<close>

definition upToDate :: "'c Raft \<Rightarrow> RequestVoteArgs \<Rightarrow> bool" where
  "upToDate rf args \<longleftrightarrow>
     TermIdx (last (log rf)) < LastLogTerm args \<or>
     TermIdx (last (log rf)) = LastLogTerm args \<and> len (log rf) \<le> LastLogIndex args + 1"

definition mayVote :: "'c Raft \<Rightarrow> RequestVoteArgs \<Rightarrow> bool" where
  "mayVote rf args \<longleftrightarrow> currentTerm rf \<le> rvTerm args \<and>
     (currentTerm rf < rvTerm args \<or> votedFor rf = -1 \<or> votedFor rf = CandidateId args) \<and>
     upToDate rf args"

lemma logNewer_eq: "log rf \<noteq> [] \<Longrightarrow> logNewer rf args = Inr (upToDate rf args)"
  by (auto simp: logNewer_def upToDate_def)

lemma RequestVote_eq:
  assumes "log rf \<noteq> []"
  shows "RequestVote rf args =
    Inr (if mayVote rf args
         then pokeElectionTimer (persist ((fst (updateTerm rf (rvTerm args)))\<lparr>votedFor := CandidateId args\<rparr>))
         else fst (updateTerm rf (rvTerm args)),
         \<lparr>rvrTerm = currentTerm rf, VoteGranted = mayVote rf args\<rparr>)"
proof -
  have "logNewer (fst (updateTerm rf (rvTerm args))) args = Inr (upToDate rf args)"
    using assms logNewer_eq[of "fst (updateTerm rf (rvTerm args))" args] by (simp add: upToDate_def)
  then show ?thesis
    by (auto simp: RequestVote_def Let_def mayVote_def)
qed

section \<open>Start and the critical sections of the routines\<close>

lemma Start_leader:
  assumes "status rf = 0" "0 \<le> me rf" "me rf < len (matchIndex rf)"
  shows "Start rf c =
    Inr ((persist (rf\<lparr>log := log rf @ [\<lparr>Content = Some c, TermIdx = currentTerm rf\<rparr>]\<rparr>))
           \<lparr>matchIndex := (matchIndex rf)[nat (me rf) := matchIndex rf ! nat (me rf) + 1]\<rparr>,
         len (log rf), currentTerm rf, True)"
  using assms by (simp add: Start_def Let_def)

lemma Start_other: "status rf \<noteq> 0 \<Longrightarrow> Start rf c = Inr (rf, len (log rf), currentTerm rf, False)"
  by (simp add: Start_def Let_def)

lemma fillUpTo_ok: "k \<le> length xs \<Longrightarrow> fillUpTo k v xs = Inr (replicate k v @ drop k xs)"
proof (induction k)
  case 0
  then show ?case by simp
next
  case (Suc k)
  then have "(replicate k v @ drop k xs)[k := v] = replicate (Suc k) v @ drop (Suc k) xs"
    by (simp add: list_update_append Cons_nth_drop_Suc[symmetric] replicate_append_same[symmetric])
  with Suc show ?case by simp
qed

lemma leaderInit_ok:
  assumes "length (nextIndex rf) = peers rf" "length (matchIndex rf) = peers rf"
    "0 \<le> me rf" "me rf < int (peers rf)"
  shows "leaderInit rf =
    Inr (rf\<lparr>nextIndex := replicate (peers rf) (len (log rf)),
            matchIndex := (replicate (peers rf) 0)[nat (me rf) := len (log rf) - 1]\<rparr>)"
  using assms by (simp add: leaderInit_def fillUpTo_ok)

text \<open>The bookkeeping of an undisturbed leader points into its log.\<close>

definition leader_wf :: "'c Raft \<Rightarrow> bool" where
  "leader_wf rf \<longleftrightarrow> length (nextIndex rf) = peers rf \<and> length (matchIndex rf) = peers rf \<and>
     (\<forall>n \<in> set (nextIndex rf). 1 \<le> n \<and> n \<le> len (log rf)) \<and>
     (\<forall>m \<in> set (matchIndex rf). 0 \<le> m \<and> m < len (log rf)) \<and>
     matchIndex rf ! nat (me rf) = len (log rf) - 1"

lemma makeArgs_peer:
  assumes "leader_wf rf" "0 \<le> peer" "peer < int (peers rf)" "peer \<noteq> me rf"
  shows "makeArgs rf peer =
    (let n = nextIndex rf ! nat peer in
     Inr \<lparr>aeTerm = currentTerm rf, LeaderId = me rf, PrevLogIndex = n - 1,
          PrevLogTerm = TermIdx (log rf ! nat (n - 1)), Entries = drop (nat n) (log rf),
          LeaderCommit = commitIndex rf\<rparr>)"
proof -
  have "nextIndex rf ! nat peer \<in> set (nextIndex rf)"
    using assms by (auto simp: leader_wf_def)
  then have n: "1 \<le> nextIndex rf ! nat peer" "nextIndex rf ! nat peer \<le> len (log rf)"
    and l: "length (nextIndex rf) = peers rf"
    using assms(1) by (auto simp: leader_wf_def)
  have "idx (nextIndex rf) peer = Inr (nextIndex rf ! nat peer)" using assms(2,3) l by simp
  then show ?thesis using n assms(4) by (simp add: makeArgs_def Let_def)
qed

lemma makeArgs_wf:
  assumes "raft_wf rf" "makeArgs rf peer = Inr args" "0 < currentTerm rf" "0 \<le> peer"
  shows "ae_wf args" and "aeTerm args = currentTerm rf" and "LeaderId args = me rf"
proof -
  show "aeTerm args = currentTerm rf" "LeaderId args = me rf"
    using assms(2) by (auto simp: makeArgs_def Let_def go_checked split: if_splits)
  show "ae_wf args"
  proof (cases "peer = me rf")
    case True
    then show ?thesis using assms(2) by (auto simp: makeArgs_def ae_wf_def Let_def)
  next
    case False
    then obtain n where n: "1 \<le> n" "n \<le> len (log rf)"
      and a: "args = \<lparr>aeTerm = currentTerm rf, LeaderId = me rf, PrevLogIndex = n - 1,
          PrevLogTerm = TermIdx (log rf ! nat (n - 1)), Entries = drop (nat n) (log rf),
          LeaderCommit = commitIndex rf\<rparr>"
      using assms(2) by (auto simp: makeArgs_def Let_def go_checked)
    have lw: "log_wf (log rf)" using assms(1) by (simp add: raft_wf_def)
    have "set (drop (nat n) (log rf)) \<subseteq> set (tl (log rf))"
      using n(1) set_drop_subset_set_drop[of 1 "nat n" "log rf"] by (simp add: drop_Suc)
    then have "\<forall>e \<in> set (Entries args). 0 < TermIdx e"
      using lw a by (auto simp: log_wf_def)
    moreover have "\<forall>e \<in> set (Entries args). TermIdx e \<le> currentTerm rf"
      using assms(1) a by (auto simp: raft_wf_def log_bound_def dest: in_set_dropD)
    ultimately show ?thesis
      using n a log_wf_0(1)[OF lw] by (auto simp: ae_wf_def)
  qed
qed

section \<open>The commit index and majorities\<close>

definition holders :: "'c Raft \<Rightarrow> int \<Rightarrow> nat set" where
  "holders rf c = {i. i < peers rf \<and> c \<le> matchIndex rf ! i}"

lemma card_holders:
  assumes "length (matchIndex rf) = peers rf"
  shows "card (holders rf c) = length (filter (\<lambda>m. c \<le> m) (matchIndex rf))"
  using assms by (simp add: holders_def length_filter_conv_card)

lemma medianMatch_ok:
  assumes "length (matchIndex rf) = peers rf" "0 < peers rf"
  shows "medianMatch rf = Inr (sort (matchIndex rf) ! (peers rf div 2))"
proof -
  have "peers rf div 2 < peers rf" using assms(2) by simp
  then have "int (peers rf) div 2 < int (peers rf)" by linarith
  then show ?thesis
    using assms by (simp add: medianMatch_def Let_def nat_div_distrib)
qed

lemma medianMatch_holders:
  assumes "length (matchIndex rf) = peers rf" "0 < peers rf" "medianMatch rf = Inr c"
  shows "peers rf - peers rf div 2 \<le> card (holders rf c)" and "c \<in> set (matchIndex rf)"
proof -
  have c: "c = sort (matchIndex rf) ! (peers rf div 2)"
    using medianMatch_ok[OF assms(1,2)] assms(3) by simp
  have lt: "peers rf div 2 < length (sort (matchIndex rf))" using assms(1,2) by simp
  show "peers rf - peers rf div 2 \<le> card (holders rf c)"
    using sorted_nth_count_ge[OF sorted_sort lt] assms(1)
    by (simp add: card_holders length_filter_sort c)
  show "c \<in> set (matchIndex rf)"
    using nth_mem[OF lt] by (simp add: c)
qed

section \<open>What every critical section keeps\<close>

text \<open>
  \<open>good\<close> is the invariant of a peer between critical sections; \<open>evolves\<close> relates the states before
  and after: terms only grow, and a vote cast in a term is never changed in that term.
\<close>

definition good :: "'c Raft \<Rightarrow> bool" where
  "good rf \<longleftrightarrow> raft_wf rf \<and> durable_vote rf"

definition evolves :: "'c Raft \<Rightarrow> 'c Raft \<Rightarrow> bool" where
  "evolves rf rf' \<longleftrightarrow> me rf' = me rf \<and> peers rf' = peers rf \<and> currentTerm rf \<le> currentTerm rf' \<and>
     (currentTerm rf' = currentTerm rf \<and> votedFor rf \<noteq> -1 \<longrightarrow> votedFor rf' = votedFor rf)"

lemma evolves_refl [simp]: "evolves rf rf"
  by (simp add: evolves_def)

lemma evolves_trans: "evolves a b \<Longrightarrow> evolves b c \<Longrightarrow> evolves a c"
  by (auto simp: evolves_def)

lemma good_persistI:
  assumes "log_wf (log rf)" "log_bound (log rf) (currentTerm rf)" "0 \<le> currentTerm rf" "status rf = 0 \<longrightarrow> 0 < currentTerm rf"
    "0 \<le> commitIndex rf" "0 \<le> lastApplied rf" "0 \<le> me rf" "me rf < int (peers rf)"
    "length (nextIndex rf) = peers rf" "length (matchIndex rf) = peers rf"
  shows "good (persist rf)"
  using assms by (simp add: good_def raft_wf_def)

text \<open>
  A section that does not touch the persisted fields nor the persister keeps \<open>good\<close> as soon as the
  bookkeeping stays in shape.
\<close>

lemma good_frame:
  assumes "good rf"
    and "persister rf' = persister rf" "currentTerm rf' = currentTerm rf" "votedFor rf' = votedFor rf"
    and "log_wf (log rf')" "log_bound (log rf') (currentTerm rf')"
    and "me rf' = me rf" "peers rf' = peers rf"
    and "0 \<le> commitIndex rf'" "0 \<le> lastApplied rf'" "status rf' = 0 \<longrightarrow> 0 < currentTerm rf'"
    and "length (nextIndex rf') = peers rf" "length (matchIndex rf') = peers rf"
  shows "good rf'"
  using assms recovered_cong[OF assms(2)] durable_vote_cong[OF assms(2,3,4)]
  by (simp add: good_def raft_wf_def)

lemma updateTerm_good:
  assumes "good rf"
  shows "good (fst (updateTerm rf t))"
proof (cases "t > currentTerm rf")
  case True
  then have "log_bound (log rf) t"
    using assms log_bound_mono[of "log rf" "currentTerm rf" t] by (simp add: good_def raft_wf_def)
  with True assms show ?thesis
    by (auto simp: updateTerm_def Let_def good_def[of rf] raft_wf_def[of rf] intro!: good_persistI)
next
  case False
  with assms show ?thesis by (simp add: updateTerm_older)
qed

lemma updateTerm_evolves: "evolves rf (fst (updateTerm rf t))"
  by (simp add: evolves_def)

lemma pokeElectionTimer_good [simp]: "good (pokeElectionTimer rf) = good rf"
proof -
  have "persister (pokeElectionTimer rf) = persister rf" by simp
  from recovered_cong[OF this] durable_vote_cong[OF this] show ?thesis
    by (simp add: good_def raft_wf_def)
qed

lemma pokeElectionTimer_evolves [simp]: "evolves rf (pokeElectionTimer rf') = evolves rf rf'"
  by (simp add: evolves_def)

lemma good_log: "good rf \<Longrightarrow> log_wf (log rf)" "good rf \<Longrightarrow> log rf \<noteq> []"
  by (auto simp: good_def raft_wf_def log_wf_def)

lemma RequestVote_good:
  assumes "good rf" "RequestVote rf args = Inr (rf', reply)" "0 \<le> CandidateId args"
  shows "good rf'" and "evolves rf rf'"
proof -
  let ?u = "fst (updateTerm rf (rvTerm args))"
  have rf': "rf' = (if mayVote rf args
      then pokeElectionTimer (persist (?u\<lparr>votedFor := CandidateId args\<rparr>)) else ?u)"
    using assms(2) RequestVote_eq[OF good_log(2)[OF assms(1)], of args] by (simp split: if_splits)
  have u: "good ?u" using assms(1) by (rule updateTerm_good)
  then have "good (persist (?u\<lparr>votedFor := CandidateId args\<rparr>))"
    by (intro good_persistI) (simp_all add: good_def raft_wf_def)
  with u show "good rf'" by (simp add: rf')
  show "evolves rf rf'"
    by (auto simp: rf' evolves_def mayVote_def)
qed

lemma RequestVote_total: "good rf \<Longrightarrow> \<exists>rf' reply. RequestVote rf args = Inr (rf', reply)"
  using RequestVote_eq[OF good_log(2), of rf args] by blast

lemma keptLog_wf: "log_wf lg \<Longrightarrow> 0 \<le> prev \<Longrightarrow> log_wf (keptLog lg prev es)"
  by (simp add: keptLog_def log_wf_take)

lemma mergedLog_wf:
  assumes "log_wf lg" "0 \<le> prev" "\<forall>e \<in> set es. 0 < TermIdx e"
  shows "log_wf (mergedLog lg prev es)"
  using assms by (auto simp: mergedLog_def keptLog_wf intro!: log_wf_append dest: in_set_dropD)

lemma AppendEntries_good:
  assumes "good rf" "ae_wf args" "AppendEntries rf args = Inr (rf', reply)"
  shows "good rf'" and "evolves rf rf'"
proof -
  let ?u = "fst (updateTerm rf (aeTerm args))" and ?p = "PrevLogIndex args" and ?es = "Entries args"
  have u: "good ?u" using assms(1) by (rule updateTerm_good)
  have p: "0 \<le> ?p" and es: "\<forall>e \<in> set ?es. 0 < TermIdx e \<and> TermIdx e \<le> aeTerm args"
    using assms(2) by (auto simp: ae_wf_def)
  have lw: "log_wf (log rf)" using assms(1) by (rule good_log)
  consider "aeTerm args < currentTerm rf"
    | "currentTerm rf \<le> aeTerm args" "\<not> prevMatches rf args"
    | "currentTerm rf \<le> aeTerm args" "prevMatches rf args"
    by linarith
  then have "good rf' \<and> evolves rf rf'"
  proof cases
    case 1
    then show ?thesis using assms(1,3) AppendEntries_stale[OF 1] by simp
  next
    case 2
    then obtain x where "AppendEntries rf args = Inr (pokeElectionTimer ?u, x)"
      using AppendEntries_missing[OF 2(1) p 2(2) lw assms(2)] by blast
    with assms(3) have "rf' = pokeElectionTimer ?u" by simp
    then show ?thesis using u updateTerm_evolves[of rf "aeTerm args"] by simp
  next
    case 3
    let ?rf2 = "persist (?u\<lparr>log := keptLog (log rf) ?p ?es\<rparr>)"
    have g: "log_bound (log rf) (aeTerm args)" "0 \<le> lastApplied rf" "0 \<le> commitIndex rf"
      using assms(1) 3(1) by (auto simp: good_def raft_wf_def elim: log_bound_mono)
    then have kb: "log_bound (keptLog (log rf) ?p ?es) (aeTerm args)"
      by (simp add: keptLog_def log_bound_take)
    then have g2: "good ?rf2"
      using u 3(1) keptLog_wf[OF lw p, of ?es] by (intro good_persistI) (auto simp: good_def raft_wf_def)
    have mb: "log_bound (mergedLog (log rf) ?p ?es) (aeTerm args)"
      using kb es by (auto simp: mergedLog_def dest: in_set_dropD)
    have mw: "log_wf (mergedLog (log rf) ?p ?es)" using lw p es by (simp add: mergedLog_wf)
    have ml: "0 \<le> len (mergedLog (log rf) ?p ?es) - 1"
      using log_wf_0(2)[OF mw] by linarith
    note ok = AppendEntries_success[OF 3(1) p 3(2), unfolded Let_def]
    have fr: "good rf'" "evolves rf rf'"
      if "rf' = pokeElectionTimer (?rf2\<lparr>log := mergedLog (log rf) ?p ?es, commitIndex := c,
            lastApplied := la, applyCh := ch\<rparr>)" "0 \<le> c" "0 \<le> la" for c la ch
    proof -
      show "good rf'"
        using g2 that mw mb 3(1) u
        by (simp, intro good_frame[OF g2]) (auto simp: good_def raft_wf_def)
      show "evolves rf rf'" using that by (simp add: evolves_def)
    qed
    show ?thesis
    proof (cases "LeaderCommit args > commitIndex rf")
      case True
      let ?c = "min (len (mergedLog (log rf) ?p ?es) - 1) (LeaderCommit args)"
      have eq: "rf' = pokeElectionTimer (?rf2\<lparr>log := mergedLog (log rf) ?p ?es, commitIndex := ?c,
          lastApplied := max (lastApplied rf) ?c, applyCh := applyCh rf @
            [map (msgAt (mergedLog (log rf) ?p ?es)) [lastApplied rf + 1 .. ?c]]\<rparr>)"
        using ok assms(3) g True by simp
      have "0 \<le> ?c" "0 \<le> max (lastApplied rf) ?c" using True g ml by auto
      then show ?thesis using fr[OF eq] by blast
    next
      case False
      then have eq: "rf' = pokeElectionTimer (?rf2\<lparr>log := mergedLog (log rf) ?p ?es\<rparr>)"
        using ok assms(3) g by simp
      have "good (?rf2\<lparr>log := mergedLog (log rf) ?p ?es\<rparr>)"
        using g2 mw mb 3(1) u by (intro good_frame[OF g2]) (auto simp: good_def raft_wf_def)
      then show ?thesis by (simp add: eq evolves_def)
    qed
  qed
  then show "good rf'" and "evolves rf rf'" by auto
qed

lemma AppendEntries_total:
  assumes "good rf" "ae_wf args"
  shows "\<exists>rf' reply. AppendEntries rf args = Inr (rf', reply)"
proof -
  have p: "0 \<le> PrevLogIndex args" using assms(2) by (simp add: ae_wf_def)
  have la: "-1 \<le> lastApplied rf" using assms(1) by (simp add: good_def raft_wf_def)
  consider "aeTerm args < currentTerm rf"
    | "currentTerm rf \<le> aeTerm args" "\<not> prevMatches rf args"
    | "currentTerm rf \<le> aeTerm args" "prevMatches rf args"
    by linarith
  then show ?thesis
  proof cases
    case 1
    then show ?thesis using AppendEntries_stale[OF 1] by blast
  next
    case 2
    then show ?thesis using AppendEntries_missing[OF 2(1) p 2(2) good_log(1)[OF assms(1)] assms(2)] by blast
  next
    case 3
    then show ?thesis using AppendEntries_success[OF 3(1) p 3(2) la] by (auto simp: Let_def)
  qed
qed

lemma Start_good:
  assumes "good rf" "Start rf c = Inr (rf', x)"
  shows "good rf'" and "evolves rf rf'"
proof -
  have "good rf' \<and> evolves rf rf'"
  proof (cases "status rf = 0")
    case False
    then show ?thesis using assms Start_other[OF False, of c] by simp
  next
    case True
    let ?e = "\<lparr>Content = Some c, TermIdx = currentTerm rf\<rparr>"
    let ?p = "persist (rf\<lparr>log := log rf @ [?e]\<rparr>)"
    have wf: "raft_wf rf" using assms(1) by (simp add: good_def)
    then have rf': "rf' = ?p\<lparr>matchIndex := (matchIndex rf)[nat (me rf) := matchIndex rf ! nat (me rf) + 1]\<rparr>"
      using Start_leader[OF True, of c] assms(2) by (simp add: raft_wf_def)
    have g: "good ?p"
      using wf True by (intro good_persistI) (auto simp: raft_wf_def intro!: log_wf_append)
    have "good rf'"
      using g wf by (intro good_frame[OF g]) (auto simp: rf' good_def raft_wf_def)
    then show ?thesis by (simp add: rf' evolves_def)
  qed
  then show "good rf'" and "evolves rf rf'" by auto
qed

lemma Start_total: "good rf \<Longrightarrow> \<exists>rf' x. Start rf c = Inr (rf', x)"
  by (cases "status rf = 0") (auto simp: Start_leader Start_other good_def raft_wf_def)

lemma good_lengths:
  assumes "good rf"
  shows "length (nextIndex rf) = peers rf" "length (matchIndex rf) = peers rf"
    "0 \<le> me rf" "me rf < int (peers rf)"
  using assms by (auto simp: good_def raft_wf_def)

lemma leaderInit_good:
  assumes "good rf" "leaderInit rf = Inr rf'"
  shows "good rf'" and "evolves rf rf'"
proof -
  have rf': "rf' = rf\<lparr>nextIndex := replicate (peers rf) (len (log rf)),
      matchIndex := (replicate (peers rf) 0)[nat (me rf) := len (log rf) - 1]\<rparr>"
    using leaderInit_ok[OF good_lengths[OF assms(1)]] assms(2) by simp
  show "good rf'"
    using assms(1) by (intro good_frame[OF assms(1)]) (auto simp: rf' good_def raft_wf_def)
  show "evolves rf rf'" by (simp add: rf' evolves_def)
qed

lemma applyLoop_shape:
  assumes "applyLoop rf msgs = Inr (rf', msgs')"
  shows "\<exists>la. rf' = rf\<lparr>lastApplied := la\<rparr> \<and> lastApplied rf \<le> la"
  using assms
proof (induction rf msgs rule: applyLoop.induct)
  case (1 rf msgs)
  show ?case
  proof (cases "lastApplied rf < commitIndex rf")
    case False
    then show ?thesis
      using "1.prems" by (intro exI[of _ "lastApplied rf"]) (simp add: applyLoop.simps[of rf])
  next
    case True
    let ?rf = "rf\<lparr>lastApplied := lastApplied rf + 1\<rparr>"
    from True "1.prems" obtain e where e: "idx (log ?rf) (lastApplied ?rf) = Inr e"
      and r: "applyLoop ?rf (msgs @ [\<lparr>CommandValid = True, Command = Content e,
                CommandIndex = lastApplied ?rf\<rparr>]) = Inr (rf', msgs')"
      by (auto simp: applyLoop.simps[of rf] bindR_eq_Inr)
    from "1.IH"[OF True refl e r] obtain la
      where "rf' = ?rf\<lparr>lastApplied := la\<rparr>" "lastApplied rf + 1 \<le> la" by auto
    then show ?thesis by (intro exI[of _ la]) simp
  qed
qed

lemma applyLog_shape:
  assumes "applyLog rf = Inr rf'"
  shows "\<exists>la ch. rf' = rf\<lparr>lastApplied := la, applyCh := ch\<rparr> \<and> lastApplied rf \<le> la"
  using assms by (auto simp: applyLog_def bindR_eq_Inr dest!: applyLoop_shape)

lemma stepDown_good:
  assumes "good rf" "currentTerm rf < t"
  shows "good ((persist (rf\<lparr>currentTerm := t, votedFor := -1\<rparr>))\<lparr>status := 2\<rparr>)"
    and "evolves rf ((persist (rf\<lparr>currentTerm := t, votedFor := -1\<rparr>))\<lparr>status := 2\<rparr>)"
proof -
  have "log_bound (log rf) t"
    using assms log_bound_mono[of "log rf" "currentTerm rf" t] by (simp add: good_def raft_wf_def)
  then have g: "good (persist (rf\<lparr>currentTerm := t, votedFor := -1\<rparr>))"
    using assms by (intro good_persistI) (auto simp: good_def raft_wf_def)
  then show "good ((persist (rf\<lparr>currentTerm := t, votedFor := -1\<rparr>))\<lparr>status := 2\<rparr>)"
    by (intro good_frame[OF g]) (auto simp: good_def raft_wf_def)
  show "evolves rf ((persist (rf\<lparr>currentTerm := t, votedFor := -1\<rparr>))\<lparr>status := 2\<rparr>)"
    using assms(2) by (simp add: evolves_def)
qed

text \<open>A section that only moves indices and hands out messages.\<close>

definition bookkeeping :: "'c Raft \<Rightarrow> 'c Raft \<Rightarrow> bool" where
  "bookkeeping rf rf' \<longleftrightarrow> persister rf' = persister rf \<and> currentTerm rf' = currentTerm rf \<and>
     votedFor rf' = votedFor rf \<and> log rf' = log rf \<and> me rf' = me rf \<and> peers rf' = peers rf \<and>
     status rf' = status rf \<and> length (matchIndex rf') = length (matchIndex rf) \<and>
     length (nextIndex rf') = length (nextIndex rf) \<and> lastApplied rf \<le> lastApplied rf' \<and>
     (commitIndex rf' = commitIndex rf \<or> 0 \<le> commitIndex rf')"

lemma bookkeeping_good:
  assumes "good rf" "bookkeeping rf rf'"
  shows "good rf'" and "evolves rf rf'"
proof -
  show "good rf'"
    using assms by (intro good_frame[OF assms(1)]) (auto simp: bookkeeping_def good_def raft_wf_def)
  show "evolves rf rf'"
    using assms(2) by (simp add: bookkeeping_def evolves_def)
qed

lemma bookkeeping_trans: "bookkeeping a b \<Longrightarrow> bookkeeping b c \<Longrightarrow> bookkeeping a c"
  by (auto simp: bookkeeping_def)

lemma applyLog_bookkeeping: "applyLog rf = Inr rf' \<Longrightarrow> bookkeeping rf rf'"
  by (auto simp: bookkeeping_def dest!: applyLog_shape)

text \<open>The commit of lines 433--445, once the reply is known to be a success with entries.\<close>

lemma leaderReply_commit:
  assumes "leaderReply rf args peer reply = Inr (rf', down)" "aerTerm reply \<le> currentTerm rf"
    and "Success reply" "idx args peer = Inr a" "Entries a \<noteq> []"
  obtains rf2 c e where
    "rf2 = rf\<lparr>matchIndex := (matchIndex rf)[nat peer := PrevLogIndex a + len (Entries a)],
             nextIndex := (nextIndex rf)[nat peer := PrevLogIndex a + len (Entries a) + 1]\<rparr>"
    "0 \<le> peer" "peer < len (matchIndex rf)" "medianMatch rf2 = Inr c" "idx (log rf) c = Inr e" "\<not> down"
    "if currentTerm rf \<le> TermIdx e then applyLog (rf2\<lparr>commitIndex := c\<rparr>) = Inr rf' else rf' = rf2"
proof -
  let ?m = "PrevLogIndex a + len (Entries a)"
  have le: "\<not> currentTerm rf < aerTerm reply" using assms(2) by simp
  have up: "0 \<le> peer" "peer < len (matchIndex rf)" "peer < len (nextIndex rf)"
    using assms(1) le assms(3-5)
    by (simp_all add: leaderReply_def bindR_eq_Inr upd_eq_Inr Let_def) blast
  let ?rf2 = "rf\<lparr>matchIndex := (matchIndex rf)[nat peer := ?m], nextIndex := (nextIndex rf)[nat peer := ?m + 1]\<rparr>"
  have nth: "(matchIndex rf)[nat peer := ?m] ! nat peer = ?m" using up by simp
  have "bindR (medianMatch ?rf2) (\<lambda>c. bindR (idx (log rf) c) (\<lambda>e.
      if currentTerm rf \<le> TermIdx e then
        bindR (applyLog (?rf2\<lparr>commitIndex := c\<rparr>)) (\<lambda>rf. Inr (rf, False))
      else Inr (?rf2, False))) = Inr (rf', down)"
    using assms(1) le assms(3-5) up nth by (simp add: leaderReply_def Let_def)
  then show thesis
    using up by (auto simp: bindR_eq_Inr split: if_splits intro!: that[OF refl])
qed

lemma leaderReply_shape:
  assumes "leaderReply rf args peer reply = Inr (rf', down)" "aerTerm reply \<le> currentTerm rf"
  shows "\<not> down \<and> bookkeeping rf rf'"
proof -
  have le: "\<not> currentTerm rf < aerTerm reply" using assms(2) by simp
  consider (fail) "\<not> Success reply" | (heartbeat) a where "Success reply" "idx args peer = Inr a" "Entries a = []"
    | (entries) a where "Success reply" "idx args peer = Inr a" "Entries a \<noteq> []"
    using assms(1) le by (cases "Success reply") (auto simp: leaderReply_def bindR_eq_Inr)
  then show ?thesis
  proof cases
    case fail
    then show ?thesis
      using assms(1) le by (auto simp: leaderReply_def go_checked bookkeeping_def split: if_splits)
  next
    case heartbeat
    then show ?thesis using assms(1) le by (auto simp: leaderReply_def bookkeeping_def)
  next
    case entries
    from leaderReply_commit[OF assms this] obtain rf2 c e where
      rf2: "rf2 = rf\<lparr>matchIndex := (matchIndex rf)[nat peer := PrevLogIndex a + len (Entries a)],
             nextIndex := (nextIndex rf)[nat peer := PrevLogIndex a + len (Entries a) + 1]\<rparr>"
      and e: "idx (log rf) c = Inr e" "\<not> down"
      and r: "if currentTerm rf \<le> TermIdx e then applyLog (rf2\<lparr>commitIndex := c\<rparr>) = Inr rf' else rf' = rf2" .
    have "bookkeeping rf rf2" "bookkeeping rf (rf2\<lparr>commitIndex := c\<rparr>)"
      using e(1) by (simp_all add: rf2 bookkeeping_def idx_eq_Inr)
    with e(2) r show ?thesis
      by (auto split: if_splits dest: applyLog_bookkeeping bookkeeping_trans)
  qed
qed

lemma leaderReply_good:
  assumes "good rf" "leaderReply rf args peer reply = Inr (rf', down)"
  shows "good rf'" and "evolves rf rf'"
proof -
  have "good rf' \<and> evolves rf rf'"
  proof (cases "aerTerm reply > currentTerm rf")
    case True
    then show ?thesis
      using assms stepDown_good[OF assms(1) True] by (auto simp: leaderReply_def Let_def)
  next
    case False
    then show ?thesis
      using leaderReply_shape[OF assms(2)] bookkeeping_good[OF assms(1)] by simp
  qed
  then show "good rf'" and "evolves rf rf'" by auto
qed

lemma candidateStart_ok:
  assumes "good rf"
  shows "candidateStart rf =
    Inr (persist (rf\<lparr>currentTerm := currentTerm rf + 1, votedFor := me rf\<rparr>),
         \<lparr>rvTerm = currentTerm rf + 1, CandidateId = me rf, LastLogIndex = len (log rf) - 1,
          LastLogTerm = TermIdx (last (log rf))\<rparr>)"
  using good_log(2)[OF assms] by (simp add: candidateStart_def Let_def)

lemma candidateStart_good:
  assumes "good rf"
  shows "good (persist (rf\<lparr>currentTerm := currentTerm rf + 1, votedFor := me rf\<rparr>))"
    and "evolves rf (persist (rf\<lparr>currentTerm := currentTerm rf + 1, votedFor := me rf\<rparr>))"
proof -
  have "log_bound (log rf) (currentTerm rf + 1)"
    using assms log_bound_mono[of "log rf" "currentTerm rf" "currentTerm rf + 1"]
    by (simp add: good_def raft_wf_def)
  then show "good (persist (rf\<lparr>currentTerm := currentTerm rf + 1, votedFor := me rf\<rparr>))"
    using assms by (intro good_persistI) (auto simp: good_def raft_wf_def)
qed (simp add: evolves_def)

lemma candidateReply_good:
  assumes "good rf"
  shows "good (fst (candidateReply rf reply))" and "evolves rf (fst (candidateReply rf reply))"
  using assms stepDown_good[OF assms, of "rvrTerm reply"] by (auto simp: candidateReply_def Let_def)

lemma becomeLeader_good:
  assumes "good rf" "0 < currentTerm rf"
  shows "good (becomeLeader rf)" and "evolves rf (becomeLeader rf)"
proof -
  show "good (becomeLeader rf)"
    using assms by (intro good_frame[OF assms(1)]) (auto simp: becomeLeader_def good_def raft_wf_def)
qed (simp add: becomeLeader_def evolves_def)

lemma followerTimeout_good:
  assumes "good rf"
  shows "good (followerTimeout rf)" and "evolves rf (followerTimeout rf)"
proof -
  show "good (followerTimeout rf)"
    using assms by (intro good_frame[OF assms]) (auto simp: followerTimeout_def good_def raft_wf_def)
qed (simp add: followerTimeout_def evolves_def)

text \<open>A restart finds the term and the vote; its log is the one written last.\<close>

lemma recovered_good:
  assumes "good rf"
  shows "good (recovered rf)" and "evolves rf (recovered rf)"
proof -
  have d: "currentTerm (recovered rf) = currentTerm rf" "votedFor (recovered rf) = votedFor rf"
    using assms by (auto simp: good_def durable_vote_def)
  have f: "me (recovered rf) = me rf" "peers (recovered rf) = peers rf"
    by (simp_all add: recovered_def Make_fields)
  show "good (recovered rf)"
    using assms d f by (simp add: good_def raft_wf_def durable_vote_def recovered_recovered)
      (simp add: recovered_def Make_fields)
  show "evolves rf (recovered rf)" using d f by (simp add: evolves_def)
qed

text \<open>The channel operations of the routines and of \<open>Kill\<close> touch nothing of the above.\<close>

lemma channels_good:
  assumes "good rf"
  shows "good (rf\<lparr>toFollower := a\<rparr>)" "good (rf\<lparr>resetElectionTimer := a\<rparr>)"
    "good (rf\<lparr>terminateCh := a\<rparr>)" "good (rf\<lparr>applyCh := ch\<rparr>)" "good (Kill rf)"
proof -
  have k: "good rf'" if "persister rf' = persister rf" "currentTerm rf' = currentTerm rf"
    "votedFor rf' = votedFor rf" "log rf' = log rf" "me rf' = me rf" "peers rf' = peers rf"
    "commitIndex rf' = commitIndex rf" "lastApplied rf' = lastApplied rf" "status rf' = status rf"
    "nextIndex rf' = nextIndex rf" "matchIndex rf' = matchIndex rf" for rf'
    using assms that by (intro good_frame[OF assms]) (auto simp: good_def raft_wf_def)
  show "good (rf\<lparr>toFollower := a\<rparr>)" "good (rf\<lparr>resetElectionTimer := a\<rparr>)"
    "good (rf\<lparr>terminateCh := a\<rparr>)" "good (rf\<lparr>applyCh := ch\<rparr>)" "good (Kill rf)"
    by (rule k; simp add: Kill_def)+
qed

lemma channels_evolve:
  "evolves rf (rf\<lparr>toFollower := a\<rparr>)" "evolves rf (rf\<lparr>resetElectionTimer := a\<rparr>)"
  "evolves rf (rf\<lparr>terminateCh := a\<rparr>)" "evolves rf (rf\<lparr>applyCh := ch\<rparr>)" "evolves rf (Kill rf)"
  by (simp_all add: evolves_def Kill_def)

lemmas section_good = RequestVote_good(1) AppendEntries_good(1) Start_good(1) leaderInit_good(1)
  leaderReply_good(1) candidateStart_good(1) candidateReply_good(1) becomeLeader_good(1)
  followerTimeout_good(1) recovered_good(1) channels_good

lemmas section_evolves = RequestVote_good(2) AppendEntries_good(2) Start_good(2) leaderInit_good(2)
  leaderReply_good(2) candidateStart_good(2) candidateReply_good(2) becomeLeader_good(2)
  followerTimeout_good(2) recovered_good(2) channels_evolve

end
