(* ===== verification/Raft_Cluster.thy ===== *)
theory Raft_Cluster
  imports Raft_Peer
begin

text \<open>
  A cluster of Raft peers. \<open>Raft.thy\<close> has the critical sections; here they are put together the way
  \<open>Make\<close>'s goroutine and the three routines do (\<open>raft.go\<close> lines 358--557 and 599--618), and the
  peers are connected by a network that delays, reorders and loses requests and replies but never
  duplicates them, which is what \<open>labrpc\<close> offers: every \<open>Call\<close> runs the handler at most once.

  A routine waits in a \<open>select\<close> with the mutex released; \<open>pc\<close> says in which one, with the locals
  that are alive there. When several channels are ready Go picks one at random, so each ready
  channel is an event of its own and \<open>exec\<close> gives the effect of one event. RPC handlers run in
  goroutines of the RPC layer and may run at any of these points.

  A routine makes fresh channels in every round, so replies to an earlier round never reach it: a
  vote reply belongs to the current round when the terms agree (every round has a term of its own),
  an AppendEntries reply when the round numbers agree.

  Three history variables record what happened and influence nothing: \<open>grants\<close> (voter, term,
  candidate) for every vote given, \<open>counted\<close> (candidate, term, voter) for every vote a candidate
  added to its tally, and \<open>wins\<close> (term, candidate) for every tally that passed half of the peers.
\<close>

section \<open>The model\<close>

datatype 'c pc =
    AtFollower nat \<comment> \<open>\<open>currentTimerId\<close>\<close>
  | AtCandidate RequestVoteArgs int \<comment> \<open>\<open>args\<close>, \<open>grantN\<close>\<close>
  | AtWon RequestVoteArgs \<comment> \<open>between lines 518 and 520\<close>
  | AtLeaderLoop \<comment> \<open>line 380\<close>
  | AtLeader nat "'c AppendEntriesArgs list" \<comment> \<open>round, \<open>args\<close>\<close>
  | Stopped

record 'c Proc =
  rf :: "'c Raft"
  pc :: "'c pc"
  rounds :: nat

record 'c Cluster =
  procs :: "'c Proc list"
  voteReqs :: "(nat \<times> nat \<times> RequestVoteArgs) list" \<comment> \<open>from, to\<close>
  voteReps :: "(nat \<times> nat \<times> RequestVoteArgs \<times> RequestVoteReply) list" \<comment> \<open>caller, server\<close>
  appReqs :: "(nat \<times> nat \<times> nat \<times> 'c AppendEntriesArgs) list" \<comment> \<open>from, to, round\<close>
  appReps :: "(nat \<times> nat \<times> nat \<times> AppendEntriesReply) list" \<comment> \<open>caller, server, round\<close>
  grants :: "(nat \<times> int \<times> nat) set"
  counted :: "(nat \<times> int \<times> nat) set"
  wins :: "(int \<times> nat) set"

datatype 'c event =
    FollowerTimer nat nat | FollowerReset nat
  | CandidateTimer nat | Demote nat | Terminate nat | Elected nat
  | LeaderRound nat | LeaderTimer nat
  | VoteReq nat | VoteRep nat | AppReq nat | AppRep nat
  | LoseVoteReq nat | LoseVoteRep nat | LoseAppReq nat | LoseAppRep nat
  | ClientStart nat 'c | KillPeer nat | Restart nat | ApplyOne nat nat

definition setProc :: "nat \<Rightarrow> 'c Raft \<Rightarrow> 'c pc \<Rightarrow> 'c Cluster \<Rightarrow> 'c Cluster" where
  "setProc i r p s = s\<lparr>procs := (procs s)[i := (procs s ! i)\<lparr>rf := r, pc := p\<rparr>]\<rparr>"

text \<open>Lines 461--490: one iteration of the candidate's loop, up to its \<open>select\<close>.\<close>

definition startElection :: "nat \<Rightarrow> 'c Raft \<Rightarrow> 'c Cluster \<Rightarrow> 'c Cluster res" where
  "startElection i r s =
     bindR (candidateStart r) (\<lambda>(r, args).
       let s = setProc i r (AtCandidate args 1) s in
       Inr (s\<lparr>voteReqs := voteReqs s @ map (\<lambda>j. (i, j, args)) (filter (\<lambda>j. j \<noteq> i) [0..<peers r]),
              grants := insert (i, rvTerm args, i) (grants s)\<rparr>))"

text \<open>Lines 602--617: a routine has returned with the mutex held; the next one starts.\<close>

definition enterRoutine :: "nat \<Rightarrow> 'c Raft \<Rightarrow> 'c Cluster \<Rightarrow> 'c Cluster res" where
  "enterRoutine i r s =
     (if status r = 0 then bindR (leaderInit r) (\<lambda>r. Inr (setProc i r AtLeaderLoop s))
      else if status r = 1 then startElection i r s
      else Inr (setProc i r (AtFollower 1) s))"

text \<open>
  The election timer of the follower (lines 544--550): only the timer started last counts. And
  lines 551--553: a reset starts a new timer.
\<close>

definition followerTimer :: "nat \<Rightarrow> nat \<Rightarrow> 'c Cluster \<Rightarrow> 'c Cluster res option" where
  "followerTimer i timerId s =
     (case pc (procs s ! i) of
        AtFollower cur \<Rightarrow>
          if timerId = cur then Some (enterRoutine i (followerTimeout (rf (procs s ! i))) s)
          else if timerId < cur then Some (Inr s) else None
      | _ \<Rightarrow> None)"

definition followerReset :: "nat \<Rightarrow> 'c Cluster \<Rightarrow> 'c Cluster res option" where
  "followerReset i s =
     (let r = rf (procs s ! i) in
      case pc (procs s ! i) of
        AtFollower cur \<Rightarrow>
          if resetElectionTimer r > 0
          then Some (Inr (setProc i (r\<lparr>resetElectionTimer := resetElectionTimer r - 1\<rparr>) (AtFollower (cur + 1)) s))
          else None
      | _ \<Rightarrow> None)"

definition candidateTimer :: "nat \<Rightarrow> 'c Cluster \<Rightarrow> 'c Cluster res option" where
  "candidateTimer i s =
     (case pc (procs s ! i) of
        AtCandidate args grantN \<Rightarrow> Some (startElection i (rf (procs s ! i)) s)
      | _ \<Rightarrow> None)"

text \<open>\<open>case <-rf.toFollower\<close> of lines 414--418 and 496--499.\<close>

definition demote :: "nat \<Rightarrow> 'c Cluster \<Rightarrow> 'c Cluster res option" where
  "demote i s =
     (let r = rf (procs s ! i); r' = r\<lparr>toFollower := toFollower r - 1\<rparr> in
      if toFollower r = 0 then None
      else case pc (procs s ! i) of
        AtCandidate _ _ \<Rightarrow> Some (enterRoutine i r' s)
      | AtLeader _ _ \<Rightarrow> Some (enterRoutine i r' s)
      | _ \<Rightarrow> None)"

text \<open>\<open>case <-rf.terminateCh\<close> of lines 411--413 and 494--495; a follower does not listen to it.\<close>

definition terminate :: "nat \<Rightarrow> 'c Cluster \<Rightarrow> 'c Cluster res option" where
  "terminate i s =
     (let r = rf (procs s ! i); r' = r\<lparr>terminateCh := terminateCh r - 1\<rparr> in
      if terminateCh r = 0 then None
      else case pc (procs s ! i) of
        AtCandidate _ _ \<Rightarrow> Some (Inr (setProc i r' Stopped s))
      | AtLeader _ _ \<Rightarrow> Some (Inr (setProc i r' Stopped s))
      | _ \<Rightarrow> None)"

text \<open>Lines 520--522 and the start of the leader's routine.\<close>

definition elected :: "nat \<Rightarrow> 'c Cluster \<Rightarrow> 'c Cluster res option" where
  "elected i s =
     (case pc (procs s ! i) of
        AtWon _ \<Rightarrow> Some (enterRoutine i (becomeLeader (rf (procs s ! i))) s)
      | _ \<Rightarrow> None)"

text \<open>Lines 380--407: a round of AppendEntries to every other peer.\<close>

definition sendRound :: "nat \<Rightarrow> 'c Cluster \<Rightarrow> 'c Cluster res option" where
  "sendRound i s =
     (let p = procs s ! i in
      case pc p of
        AtLeaderLoop \<Rightarrow> Some (bindR (leaderRound (rf p)) (\<lambda>args.
          let k = rounds p + 1 in
          Inr (s\<lparr>procs := (procs s)[i := p\<lparr>pc := AtLeader k args, rounds := k\<rparr>],
                 appReqs := appReqs s @
                   map (\<lambda>j. (i, j, k, args ! j)) (filter (\<lambda>j. j \<noteq> i) [0..<peers (rf p)])\<rparr>)))
      | _ \<Rightarrow> None)"

definition leaderTimer :: "nat \<Rightarrow> 'c Cluster \<Rightarrow> 'c Cluster res option" where
  "leaderTimer i s =
     (case pc (procs s ! i) of
        AtLeader _ _ \<Rightarrow> Some (Inr (setProc i (rf (procs s ! i)) AtLeaderLoop s))
      | _ \<Rightarrow> None)"

section \<open>Messages\<close>

definition deliverVoteReq :: "nat \<Rightarrow> 'c Cluster \<Rightarrow> 'c Cluster res option" where
  "deliverVoteReq k s =
     (if k < length (voteReqs s) then
        (let (i, j, args) = voteReqs s ! k; p = procs s ! j in
         Some (bindR (RequestVote (rf p) args) (\<lambda>(r, reply).
           let s = setProc j r (pc p) s in
           Inr (s\<lparr>voteReqs := removeAt k (voteReqs s),
                  voteReps := voteReps s @ [(i, j, args, reply)],
                  grants := (if VoteGranted reply then insert (j, rvTerm args, i) (grants s) else grants s)\<rparr>))))
      else None)"

text \<open>Lines 503--525. A reply to an earlier round finds nobody listening.\<close>

definition deliverVoteRep :: "nat \<Rightarrow> 'c Cluster \<Rightarrow> 'c Cluster res option" where
  "deliverVoteRep k s =
     (if k < length (voteReps s) then
        (let (i, j, args, reply) = voteReps s ! k;
             p = procs s ! i;
             s = s\<lparr>voteReps := removeAt k (voteReps s)\<rparr> in
         case pc p of
           AtCandidate args' grantN \<Rightarrow>
             if rvTerm args' = rvTerm args then
               let (r, down) = candidateReply (rf p) reply in
               if down then Some (enterRoutine i r s)
               else
                 let (grantN', won) = countVote r reply grantN in
                 Some (Inr ((setProc i r (if won then AtWon args' else AtCandidate args' grantN') s)
                   \<lparr>counted := (if VoteGranted reply then insert (i, rvTerm args, j) (counted s) else counted s),
                    wins := (if won then insert (rvTerm args, i) (wins s) else wins s)\<rparr>))
             else Some (Inr s)
         | _ \<Rightarrow> Some (Inr s))
      else None)"

definition deliverAppReq :: "nat \<Rightarrow> 'c Cluster \<Rightarrow> 'c Cluster res option" where
  "deliverAppReq k s =
     (if k < length (appReqs s) then
        (let (i, j, rd, args) = appReqs s ! k; p = procs s ! j in
         Some (bindR (AppendEntries (rf p) args) (\<lambda>(r, reply).
           let s = setProc j r (pc p) s in
           Inr (s\<lparr>appReqs := removeAt k (appReqs s), appReps := appReps s @ [(i, j, rd, reply)]\<rparr>))))
      else None)"

text \<open>Lines 419--452.\<close>

definition deliverAppRep :: "nat \<Rightarrow> 'c Cluster \<Rightarrow> 'c Cluster res option" where
  "deliverAppRep k s =
     (if k < length (appReps s) then
        (let (i, j, rd, reply) = appReps s ! k;
             p = procs s ! i;
             s = s\<lparr>appReps := removeAt k (appReps s)\<rparr> in
         case pc p of
           AtLeader rd' args \<Rightarrow>
             if rd' = rd then
               Some (bindR (leaderReply (rf p) args (int j) reply) (\<lambda>(r, down).
                 if down then enterRoutine i r s else Inr (setProc i r (pc p) s)))
             else Some (Inr s)
         | _ \<Rightarrow> Some (Inr s))
      else None)"

section \<open>The environment\<close>

definition clientStart :: "nat \<Rightarrow> 'c \<Rightarrow> 'c Cluster \<Rightarrow> 'c Cluster res option" where
  "clientStart i c s =
     Some (bindR (Start (rf (procs s ! i)) c) (\<lambda>(r, _). Inr (setProc i r (pc (procs s ! i)) s)))"

definition killPeer :: "nat \<Rightarrow> 'c Cluster \<Rightarrow> 'c Cluster res option" where
  "killPeer i s = Some (Inr (setProc i (Kill (rf (procs s ! i))) (pc (procs s ! i)) s))"

text \<open>
  A crash and a restart: the successor is made from a copy of the persister, starts as a follower,
  and knows nothing of the rounds of its predecessor.
\<close>

definition restart :: "nat \<Rightarrow> 'c Cluster \<Rightarrow> 'c Cluster res option" where
  "restart i s =
     (let r = rf (procs s ! i) in
      Some (Inr (setProc i (Make (peers r) (me r) (Copy (persister r))) (AtFollower 1) s)))"

text \<open>One of the goroutines of \<open>applyLog\<close> (lines 194--198) hands its next message to the service.\<close>

definition applyOne :: "nat \<Rightarrow> nat \<Rightarrow> 'c Cluster \<Rightarrow> 'c Cluster res option" where
  "applyOne i g s =
     (let r = rf (procs s ! i) in
      if g < length (applyCh r) \<and> applyCh r ! g \<noteq> []
      then Some (Inr (setProc i (r\<lparr>applyCh := (applyCh r)[g := tl (applyCh r ! g)]\<rparr>) (pc (procs s ! i)) s))
      else None)"

definition lose :: "nat \<Rightarrow> 'a list \<Rightarrow> 'a list option" where
  "lose k xs = (if k < length xs then Some (removeAt k xs) else None)"

fun exec :: "'c event \<Rightarrow> 'c Cluster \<Rightarrow> 'c Cluster res option" where
  "exec (VoteReq k) s = deliverVoteReq k s"
| "exec (VoteRep k) s = deliverVoteRep k s"
| "exec (AppReq k) s = deliverAppReq k s"
| "exec (AppRep k) s = deliverAppRep k s"
| "exec (LoseVoteReq k) s = map_option (\<lambda>ms. Inr (s\<lparr>voteReqs := ms\<rparr>)) (lose k (voteReqs s))"
| "exec (LoseVoteRep k) s = map_option (\<lambda>ms. Inr (s\<lparr>voteReps := ms\<rparr>)) (lose k (voteReps s))"
| "exec (LoseAppReq k) s = map_option (\<lambda>ms. Inr (s\<lparr>appReqs := ms\<rparr>)) (lose k (appReqs s))"
| "exec (LoseAppRep k) s = map_option (\<lambda>ms. Inr (s\<lparr>appReps := ms\<rparr>)) (lose k (appReps s))"
| "exec (FollowerTimer i t) s = (if i < length (procs s) then followerTimer i t s else None)"
| "exec (FollowerReset i) s = (if i < length (procs s) then followerReset i s else None)"
| "exec (CandidateTimer i) s = (if i < length (procs s) then candidateTimer i s else None)"
| "exec (Demote i) s = (if i < length (procs s) then demote i s else None)"
| "exec (Terminate i) s = (if i < length (procs s) then terminate i s else None)"
| "exec (Elected i) s = (if i < length (procs s) then elected i s else None)"
| "exec (LeaderRound i) s = (if i < length (procs s) then sendRound i s else None)"
| "exec (LeaderTimer i) s = (if i < length (procs s) then leaderTimer i s else None)"
| "exec (ClientStart i c) s = (if i < length (procs s) then clientStart i c s else None)"
| "exec (KillPeer i) s = (if i < length (procs s) then killPeer i s else None)"
| "exec (Restart i) s = (if i < length (procs s) then restart i s else None)"
| "exec (ApplyOne i g) s = (if i < length (procs s) then applyOne i g s else None)"

definition initCluster :: "nat \<Rightarrow> 'c Cluster" where
  "initCluster n =
     \<lparr>procs = map (\<lambda>i. \<lparr>rf = Make n (int i) MakePersister, pc = AtFollower 1, rounds = 0\<rparr>) [0..<n],
      voteReqs = [], voteReps = [], appReqs = [], appReps = [], grants = {}, counted = {}, wins = {}\<rparr>"

definition clusterStep :: "'c Cluster \<Rightarrow> 'c Cluster \<Rightarrow> bool" where
  "clusterStep s t \<longleftrightarrow> (\<exists>e. exec e s = Some (Inr t))"

abbreviation clusterReach :: "nat \<Rightarrow> 'c Cluster \<Rightarrow> bool" where
  "clusterReach n \<equiv> reach (\<lambda>s. s = initCluster n) clusterStep"

text \<open>Running a list of events, for concrete executions.\<close>

fun runEvents :: "'c event list \<Rightarrow> 'c Cluster \<Rightarrow> 'c Cluster res option" where
  "runEvents [] s = Some (Inr s)"
| "runEvents (e # es) s =
     (case exec e s of Some (Inr t) \<Rightarrow> runEvents es t | r \<Rightarrow> r)"

end
