(* ===== verification/Raft_Election.thy ===== *)
theory Raft_Election
  imports Raft_Cluster
begin

text \<open>
  The invariant of the cluster: every peer stays well formed, every message in flight was built
  from a well-formed peer, a vote once cast stays the voter's vote of that term, and a candidate's
  tally is the number of distinct peers that voted for it. From it: two tallies of the same term
  that pass half of the peers belong to the same candidate, and no RPC handler ever panics.
\<close>

section \<open>The invariant\<close>

abbreviation termOf :: "'c Cluster \<Rightarrow> nat \<Rightarrow> int" where
  "termOf s i \<equiv> currentTerm (rf (procs s ! i))"

abbreviation voteOf :: "'c Cluster \<Rightarrow> nat \<Rightarrow> int" where
  "voteOf s i \<equiv> votedFor (rf (procs s ! i))"

fun qkey :: "nat \<times> nat \<times> RequestVoteArgs \<Rightarrow> nat \<times> int \<times> nat" where
  "qkey (i, j, args) = (i, rvTerm args, j)"

fun rkey :: "nat \<times> nat \<times> RequestVoteArgs \<times> RequestVoteReply \<Rightarrow> nat \<times> int \<times> nat" where
  "rkey (i, j, args, reply) = (i, rvTerm args, j)"

definition tally :: "'c Cluster \<Rightarrow> nat \<Rightarrow> int \<Rightarrow> nat set" where
  "tally s i t = {v. (i, t, v) \<in> counted s}"

fun pc_ok :: "'c Cluster \<Rightarrow> nat \<Rightarrow> int \<Rightarrow> 'c pc \<Rightarrow> bool" where
  "pc_ok s i t (AtCandidate args g) \<longleftrightarrow>
     0 < rvTerm args \<and> rvTerm args \<le> t \<and> (i, rvTerm args, i) \<in> grants s \<and>
     g = 1 + int (card (tally s i (rvTerm args)))"
| "pc_ok s i t (AtWon args) \<longleftrightarrow> 0 < t"
| "pc_ok s i t AtLeaderLoop \<longleftrightarrow> 0 < t"
| "pc_ok s i t (AtLeader rd args) \<longleftrightarrow> 0 < t"
| "pc_ok s i t (AtFollower k) \<longleftrightarrow> True"
| "pc_ok s i t Stopped \<longleftrightarrow> True"

definition procs_ok :: "nat \<Rightarrow> 'c Cluster \<Rightarrow> bool" where
  "procs_ok n s \<longleftrightarrow> length (procs s) = n \<and>
     (\<forall>i < n. good (rf (procs s ! i)) \<and> me (rf (procs s ! i)) = int i \<and> peers (rf (procs s ! i)) = n \<and>
       pc_ok s i (termOf s i) (pc (procs s ! i)))"

definition request_ok :: "nat \<Rightarrow> 'c Cluster \<Rightarrow> nat \<Rightarrow> nat \<Rightarrow> RequestVoteArgs \<Rightarrow> bool" where
  "request_ok n s i j args \<longleftrightarrow> i < n \<and> j < n \<and> i \<noteq> j \<and> CandidateId args = int i \<and> rvTerm args \<le> termOf s i"

definition msgs_ok :: "nat \<Rightarrow> 'c Cluster \<Rightarrow> bool" where
  "msgs_ok n s \<longleftrightarrow>
     (\<forall>(i, j, args) \<in> set (voteReqs s). request_ok n s i j args) \<and>
     (\<forall>(i, j, args, reply) \<in> set (voteReps s). request_ok n s i j args \<and>
        (VoteGranted reply \<longrightarrow> (j, rvTerm args, i) \<in> grants s)) \<and>
     (\<forall>(i, j, rd, args) \<in> set (appReqs s). i < n \<and> j < n \<and> ae_wf args) \<and>
     (\<forall>(i, j, rd, reply) \<in> set (appReps s). i < n \<and> j < n)"

definition grants_ok :: "nat \<Rightarrow> 'c Cluster \<Rightarrow> bool" where
  "grants_ok n s \<longleftrightarrow>
     (\<forall>v t c. (v, t, c) \<in> grants s \<longrightarrow> v < n \<and> c < n \<and> t \<le> termOf s v \<and>
        (t = termOf s v \<longrightarrow> voteOf s v = int c)) \<and>
     (\<forall>v t c c'. (v, t, c) \<in> grants s \<and> (v, t, c') \<in> grants s \<longrightarrow> c = c')"

definition tally_ok :: "nat \<Rightarrow> 'c Cluster \<Rightarrow> bool" where
  "tally_ok n s \<longleftrightarrow>
     distinct (map qkey (voteReqs s) @ map rkey (voteReps s)) \<and>
     (set (map qkey (voteReqs s)) \<union> set (map rkey (voteReps s))) \<inter> counted s = {} \<and>
     (\<forall>c t v. (c, t, v) \<in> counted s \<longrightarrow> c < n \<and> v < n \<and> v \<noteq> c \<and> t \<le> termOf s c \<and> (v, t, c) \<in> grants s)"

definition wins_ok :: "nat \<Rightarrow> 'c Cluster \<Rightarrow> bool" where
  "wins_ok n s \<longleftrightarrow>
     (\<forall>t c. (t, c) \<in> wins s \<longrightarrow>
        (\<exists>V. V \<subseteq> {..<n} \<and> n div 2 < card V \<and> (\<forall>v \<in> V. (v, t, c) \<in> grants s)))"

definition cinv :: "nat \<Rightarrow> 'c Cluster \<Rightarrow> bool" where
  "cinv n s \<longleftrightarrow> procs_ok n s \<and> msgs_ok n s \<and> grants_ok n s \<and> tally_ok n s \<and> wins_ok n s"

lemmas cinv_defs = cinv_def procs_ok_def msgs_ok_def grants_ok_def tally_ok_def wins_ok_def request_ok_def

lemma cinv_init: "cinv n (initCluster n)"
  by (auto simp: cinv_defs initCluster_def Make_fields good_def Make_fresh_wf Make_fresh_durable)

lemma cinvD:
  assumes "cinv n s" "i < n"
  shows "length (procs s) = n" "good (rf (procs s ! i))" "me (rf (procs s ! i)) = int i"
    "peers (rf (procs s ! i)) = n" "pc_ok s i (termOf s i) (pc (procs s ! i))"
  using assms by (auto simp: cinv_def procs_ok_def)

section \<open>Steps that keep the votes\<close>

lemma setProc_simps [simp]:
  "voteReqs (setProc i r p s) = voteReqs s" "voteReps (setProc i r p s) = voteReps s"
  "appReqs (setProc i r p s) = appReqs s" "appReps (setProc i r p s) = appReps s"
  "grants (setProc i r p s) = grants s" "counted (setProc i r p s) = counted s"
  "wins (setProc i r p s) = wins s" "length (procs (setProc i r p s)) = length (procs s)"
  by (simp_all add: setProc_def)

lemma setProc_nth:
  "i < length (procs s) \<Longrightarrow> procs (setProc i r p s) ! j = (if j = i then (procs s ! i)\<lparr>rf := r, pc := p\<rparr> else procs s ! j)"
  by (simp add: setProc_def nth_list_update)

lemma pc_ok_mono: "pc_ok s i t p \<Longrightarrow> t \<le> t' \<Longrightarrow> pc_ok s i t' p"
  by (cases p) auto

lemma pc_ok_cong:
  "grants s = grants s' \<Longrightarrow> counted s = counted s' \<Longrightarrow> pc_ok s i t p = pc_ok s' i t p"
  by (cases p) (auto simp: tally_def)

lemma pc_ok_grow:
  "pc_ok s i t p \<Longrightarrow> grants s \<subseteq> grants s' \<Longrightarrow> tally s i = tally s' i \<Longrightarrow> pc_ok s' i t p"
  by (cases p) auto

lemma request_ok_mono:
  "request_ok n s i j args \<Longrightarrow> termOf s i \<le> termOf s' i \<Longrightarrow> request_ok n s' i j args"
  by (auto simp: request_ok_def)

lemma tally_simps [simp]:
  "tally (s\<lparr>voteReqs := a\<rparr>) = tally s" "tally (s\<lparr>voteReps := b\<rparr>) = tally s"
  "tally (s\<lparr>appReqs := c\<rparr>) = tally s" "tally (s\<lparr>appReps := d\<rparr>) = tally s"
  "tally (setProc i r p s) = tally s"
  by (simp_all add: tally_def fun_eq_iff)

text \<open>One peer moves by a critical section that keeps \<open>good\<close> and \<open>evolves\<close>.\<close>

lemma cinv_setProc:
  assumes inv: "cinv n s" and i: "i < n" and g: "good r" and ev: "evolves (rf (procs s ! i)) r"
    and p: "pc_ok s i (currentTerm r) p"
  shows "cinv n (setProc i r p s)"
proof -
  let ?s = "setProc i r p s"
  have l: "length (procs s) = n" using inv by (simp add: cinv_def procs_ok_def)
  have nth: "procs ?s ! j = (if j = i then (procs s ! i)\<lparr>rf := r, pc := p\<rparr> else procs s ! j)" for j
    using setProc_nth[of i s r p j] i l by simp
  have t: "termOf s j \<le> termOf ?s j" for j
    using ev by (auto simp: nth evolves_def)
  have "procs_ok n ?s"
    using inv g ev p l pc_ok_cong[of s ?s]
    by (auto simp: cinv_def procs_ok_def nth evolves_def)
  moreover have "msgs_ok n ?s"
    using inv t by (fastforce simp: cinv_def msgs_ok_def request_ok_def intro: order_trans)
  moreover have "grants_ok n ?s"
  proof -
    have "t' \<le> termOf ?s v \<and> (t' = termOf ?s v \<longrightarrow> voteOf ?s v = int c)" if "(v, t', c) \<in> grants s" for v t' c
    proof -
      have old: "t' \<le> termOf s v" "t' = termOf s v \<longrightarrow> voteOf s v = int c"
        using inv that by (auto simp: cinv_def grants_ok_def)
      with t[of v] have "t' \<le> termOf ?s v" by simp
      moreover have "voteOf ?s v = int c" if eq: "t' = termOf ?s v"
      proof -
        have "termOf s v = termOf ?s v" "voteOf s v = int c" using old t[of v] eq by auto
        then show ?thesis using ev by (auto simp: nth evolves_def split: if_splits)
      qed
      ultimately show ?thesis by blast
    qed
    then show ?thesis using inv by (simp add: cinv_def grants_ok_def)
  qed
  moreover have "tally_ok n ?s"
    using inv t by (fastforce simp: cinv_def tally_ok_def intro: order_trans)
  moreover have "wins_ok n ?s"
    using inv by (simp add: cinv_def wins_ok_def)
  ultimately show ?thesis by (simp add: cinv_def)
qed

text \<open>
  Votes in flight only disappear (delivered to nobody, or lost); AppendEntries messages come and go.
\<close>

lemma cinv_messages:
  assumes inv: "cinv n s"
    and same: "length (procs s') = length (procs s)" "\<And>j. rf (procs s' ! j) = rf (procs s ! j)"
      "\<And>j. pc (procs s' ! j) = pc (procs s ! j)"
      "grants s' = grants s" "counted s' = counted s" "wins s' = wins s"
    and q: "set (voteReqs s') \<subseteq> set (voteReqs s)" and r: "set (voteReps s') \<subseteq> set (voteReps s)"
    and d: "distinct (map qkey (voteReqs s') @ map rkey (voteReps s'))"
    and aq: "\<And>i j rd args. (i, j, rd, args) \<in> set (appReqs s') \<Longrightarrow> (i, j, rd, args) \<in> set (appReqs s) \<or> i < n \<and> j < n \<and> ae_wf args"
    and ar: "\<And>i j rd reply. (i, j, rd, reply) \<in> set (appReps s') \<Longrightarrow> (i, j, rd, reply) \<in> set (appReps s) \<or> i < n \<and> j < n"
  shows "cinv n s'"
proof -
  have "procs_ok n s'"
    using inv pc_ok_cong[of s s'] by (simp add: cinv_def procs_ok_def same)
  moreover have "msgs_ok n s'"
  proof -
    have m: "msgs_ok n s" using inv by (simp add: cinv_def)
    have ok: "request_ok n s' = request_ok n s" by (intro ext) (simp add: request_ok_def same)
    show ?thesis
      unfolding msgs_ok_def ok same
    proof (intro conjI ballI; clarify)
      show "request_ok n s i j args" if "(i, j, args) \<in> set (voteReqs s')" for i j args
        using m q that by (auto simp: msgs_ok_def)
      show "request_ok n s i j args \<and> (VoteGranted reply \<longrightarrow> (j, rvTerm args, i) \<in> grants s)"
        if "(i, j, args, reply) \<in> set (voteReps s')" for i j args reply
        using m r that unfolding msgs_ok_def by auto
      show "i < n \<and> j < n \<and> ae_wf args" if "(i, j, rd, args) \<in> set (appReqs s')" for i j rd args
        using m aq[OF that] unfolding msgs_ok_def by auto
      show "i < n \<and> j < n" if "(i, j, rd, reply) \<in> set (appReps s')" for i j rd reply
        using m ar[OF that] unfolding msgs_ok_def by auto
    qed
  qed
  moreover have "grants_ok n s'" "wins_ok n s'"
    using inv by (simp_all add: cinv_def grants_ok_def wins_ok_def same)
  moreover have "tally_ok n s'"
  proof -
    have "set (map qkey (voteReqs s')) \<subseteq> set (map qkey (voteReqs s))"
      "set (map rkey (voteReps s')) \<subseteq> set (map rkey (voteReps s))"
      using q r by auto
    then show ?thesis using inv d unfolding cinv_def tally_ok_def same by blast
  qed
  ultimately show ?thesis by (simp add: cinv_def)
qed

lemma cinv_distinct: "cinv n s \<Longrightarrow> distinct (map qkey (voteReqs s) @ map rkey (voteReps s))"
  by (simp add: cinv_def tally_ok_def)

lemma distinct_keys_loss:
  assumes "distinct (map f xs @ map g ys)"
  shows "distinct (map f (removeAt k xs) @ map g ys)" "distinct (map f xs @ map g (removeAt k ys))"
  using assms by (auto simp: map_removeAt distinct_removeAt dest!: set_removeAt)

lemma cinv_loseVoteReq:
  assumes "cinv n s"
  shows "cinv n (s\<lparr>voteReqs := removeAt k (voteReqs s)\<rparr>)"
  using distinct_keys_loss(1)[OF cinv_distinct[OF assms], of k]
  by (intro cinv_messages[OF assms]) (auto dest: set_removeAt)

lemma cinv_loseVoteRep:
  assumes "cinv n s"
  shows "cinv n (s\<lparr>voteReps := removeAt k (voteReps s)\<rparr>)"
  using distinct_keys_loss(2)[OF cinv_distinct[OF assms], of k]
  by (intro cinv_messages[OF assms]) (auto dest: set_removeAt)

lemma cinv_appMsgs:
  assumes "cinv n s"
    and "\<And>i j rd args. (i, j, rd, args) \<in> set a \<Longrightarrow> (i, j, rd, args) \<in> set (appReqs s) \<or> i < n \<and> j < n \<and> ae_wf args"
    and "\<And>i j rd reply. (i, j, rd, reply) \<in> set b \<Longrightarrow> (i, j, rd, reply) \<in> set (appReps s) \<or> i < n \<and> j < n"
  shows "cinv n (s\<lparr>appReqs := a, appReps := b\<rparr>)"
  using cinv_distinct[OF assms(1)] assms(2,3) by (intro cinv_messages[OF assms(1)]) simp_all

lemma cinv_rounds:
  assumes "cinv n s" "i < n"
  shows "cinv n (s\<lparr>procs := (procs s)[i := (procs s ! i)\<lparr>rounds := k\<rparr>]\<rparr>)"
  using cinv_distinct[OF assms(1)] cinvD(1)[OF assms] assms(2)
  by (intro cinv_messages[OF assms(1)]) (simp_all add: nth_list_update)

section \<open>Steps that create, cast and count votes\<close>

lemma cinv_startElection:
  assumes inv: "cinv n s" and i: "i < n" and g: "good r" and ev: "evolves (rf (procs s ! i)) r"
    and st: "startElection i r s = Inr s'"
  shows "cinv n s'"
proof -
  let ?t = "currentTerm r + 1" and ?r = "persist (r\<lparr>currentTerm := currentTerm r + 1, votedFor := me r\<rparr>)"
  let ?args = "\<lparr>rvTerm = ?t, CandidateId = me r, LastLogIndex = len (log r) - 1,
                LastLogTerm = TermIdx (last (log r))\<rparr>"
  let ?new = "map (\<lambda>j. (i, j, ?args)) (filter (\<lambda>j. j \<noteq> i) [0..<n])"
  note [simp] = cinvD[OF inv i]
  have me: "me r = int i" "peers r = n" using ev by (simp_all add: evolves_def)
  have t: "termOf s i < ?t" and t0: "0 < ?t"
    using ev g by (auto simp: evolves_def good_def raft_wf_def)
  have s': "s' = (setProc i ?r (AtCandidate ?args 1) s)
      \<lparr>voteReqs := voteReqs s @ ?new, grants := insert (i, ?t, i) (grants s)\<rparr>"
    using st me candidateStart_ok[OF g] by (auto simp: startElection_def Let_def)
  have nth: "procs s' ! j = (if j = i then (procs s ! i)\<lparr>rf := ?r, pc := AtCandidate ?args 1\<rparr> else procs s ! j)" for j
    using setProc_nth[of i s ?r _ j] i by (simp add: s')
  have f: "length (procs s') = n" "voteReqs s' = voteReqs s @ ?new" "voteReps s' = voteReps s"
    "appReqs s' = appReqs s" "appReps s' = appReps s" "grants s' = insert (i, ?t, i) (grants s)"
    "counted s' = counted s" "wins s' = wins s"
    by (simp_all add: s')
  have tm: "termOf s j \<le> termOf s' j" for j using t by (auto simp: nth)
  have fresh_g: "(i, ?t, c) \<notin> grants s" and fresh_c: "(i, ?t, v) \<notin> counted s" for c v
    using inv t by (fastforce simp: cinv_def grants_ok_def tally_ok_def)+
  have m: "msgs_ok n s" using inv by (simp add: cinv_def)
  have "procs_ok n s'"
    unfolding procs_ok_def
  proof (intro conjI allI impI)
    fix j assume j: "j < n"
    show "good (rf (procs s' ! j))" "me (rf (procs s' ! j)) = int j" "peers (rf (procs s' ! j)) = n"
      using cinvD[OF inv j] candidateStart_good(1)[OF g] me by (auto simp: nth)
    have "tally s' j = tally s j" by (simp add: tally_def f fun_eq_iff)
    then show "pc_ok s' j (termOf s' j) (pc (procs s' ! j))"
      using pc_ok_grow[OF cinvD(5)[OF inv j], of s'] fresh_c t0
      by (auto simp: nth tally_def f)
  qed (simp add: f)
  moreover have "msgs_ok n s'"
    unfolding msgs_ok_def
  proof (intro conjI ballI; clarify)
    show "request_ok n s' a b args" if "(a, b, args) \<in> set (voteReqs s')" for a b args
    proof (cases "(a, b, args) \<in> set (voteReqs s)")
      case True
      then show ?thesis using m tm by (auto simp: msgs_ok_def intro: request_ok_mono)
    next
      case False
      then show ?thesis using that i me by (auto simp: f nth request_ok_def)
    qed
    show "request_ok n s' a b args \<and> (VoteGranted reply \<longrightarrow> (b, rvTerm args, a) \<in> grants s')"
      if "(a, b, args, reply) \<in> set (voteReps s')" for a b args reply
      using m that request_ok_mono[OF _ tm, of n a b args] by (auto simp: msgs_ok_def f)
  qed (use m in \<open>auto simp: msgs_ok_def f\<close>)
  moreover have "grants_ok n s'"
  proof -
    have "v < n \<and> c < n \<and> t' \<le> termOf s' v \<and> (t' = termOf s' v \<longrightarrow> voteOf s' v = int c)"
      if "(v, t', c) \<in> grants s'" for v t' c
    proof (cases "(v, t', c) \<in> grants s")
      case True
      then have "v < n \<and> c < n \<and> t' \<le> termOf s v \<and> (t' = termOf s v \<longrightarrow> voteOf s v = int c)"
        using inv by (simp add: cinv_def grants_ok_def)
      then show ?thesis using t by (auto simp: nth)
    next
      case False
      then show ?thesis using that i me by (simp add: f nth)
    qed
    moreover have "c = c'" if "(v, t', c) \<in> grants s'" "(v, t', c') \<in> grants s'" for v t' c c'
      using that inv fresh_g by (auto simp: f cinv_def grants_ok_def)
    ultimately show ?thesis unfolding grants_ok_def by blast
  qed
  moreover have "tally_ok n s'"
  proof -
    have old: "t' \<le> termOf s a" if "(a, t', b) \<in> set (map qkey (voteReqs s)) \<union> set (map rkey (voteReps s))" for a t' b
      using m that by (auto simp: msgs_ok_def request_ok_def)
    have "(i, ?t, b) \<notin> set (map qkey (voteReqs s)) \<union> set (map rkey (voteReps s))" for b
      using old[of i ?t b] t by (metis not_le)
    moreover have "map qkey ?new = map (\<lambda>j. (i, ?t, j)) (filter (\<lambda>j. j \<noteq> i) [0..<n])" by simp
    ultimately have "distinct (map qkey (voteReqs s') @ map rkey (voteReps s'))"
      using cinv_distinct[OF inv] by (auto simp: f distinct_map inj_on_def)
    moreover have "(set (map qkey (voteReqs s')) \<union> set (map rkey (voteReps s'))) \<inter> counted s' = {}"
      using inv fresh_c by (auto simp: f cinv_def tally_ok_def)
    moreover have "c < n \<and> v < n \<and> v \<noteq> c \<and> t' \<le> termOf s' c \<and> (v, t', c) \<in> grants s'"
      if "(c, t', v) \<in> counted s'" for c t' v
    proof -
      have "c < n \<and> v < n \<and> v \<noteq> c \<and> t' \<le> termOf s c \<and> (v, t', c) \<in> grants s"
        using that inv by (simp add: f cinv_def tally_ok_def)
      then show ?thesis using tm[of c] by (simp add: f)
    qed
    ultimately show ?thesis by (simp add: tally_ok_def)
  qed
  moreover have "wins_ok n s'"
    using inv by (fastforce simp: cinv_def wins_ok_def f)
  ultimately show ?thesis by (simp add: cinv_def)
qed

text \<open>
  A handled vote request turns into a reply; when the vote was given, the voter's term and vote are
  those of the request.
\<close>

lemma cinv_vote:
  assumes inv: "cinv n s" and k: "k < length (voteReqs s)" and q: "voteReqs s ! k = (i, j, args)"
    and gr: "VoteGranted reply \<Longrightarrow> termOf s j = rvTerm args \<and> voteOf s j = int i"
  shows "cinv n (s\<lparr>voteReqs := removeAt k (voteReqs s), voteReps := voteReps s @ [(i, j, args, reply)],
    grants := (if VoteGranted reply then insert (j, rvTerm args, i) (grants s) else grants s)\<rparr>)"
    (is "cinv n ?s")
proof -
  have m: "msgs_ok n s" and go: "grants_ok n s" using inv by (simp_all add: cinv_def)
  have "(i, j, args) \<in> set (voteReqs s)" using k q by (metis nth_mem)
  then have rq: "request_ok n s i j args" using m by (auto simp: msgs_ok_def)
  have sub: "grants s \<subseteq> grants ?s" by auto
  have rok: "request_ok n ?s = request_ok n s" by (intro ext) (simp add: request_ok_def)
  have "procs_ok n ?s"
    using inv pc_ok_grow[OF _ sub] by (simp add: cinv_def procs_ok_def tally_def fun_eq_iff)
  moreover have "msgs_ok n ?s"
    unfolding msgs_ok_def rok
  proof (intro conjI ballI; clarify)
    show "request_ok n s a b args'" if "(a, b, args') \<in> set (voteReqs ?s)" for a b args'
    proof -
      have "(a, b, args') \<in> set (voteReqs s)" using that by (auto dest: set_removeAt)
      then show ?thesis using m by (auto simp: msgs_ok_def)
    qed
    show "request_ok n s a b args' \<and> (VoteGranted reply' \<longrightarrow> (b, rvTerm args', a) \<in> grants ?s)"
      if "(a, b, args', reply') \<in> set (voteReps ?s)" for a b args' reply'
      using m that rq by (auto simp: msgs_ok_def)
  qed (use m in \<open>auto simp: msgs_ok_def\<close>)
  moreover have "grants_ok n ?s"
  proof (cases "VoteGranted reply")
    case False
    then show ?thesis using go by (simp add: grants_ok_def)
  next
    case True
    have same: "c = i" if "(j, rvTerm args, c) \<in> grants s" for c
      using go that gr[OF True] unfolding grants_ok_def by (metis of_nat_eq_iff)
    have "j < n" "i < n" using rq by (auto simp: request_ok_def)
    then show ?thesis
      using go gr[OF True] same True unfolding grants_ok_def by auto
  qed
  moreover have "tally_ok n ?s"
  proof -
    have d: "distinct (map qkey (voteReqs ?s) @ map rkey (voteReps ?s))"
      using distinct_move[OF k cinv_distinct[OF inv], of "(i, j, args, reply)"] q by simp
    have "qkey (i, j, args) \<in> set (map qkey (voteReqs s))"
      using \<open>(i, j, args) \<in> set (voteReqs s)\<close> by force
    then have "set (map qkey (voteReqs ?s)) \<union> set (map rkey (voteReps ?s)) \<subseteq>
        set (map qkey (voteReqs s)) \<union> set (map rkey (voteReps s))"
      using set_removeAt[of _ k "voteReqs s"] by auto
    then have "(set (map qkey (voteReqs ?s)) \<union> set (map rkey (voteReps ?s))) \<inter> counted s = {}"
      using inv unfolding cinv_def tally_ok_def by blast
    then show ?thesis
      using inv d by (simp add: cinv_def tally_ok_def)
  qed
  moreover have "wins_ok n ?s"
    using inv sub unfolding cinv_def wins_ok_def by (metis (no_types, lifting) Cluster.select_convs(8)
      Cluster.surjective Cluster.update_convs(2,3,6) subsetD)
  ultimately show ?thesis by (simp add: cinv_def)
qed

text \<open>A candidate adds a vote to its tally, and may pass half of the peers with it.\<close>

lemma cinv_count:
  assumes inv: "cinv n s" and k: "k < length (voteReps s)" and q: "voteReps s ! k = (i, j, args, reply)"
    and p: "pc (procs s ! i) = AtCandidate args' g" and t: "rvTerm args' = rvTerm args"
    and c: "countVote (rf (procs s ! i)) reply g = (g', won)"
  shows "cinv n ((setProc i (rf (procs s ! i)) (if won then AtWon args' else AtCandidate args' g') s)
    \<lparr>voteReps := removeAt k (voteReps s),
     counted := (if VoteGranted reply then insert (i, rvTerm args, j) (counted s) else counted s),
     wins := (if won then insert (rvTerm args, i) (wins s) else wins s)\<rparr>)"
    (is "cinv n ?s")
proof (cases "VoteGranted reply")
  case False
  have "(i, j, args, reply) \<in> set (voteReps s)" using k q by (metis nth_mem)
  then have i: "i < n" using inv by (auto simp: cinv_def msgs_ok_def request_ok_def)
  have "?s = setProc i (rf (procs s ! i)) (AtCandidate args' g) (s\<lparr>voteReps := removeAt k (voteReps s)\<rparr>)"
    using False c by (simp add: countVote_def setProc_def)
  then show ?thesis
    using cinv_loseVoteRep[OF inv, of k] cinvD[OF inv i] i p
    by (auto intro!: cinv_setProc)
next
  case True
  let ?t = "rvTerm args"
  have mem: "(i, j, args, reply) \<in> set (voteReps s)" using k q by (metis nth_mem)
  have m: "msgs_ok n s" using inv by (simp add: cinv_def)
  then have rq: "i < n" "j < n" "i \<noteq> j" "?t \<le> termOf s i" "(j, ?t, i) \<in> grants s"
    using mem True by (auto simp: msgs_ok_def request_ok_def)
  have key: "(i, ?t, j) \<notin> counted s"
    using inv mem by (force simp: cinv_def tally_ok_def)
  have cnt: "(a, t', v) \<in> counted s \<Longrightarrow> a < n \<and> v < n \<and> v \<noteq> a \<and> t' \<le> termOf s a \<and> (v, t', a) \<in> grants s" for a t' v
    using inv by (simp add: cinv_def tally_ok_def)
  have fin: "finite (tally s i ?t)" "tally s i ?t \<subseteq> {..<n}" "i \<notin> tally s i ?t" "j \<notin> tally s i ?t"
    using cnt key by (auto simp: tally_def intro: finite_subset[of _ "{..<n}"])
  have pcok: "0 < ?t" "(i, ?t, i) \<in> grants s" "g = 1 + int (card (tally s i ?t))"
    using cinvD(5)[OF inv rq(1)] p t by auto
  have g': "g' = 2 + int (card (tally s i ?t))" and won: "won \<longleftrightarrow> int n div 2 < g'"
    using c True pcok(3) cinvD(4)[OF inv rq(1)] by (auto simp: countVote_def)
  have l: "i < length (procs s)" using cinvD(1)[OF inv rq(1)] rq(1) by simp
  define s' where "s' = ?s"
  have f: "length (procs s') = n" "voteReqs s' = voteReqs s" "voteReps s' = removeAt k (voteReps s)"
    "appReqs s' = appReqs s" "appReps s' = appReps s" "grants s' = grants s"
    "counted s' = insert (i, ?t, j) (counted s)" "wins s' = (if won then insert (?t, i) (wins s) else wins s)"
    using True cinvD(1)[OF inv rq(1)] by (simp_all add: s'_def)
  have nth: "procs s' ! a = (if a = i then (procs s ! i)\<lparr>pc := (if won then AtWon args' else AtCandidate args' g')\<rparr> else procs s ! a)" for a
    by (simp add: s'_def setProc_nth[OF l])
  have rf: "rf (procs s' ! a) = rf (procs s ! a)" for a by (simp add: nth)
  have ty: "tally s' a t' = (if a = i \<and> t' = ?t then insert j (tally s i ?t) else tally s a t')" for a t'
    by (auto simp: tally_def f)
  have "procs_ok n s'"
    unfolding procs_ok_def
  proof (intro conjI allI impI)
    fix a assume a: "a < n"
    show "good (rf (procs s' ! a))" "me (rf (procs s' ! a)) = int a" "peers (rf (procs s' ! a)) = n"
      using cinvD[OF inv a] by (simp_all only: rf)
    show "pc_ok s' a (termOf s' a) (pc (procs s' ! a))"
    proof (cases "a = i")
      case True
      have "pc_ok s' i (termOf s i) (AtCandidate args' g')"
        using rq pcok g' fin t by (simp add: ty f)
      then show ?thesis using True pcok(1) rq(4) by (simp add: nth)
    next
      case False
      then show ?thesis
        using pc_ok_grow[OF cinvD(5)[OF inv a], of s'] by (simp add: nth f ty fun_eq_iff)
    qed
  qed (simp add: f)
  moreover have "msgs_ok n s'"
  proof -
    have rok: "request_ok n s' = request_ok n s" by (intro ext) (simp add: request_ok_def rf)
    have "x \<in> set (voteReps s)" if "x \<in> set (voteReps s')" for x
      using that by (auto simp: f dest: set_removeAt)
    then show ?thesis using m unfolding msgs_ok_def rok by (simp add: f)
  qed
  moreover have "grants_ok n s'"
    using inv by (simp add: cinv_def grants_ok_def rf f)
  moreover have "tally_ok n s'"
  proof -
    have "mset (map qkey (voteReqs s) @ map rkey (voteReps s)) =
        mset ((i, ?t, j) # map qkey (voteReqs s) @ map rkey (removeAt k (voteReps s)))"
      using mset_removeAt[OF k] q by simp
    then have "distinct ((i, ?t, j) # map qkey (voteReqs s) @ map rkey (removeAt k (voteReps s)))"
      using cinv_distinct[OF inv] mset_eq_imp_distinct_iff by blast
    moreover have "set (map rkey (removeAt k (voteReps s))) \<subseteq> set (map rkey (voteReps s))"
      by (auto dest: set_removeAt)
    then have "(set (map qkey (voteReqs s)) \<union> set (map rkey (removeAt k (voteReps s)))) \<inter> counted s = {}"
      using inv unfolding cinv_def tally_ok_def by blast
    ultimately show ?thesis
      using cnt rq by (auto simp: tally_ok_def rf f)
  qed
  moreover have "wins_ok n s'"
  proof -
    let ?V = "insert i (insert j (tally s i ?t))"
    have "card ?V = card (tally s i ?t) + 2" using fin rq(3) by simp
    then have "won \<Longrightarrow> n div 2 < card ?V" using won g' by linarith
    moreover have "?V \<subseteq> {..<n}" using fin rq by auto
    moreover have "\<forall>v \<in> ?V. (v, ?t, i) \<in> grants s"
      using pcok(2) rq(5) cnt by (auto simp: tally_def)
    ultimately have "won \<Longrightarrow> \<exists>V. V \<subseteq> {..<n} \<and> n div 2 < card V \<and> (\<forall>v \<in> V. (v, ?t, i) \<in> grants s)" by blast
    then show ?thesis using inv by (auto simp: cinv_def wins_ok_def f)
  qed
  ultimately have "cinv n s'" by (simp add: cinv_def)
  then show ?thesis by (simp only: s'_def)
qed

section \<open>Every event keeps the invariant\<close>

lemma cinv_enterRoutine:
  assumes "cinv n s" "i < n" "good r" "evolves (rf (procs s ! i)) r" "enterRoutine i r s = Inr s'"
  shows "cinv n s'"
proof -
  consider "status r = 0" | "status r = 1" | "status r \<noteq> 0" "status r \<noteq> 1" by blast
  then show ?thesis
  proof cases
    case 1
    then obtain r' where r': "leaderInit r = Inr r'" "s' = setProc i r' AtLeaderLoop s"
      using assms(5) by (auto simp: enterRoutine_def bindR_eq_Inr)
    have "0 < currentTerm r" using 1 assms(3) by (simp add: good_def raft_wf_def)
    moreover have "evolves r r'" "good r'" using leaderInit_good[OF assms(3) r'(1)] by auto
    ultimately show ?thesis
      using assms(1,2,4) by (auto simp: r'(2) evolves_def intro!: cinv_setProc)
  next
    case 2
    then show ?thesis using assms cinv_startElection by (auto simp: enterRoutine_def)
  next
    case 3
    then show ?thesis using assms by (auto simp: enterRoutine_def intro!: cinv_setProc)
  qed
qed

lemma cinv_followerTimer:
  "cinv n s \<Longrightarrow> i < n \<Longrightarrow> followerTimer i t s = Some (Inr s') \<Longrightarrow> cinv n s'"
  using cinv_enterRoutine[of n s i "followerTimeout (rf (procs s ! i))" s'] cinvD(2)[of n s i]
  by (auto simp: followerTimer_def followerTimeout_good split: pc.splits if_splits)

lemma cinv_followerReset:
  "cinv n s \<Longrightarrow> i < n \<Longrightarrow> followerReset i s = Some (Inr s') \<Longrightarrow> cinv n s'"
  using cinvD(2)[of n s i]
  by (auto simp: followerReset_def Let_def channels_good channels_evolve split: pc.splits if_splits
      intro!: cinv_setProc)

lemma cinv_candidateTimer:
  "cinv n s \<Longrightarrow> i < n \<Longrightarrow> candidateTimer i s = Some (Inr s') \<Longrightarrow> cinv n s'"
  using cinv_startElection[of n s i "rf (procs s ! i)" s'] cinvD(2)[of n s i]
  by (auto simp: candidateTimer_def split: pc.splits)

lemma cinv_demote: "cinv n s \<Longrightarrow> i < n \<Longrightarrow> demote i s = Some (Inr s') \<Longrightarrow> cinv n s'"
  using cinv_enterRoutine[of n s i "(rf (procs s ! i))\<lparr>toFollower := toFollower (rf (procs s ! i)) - 1\<rparr>" s']
    cinvD(2)[of n s i]
  by (auto simp: demote_def Let_def channels_good channels_evolve split: pc.splits if_splits)

lemma cinv_terminate: "cinv n s \<Longrightarrow> i < n \<Longrightarrow> terminate i s = Some (Inr s') \<Longrightarrow> cinv n s'"
  using cinvD(2)[of n s i]
  by (auto simp: terminate_def Let_def channels_good channels_evolve split: pc.splits if_splits
      intro!: cinv_setProc)

lemma cinv_elected:
  assumes "cinv n s" "i < n" "elected i s = Some (Inr s')"
  shows "cinv n s'"
proof -
  obtain args where p: "pc (procs s ! i) = AtWon args"
    and e: "enterRoutine i (becomeLeader (rf (procs s ! i))) s = Inr s'"
    using assms(3) by (auto simp: elected_def split: pc.splits)
  have "0 < termOf s i" using cinvD(5)[OF assms(1,2)] p by simp
  from becomeLeader_good[OF cinvD(2)[OF assms(1,2)] this] show ?thesis
    by (rule cinv_enterRoutine[OF assms(1,2) _ _ e])
qed

lemma cinv_sendRound:
  assumes "cinv n s" "i < n" "sendRound i s = Some (Inr s')"
  shows "cinv n s'"
proof -
  let ?p = "procs s ! i"
  obtain args where p: "pc ?p = AtLeaderLoop" and a: "leaderRound (rf ?p) = Inr args"
    and s': "s' = s\<lparr>procs := (procs s)[i := ?p\<lparr>pc := AtLeader (rounds ?p + 1) args, rounds := rounds ?p + 1\<rparr>],
      appReqs := appReqs s @ map (\<lambda>j. (i, j, rounds ?p + 1, args ! j)) (filter (\<lambda>j. j \<noteq> i) [0..<n])\<rparr>"
    using assms(3) cinvD(4)[OF assms(1,2)]
    by (auto simp: sendRound_def Let_def bindR_eq_Inr split: pc.splits)
  have t: "0 < termOf s i" using cinvD(5)[OF assms(1,2)] p by simp
  have l: "length (procs s) = n" by (rule cinvD(1)[OF assms(1,2)])
  have wf: "ae_wf (args ! j)" if "j < n" for j
  proof -
    have "makeArgs (rf ?p) (int j) = Inr (args ! j)"
      using a that cinvD(4)[OF assms(1,2)] by (auto simp: leaderRound_def mapR_eq_Inr)
    then show ?thesis
      using makeArgs_wf(1)[of "rf ?p" "int j"] cinvD(2)[OF assms(1,2)] t by (simp add: good_def)
  qed
  let ?s1 = "setProc i (rf ?p) (AtLeader (rounds ?p + 1) args) s"
  have "cinv n ?s1" using assms t by (intro cinv_setProc) (simp_all add: cinvD)
  then have "cinv n (?s1\<lparr>procs := (procs ?s1)[i := (procs ?s1 ! i)\<lparr>rounds := rounds ?p + 1\<rparr>]\<rparr>)" (is "cinv n ?s2")
    using assms(2) by (rule cinv_rounds)
  then have "cinv n (?s2\<lparr>appReqs := appReqs s @ map (\<lambda>j. (i, j, rounds ?p + 1, args ! j)) (filter (\<lambda>j. j \<noteq> i) [0..<n]),
      appReps := appReps s\<rparr>)"
    using wf assms(2) by (intro cinv_appMsgs) auto
  moreover have "\<dots> = s'" using assms(2) l by (simp add: s' setProc_def)
  ultimately show ?thesis by simp
qed

lemma cinv_leaderTimer: "cinv n s \<Longrightarrow> i < n \<Longrightarrow> leaderTimer i s = Some (Inr s') \<Longrightarrow> cinv n s'"
  using cinvD(2,5)[of n s i] by (auto simp: leaderTimer_def split: pc.splits intro!: cinv_setProc)

lemma cinv_clientStart:
  assumes "cinv n s" "i < n" "clientStart i c s = Some (Inr s')"
  shows "cinv n s'"
proof -
  obtain r x where r: "Start (rf (procs s ! i)) c = Inr (r, x)" "s' = setProc i r (pc (procs s ! i)) s"
    using assms(3) by (auto simp: clientStart_def bindR_eq_Inr)
  have "good r" "evolves (rf (procs s ! i)) r" using Start_good[OF cinvD(2)[OF assms(1,2)] r(1)] .
  moreover from this have "pc_ok s i (currentTerm r) (pc (procs s ! i))"
    using cinvD(5)[OF assms(1,2)] by (auto simp: evolves_def intro: pc_ok_mono)
  ultimately show ?thesis using assms(1,2) by (simp add: r(2) cinv_setProc)
qed

lemma cinv_killPeer: "cinv n s \<Longrightarrow> i < n \<Longrightarrow> killPeer i s = Some (Inr s') \<Longrightarrow> cinv n s'"
  using cinvD(2,5)[of n s i]
  by (auto simp: killPeer_def channels_good channels_evolve Kill_def intro!: cinv_setProc)

lemma Copy_same: "Copy p = (p :: 'b Persister)"
  by (simp add: persister_defs)

lemma cinv_restart: "cinv n s \<Longrightarrow> i < n \<Longrightarrow> restart i s = Some (Inr s') \<Longrightarrow> cinv n s'"
  using cinvD(2)[of n s i] recovered_good[of "rf (procs s ! i)"]
  by (auto simp: restart_def Let_def Copy_same recovered_def[symmetric] intro!: cinv_setProc)

lemma cinv_applyOne: "cinv n s \<Longrightarrow> i < n \<Longrightarrow> applyOne i g s = Some (Inr s') \<Longrightarrow> cinv n s'"
  using cinvD(2,5)[of n s i]
  by (auto simp: applyOne_def Let_def channels_good channels_evolve split: if_splits intro!: cinv_setProc)

lemma cinv_deliverVoteReq:
  assumes inv: "cinv n s" and d: "deliverVoteReq k s = Some (Inr s')"
  shows "cinv n s'"
proof -
  have k: "k < length (voteReqs s)" using d by (auto simp: deliverVoteReq_def split: if_splits)
  obtain i j args where q: "voteReqs s ! k = (i, j, args)" by (cases "voteReqs s ! k") auto
  let ?r = "rf (procs s ! j)"
  obtain r reply where rv: "RequestVote ?r args = Inr (r, reply)"
    and s': "s' = (setProc j r (pc (procs s ! j)) s)\<lparr>voteReqs := removeAt k (voteReqs s),
      voteReps := voteReps s @ [(i, j, args, reply)],
      grants := (if VoteGranted reply then insert (j, rvTerm args, i) (grants s) else grants s)\<rparr>"
    using d k q by (auto simp: deliverVoteReq_def Let_def bindR_eq_Inr)
  have "(i, j, args) \<in> set (voteReqs s)" using k q by (metis nth_mem)
  then have rq: "j < n" "CandidateId args = int i"
    using inv by (auto simp: cinv_def msgs_ok_def request_ok_def)
  note pj = cinvD[OF inv rq(1)]
  have g: "good r" "evolves ?r r" using RequestVote_good[OF pj(2) rv] rq(2) by simp_all
  let ?s = "setProc j r (pc (procs s ! j)) s"
  have "cinv n ?s"
    using g pj(5) by (intro cinv_setProc inv rq(1)) (auto simp: evolves_def intro: pc_ok_mono)
  moreover have "termOf ?s j = rvTerm args \<and> voteOf ?s j = int i" if "VoteGranted reply"
    using that rv RequestVote_eq[OF good_log(2)[OF pj(2)], of args] rq pj(1)
    by (auto simp: mayVote_def setProc_nth split: if_splits)
  ultimately have "cinv n (?s\<lparr>voteReqs := removeAt k (voteReqs ?s), voteReps := voteReps ?s @ [(i, j, args, reply)],
      grants := (if VoteGranted reply then insert (j, rvTerm args, i) (grants ?s) else grants ?s)\<rparr>)"
    using k q by (intro cinv_vote) simp_all
  then show ?thesis unfolding s' setProc_simps .
qed

lemma cinv_deliverVoteRep:
  assumes inv: "cinv n s" and d: "deliverVoteRep k s = Some (Inr s')"
  shows "cinv n s'"
proof -
  have k: "k < length (voteReps s)" using d by (auto simp: deliverVoteRep_def split: if_splits)
  obtain i j args reply where q: "voteReps s ! k = (i, j, args, reply)" by (cases "voteReps s ! k") auto
  let ?p = "procs s ! i" and ?s = "s\<lparr>voteReps := removeAt k (voteReps s)\<rparr>"
  have "(i, j, args, reply) \<in> set (voteReps s)" using k q by (metis nth_mem)
  then have i: "i < n" using inv by (auto simp: cinv_def msgs_ok_def request_ok_def)
  have lost: "cinv n ?s" using inv by (rule cinv_loseVoteRep)
  show ?thesis
  proof (cases "\<exists>args' g. pc ?p = AtCandidate args' g \<and> rvTerm args' = rvTerm args")
    case False
    then have "s' = ?s" using d k q by (auto simp: deliverVoteRep_def Let_def split: pc.splits if_splits)
    then show ?thesis using lost by simp
  next
    case True
    then obtain args' g where p: "pc ?p = AtCandidate args' g" "rvTerm args' = rvTerm args" by blast
    show ?thesis
    proof (cases "snd (candidateReply (rf ?p) reply)")
      case True
      then have "enterRoutine i (fst (candidateReply (rf ?p) reply)) ?s = Inr s'"
        using d k q p by (simp add: deliverVoteRep_def Let_def split: prod.splits)
      moreover have "evolves (rf (procs ?s ! i)) (fst (candidateReply (rf ?p) reply))"
        using candidateReply_good(2)[OF cinvD(2)[OF inv i]] by simp
      ultimately show ?thesis
        using cinv_enterRoutine[OF lost i candidateReply_good(1)[OF cinvD(2)[OF inv i]]] by blast
    next
      case False
      then have r: "candidateReply (rf ?p) reply = (rf ?p, False)"
        by (auto simp: candidateReply_def Let_def split: if_splits)
      obtain g' won where c: "countVote (rf ?p) reply g = (g', won)" by fastforce
      have "s' = (setProc i (rf ?p) (if won then AtWon args' else AtCandidate args' g') s)
        \<lparr>voteReps := removeAt k (voteReps s),
         counted := (if VoteGranted reply then insert (i, rvTerm args, j) (counted s) else counted s),
         wins := (if won then insert (rvTerm args, i) (wins s) else wins s)\<rparr>"
        using d k q p r c by (auto simp: deliverVoteRep_def setProc_def)
      then show ?thesis using cinv_count[OF inv k q p c] by simp
    qed
  qed
qed

lemma cinv_deliverAppReq:
  assumes inv: "cinv n s" and d: "deliverAppReq k s = Some (Inr s')"
  shows "cinv n s'"
proof -
  have k: "k < length (appReqs s)" using d by (auto simp: deliverAppReq_def split: if_splits)
  obtain i j rd args where q: "appReqs s ! k = (i, j, rd, args)" by (cases "appReqs s ! k") auto
  obtain r reply where ae: "AppendEntries (rf (procs s ! j)) args = Inr (r, reply)"
    and s': "s' = (setProc j r (pc (procs s ! j)) s)\<lparr>appReqs := removeAt k (appReqs s),
      appReps := appReps s @ [(i, j, rd, reply)]\<rparr>"
    using d k q by (auto simp: deliverAppReq_def Let_def bindR_eq_Inr)
  have "(i, j, rd, args) \<in> set (appReqs s)" using k q by (metis nth_mem)
  then have m: "i < n" "j < n" "ae_wf args" using inv by (auto simp: cinv_def msgs_ok_def)
  note pj = cinvD[OF inv m(2)]
  have g: "good r" "evolves (rf (procs s ! j)) r" using AppendEntries_good[OF pj(2) m(3) ae] .
  have "cinv n (setProc j r (pc (procs s ! j)) s)"
    using g pj(5) by (intro cinv_setProc inv m(2)) (auto simp: evolves_def intro: pc_ok_mono)
  then show ?thesis
    unfolding s' using m by (intro cinv_appMsgs) (auto dest: set_removeAt)
qed

lemma cinv_deliverAppRep:
  assumes inv: "cinv n s" and d: "deliverAppRep k s = Some (Inr s')"
  shows "cinv n s'"
proof -
  have k: "k < length (appReps s)" using d by (auto simp: deliverAppRep_def split: if_splits)
  obtain i j rd reply where q: "appReps s ! k = (i, j, rd, reply)" by (cases "appReps s ! k") auto
  let ?p = "procs s ! i" and ?s = "s\<lparr>appReps := removeAt k (appReps s)\<rparr>"
  have "(i, j, rd, reply) \<in> set (appReps s)" using k q by (metis nth_mem)
  then have i: "i < n" using inv by (auto simp: cinv_def msgs_ok_def)
  have "cinv n (s\<lparr>appReqs := appReqs s, appReps := removeAt k (appReps s)\<rparr>)"
    using inv by (intro cinv_appMsgs) (auto dest: set_removeAt)
  then have lost: "cinv n ?s" by simp
  show ?thesis
  proof (cases "\<exists>args. pc ?p = AtLeader rd args")
    case False
    then have "s' = ?s" using d k q by (auto simp: deliverAppRep_def Let_def split: pc.splits if_splits)
    then show ?thesis using lost by simp
  next
    case True
    then obtain args where p: "pc ?p = AtLeader rd args" by blast
    then obtain r down where r: "leaderReply (rf ?p) args (int j) reply = Inr (r, down)"
      and s': "(if down then enterRoutine i r ?s else Inr (setProc i r (pc ?p) ?s)) = Inr s'"
      using d k q by (auto simp: deliverAppRep_def Let_def bindR_eq_Inr)
    have g: "good r" "evolves (rf ?p) r" using leaderReply_good[OF cinvD(2)[OF inv i] r] .
    have "pc_ok s i (currentTerm r) (pc ?p)"
      using cinvD(5)[OF inv i] g(2) by (auto simp: evolves_def intro: pc_ok_mono)
    then have "pc_ok ?s i (currentTerm r) (pc ?p)" using pc_ok_cong[of ?s s] by simp
    then show ?thesis
      using s' g cinv_enterRoutine[OF lost i g(1)] cinv_setProc[OF lost i g(1)]
      by (auto split: if_splits)
  qed
qed

lemma cinv_lose:
  assumes "cinv n s"
  shows "lose k (voteReqs s) = Some ms \<Longrightarrow> cinv n (s\<lparr>voteReqs := ms\<rparr>)"
    and "lose k (voteReps s) = Some ms' \<Longrightarrow> cinv n (s\<lparr>voteReps := ms'\<rparr>)"
    and "lose k (appReqs s) = Some as \<Longrightarrow> cinv n (s\<lparr>appReqs := as\<rparr>)"
    and "lose k (appReps s) = Some as' \<Longrightarrow> cinv n (s\<lparr>appReps := as'\<rparr>)"
  using cinv_loseVoteReq[OF assms] cinv_loseVoteRep[OF assms]
    cinv_appMsgs[OF assms, of "removeAt k (appReqs s)" "appReps s"]
    cinv_appMsgs[OF assms, of "appReqs s" "removeAt k (appReps s)"]
  by (auto simp: lose_def split: if_splits dest: set_removeAt)

lemmas cinv_events =
  cinv_followerTimer cinv_followerReset cinv_candidateTimer cinv_demote cinv_terminate cinv_elected
  cinv_sendRound cinv_leaderTimer cinv_clientStart cinv_killPeer cinv_restart cinv_applyOne
  cinv_deliverVoteReq cinv_deliverVoteRep cinv_deliverAppReq cinv_deliverAppRep

lemma cinv_exec:
  assumes inv: "cinv n s" and e: "exec e s = Some (Inr s')"
  shows "cinv n s'"
proof -
  have l: "n = length (procs s)" using inv by (simp add: cinv_def procs_ok_def)
  note inv' = inv[unfolded l]
  show ?thesis
    unfolding l using e
    by (cases e) (auto split: if_splits intro: cinv_events[OF inv'] cinv_lose[OF inv'])
qed

interpretation cluster_inv: invariant "\<lambda>s. s = initCluster n" clusterStep "cinv n" for n
  by unfold_locales (auto simp: cinv_init clusterStep_def intro: cinv_exec)

end
