(* ===== verification/Raft_Replication.thy ===== *)
theory Raft_Replication
  imports Raft_Peer
begin

text \<open>
  Log replication between a leader and one follower. The bookkeeping of an undisturbed leader
  (\<open>leader_wf\<close>) is set up by \<open>leaderInit\<close> and kept by \<open>Start\<close> and by every reply, so the leader never
  indexes outside its log; an accepted AppendEntries makes the follower's log equal to the leader's
  as soon as the two logs obey the log matching property; and the optimised backtracking of
  \<open>nextIndex\<close> reaches an accepted AppendEntries after finitely many rejections.
\<close>

section \<open>The bookkeeping of a leader\<close>

lemma leader_wf_init:
  assumes "good rf" "leaderInit rf = Inr rf'"
  shows "leader_wf rf'"
proof -
  have "length (nextIndex rf) = peers rf" "length (matchIndex rf) = peers rf" "0 \<le> me rf" "me rf < int (peers rf)"
    using assms(1) by (simp_all add: good_def raft_wf_def)
  moreover have "Suc 0 \<le> length (log rf)" using good_log(2)[OF assms(1)] by (simp add: Suc_le_eq)
  ultimately show ?thesis
    using assms(2) leaderInit_ok[of rf]
    by (auto simp: leader_wf_def dest!: set_update_subset_insert[THEN subsetD])
qed

lemma leader_wf_Start:
  assumes "leader_wf rf" "0 \<le> me rf" "me rf < int (peers rf)" "Start rf c = Inr (rf', x)"
  shows "leader_wf rf'"
proof (cases "status rf = 0")
  case False
  then show ?thesis using assms(1,4) Start_other[OF False, of c] by simp
next
  case True
  have l: "me rf < len (matchIndex rf)" using assms(1,3) by (simp add: leader_wf_def)
  let ?m = "matchIndex rf ! nat (me rf)"
  have rf': "rf' = (persist (rf\<lparr>log := log rf @ [\<lparr>Content = Some c, TermIdx = currentTerm rf\<rparr>]\<rparr>))
           \<lparr>matchIndex := (matchIndex rf)[nat (me rf) := ?m + 1]\<rparr>"
    using Start_leader[OF True assms(2) l, of c] assms(4) by simp
  have m: "?m = len (log rf) - 1" using assms(1) by (simp add: leader_wf_def)
  have "0 \<le> k \<and> k < len (log rf')" if "k \<in> set (matchIndex rf')" for k
  proof -
    have "k = ?m + 1 \<or> k \<in> set (matchIndex rf)"
      using that set_update_subset_insert[of "matchIndex rf" "nat (me rf)" "?m + 1"] by (auto simp: rf')
    then show ?thesis using assms(1) m by (auto simp: leader_wf_def rf')
  qed
  moreover have "matchIndex rf' ! nat (me rf') = len (log rf') - 1"
    using m l assms(2) by (simp add: rf')
  moreover have "\<forall>k \<in> set (nextIndex rf'). 1 \<le> k \<and> k \<le> len (log rf')"
    using assms(1) by (auto simp: leader_wf_def rf')
  moreover have "length (nextIndex rf') = peers rf'" "length (matchIndex rf') = peers rf'"
    using assms(1) by (simp_all add: leader_wf_def rf')
  ultimately show ?thesis by (simp add: leader_wf_def)
qed

text \<open>The round of arguments whose replies are still out, once the log has possibly grown.\<close>

definition round_ok :: "'c Raft \<Rightarrow> 'c AppendEntriesArgs list \<Rightarrow> bool" where
  "round_ok rf args \<longleftrightarrow> length args = peers rf \<and>
     (\<forall>a \<in> set args. 0 \<le> PrevLogIndex a \<and> PrevLogIndex a + len (Entries a) < len (log rf))"

lemma makeArgs_ok:
  assumes "leader_wf rf" "0 \<le> peer" "peer < int (peers rf)" "log rf \<noteq> []"
  obtains a where "makeArgs rf peer = Inr a" "0 \<le> PrevLogIndex a"
    "PrevLogIndex a + len (Entries a) < len (log rf)"
proof (cases "peer = me rf")
  case True
  then show thesis using that assms(4) by (auto simp: makeArgs_def Let_def)
next
  case False
  have "nextIndex rf ! nat peer \<in> set (nextIndex rf)" using assms by (auto simp: leader_wf_def)
  then have "1 \<le> nextIndex rf ! nat peer" "nextIndex rf ! nat peer \<le> len (log rf)"
    using assms(1) by (auto simp: leader_wf_def)
  then show thesis
    using that makeArgs_peer[OF assms(1-3) False] by (auto simp: Let_def)
qed

lemma leaderRound_ok:
  assumes "leader_wf rf" "log rf \<noteq> []"
  obtains args where "leaderRound rf = Inr args" "round_ok rf args"
    "\<And>j. j < peers rf \<Longrightarrow> makeArgs rf (int j) = Inr (args ! j)"
proof -
  have "\<exists>y. makeArgs rf (int j) = Inr y" if "j < peers rf" for j
    by (rule makeArgs_ok[OF assms(1) _ _ assms(2), of "int j"]) (use that in auto)
  then have "\<exists>args. leaderRound rf = Inr args"
    unfolding leaderRound_def by (intro mapR_total) auto
  then obtain args where args: "leaderRound rf = Inr args" by blast
  then have l: "length args = peers rf" and n: "\<And>j. j < peers rf \<Longrightarrow> makeArgs rf (int j) = Inr (args ! j)"
    by (auto simp: leaderRound_def mapR_eq_Inr)
  have "0 \<le> PrevLogIndex a \<and> PrevLogIndex a + len (Entries a) < len (log rf)" if a: "a \<in> set args" for a
  proof -
    obtain j where j: "j < peers rf" "args ! j = a" using a l by (auto simp: in_set_conv_nth)
    show ?thesis
      by (rule makeArgs_ok[OF assms(1) _ _ assms(2), of "int j"]) (use j n[OF j(1)] in auto)
  qed
  then show thesis using that[OF args _ n] l by (simp add: round_ok_def)
qed

lemma nextIndex_upd:
  assumes "leader_wf rf" "0 \<le> peer" "peer < int (peers rf)" "1 \<le> k" "k \<le> len (log rf)"
  shows "leader_wf (rf\<lparr>nextIndex := (nextIndex rf)[nat peer := k]\<rparr>)"
  using assms set_update_subset_insert[of "nextIndex rf" "nat peer" k]
  by (auto simp: leader_wf_def)

lemma matchIndex_upd:
  assumes "leader_wf rf" "0 \<le> peer" "peer < int (peers rf)" "0 \<le> me rf" "peer \<noteq> me rf"
    and "0 \<le> k" "k < len (log rf)"
  shows "leader_wf (rf\<lparr>matchIndex := (matchIndex rf)[nat peer := k]\<rparr>)"
  using assms set_update_subset_insert[of "matchIndex rf" "nat peer" k]
  by (auto simp: leader_wf_def)

lemma leader_wf_frame:
  assumes "leader_wf rf"
  shows "leader_wf (rf\<lparr>commitIndex := c, lastApplied := a, applyCh := m\<rparr>)"
  using assms by (simp add: leader_wf_def)

text \<open>
  A reply that does not depose the leader: an answer to a request of the round, with the follower's
  hint inside the log.
\<close>

definition reply_ok :: "'c Raft \<Rightarrow> AppendEntriesReply \<Rightarrow> bool" where
  "reply_ok rf reply \<longleftrightarrow> aerTerm reply \<le> currentTerm rf \<and>
     (\<not> Success reply \<longrightarrow> NextIndex reply = -1 \<or> 1 \<le> NextIndex reply \<and> NextIndex reply \<le> len (log rf))"

lemma leaderReply_leader_wf:
  assumes lw: "leader_wf rf" and la: "-1 \<le> lastApplied rf" and ro: "round_ok rf args"
    and p: "0 \<le> peer" "peer < int (peers rf)" "peer \<noteq> me rf" and m: "0 \<le> me rf"
    and re: "reply_ok rf reply"
  shows "\<exists>rf'. leaderReply rf args peer reply = Inr (rf', False) \<and> leader_wf rf' \<and> log rf' = log rf"
proof -
  have le: "\<not> currentTerm rf < aerTerm reply" using re by (simp add: reply_ok_def)
  have l: "peer < len args" "peer < len (matchIndex rf)" "peer < len (nextIndex rf)"
    using ro lw p by (simp_all add: round_ok_def leader_wf_def)
  let ?a = "args ! nat peer"
  have "?a \<in> set args" using p l by simp
  then have a: "0 \<le> PrevLogIndex ?a" "PrevLogIndex ?a + len (Entries ?a) < len (log rf)"
    using ro by (auto simp: round_ok_def)
  have ix: "idx args peer = Inr ?a" using p l by simp
  consider "\<not> Success reply" | "Success reply" "Entries ?a = []" | "Success reply" "Entries ?a \<noteq> []" by blast
  then show ?thesis
  proof cases
    case 1
    then show ?thesis
      using le re lw p l nextIndex_upd[OF lw p(1,2), of "NextIndex reply"]
      by (auto simp: leaderReply_def reply_ok_def)
  next
    case 2
    then show ?thesis using le lw ix by (simp add: leaderReply_def)
  next
    case 3
    let ?k = "PrevLogIndex ?a + len (Entries ?a)"
    let ?rf = "rf\<lparr>matchIndex := (matchIndex rf)[nat peer := ?k], nextIndex := (nextIndex rf)[nat peer := ?k + 1]\<rparr>"
    have lw2: "leader_wf ?rf"
      using nextIndex_upd[OF matchIndex_upd[OF lw p(1,2) m p(3), of ?k] p(1), of "?k + 1"] p a
      by simp
    then have len: "length (matchIndex ?rf) = peers ?rf" "0 < peers ?rf"
      using p by (auto simp: leader_wf_def)
    obtain c where c: "medianMatch ?rf = Inr c" using medianMatch_ok[OF len] by blast
    then have "c \<in> set (matchIndex ?rf)" by (rule medianMatch_holders(2)[OF len])
    then have cb: "0 \<le> c" "c < len (log rf)" using lw2 by (auto simp: leader_wf_def)
    let ?ap = "?rf\<lparr>commitIndex := c, lastApplied := max (lastApplied rf) c,
                   applyCh := applyCh rf @ [map (msgAt (log rf)) [lastApplied rf + 1 .. c]]\<rparr>"
    have ap: "applyLog (?rf\<lparr>commitIndex := c\<rparr>) = Inr ?ap" "leader_wf ?ap"
      using applyLog_ok[of "?rf\<lparr>commitIndex := c\<rparr>"] la cb leader_wf_frame[OF lw2] by simp_all
    have nth: "(matchIndex rf)[nat peer := ?k] ! nat peer = ?k" using p l by simp
    have "leaderReply rf args peer reply =
        Inr (if currentTerm rf \<le> TermIdx (log rf ! nat c) then ?ap else ?rf, False)"
      using 3 le ix p l nth c cb ap by (simp add: leaderReply_def Let_def)
    then show ?thesis using lw2 ap(2) by auto
  qed
qed

section \<open>An accepted request copies the leader's log\<close>

text \<open>
  The log matching property of two logs: entries of the same index and term have the same history.
\<close>

definition log_matching :: "'c LogEntry list \<Rightarrow> 'c LogEntry list \<Rightarrow> bool" where
  "log_matching xs ys \<longleftrightarrow>
     list_all (\<lambda>i. TermIdx (xs ! i) = TermIdx (ys ! i) \<longrightarrow> take (Suc i) xs = take (Suc i) ys)
       [0..<min (length xs) (length ys)]"

lemma mergedLog_copies:
  assumes "log_matching lg fl" "0 < n" "n \<le> length lg" "n \<le> length fl"
    and "TermIdx (lg ! (n - 1)) = TermIdx (fl ! (n - 1))"
  shows "mergedLog fl (int n - 1) (drop n lg) = lg"
proof -
  let ?k = "agree sameTerm (drop n lg) (drop n fl)"
  have k: "n + ?k \<le> length lg" "n + ?k \<le> length fl"
    using agree_bounds[of sameTerm "drop n lg" "drop n fl"] assms(3,4) by auto
  have "TermIdx (lg ! (n + ?k - 1)) = TermIdx (fl ! (n + ?k - 1))"
  proof (cases ?k)
    case (Suc m)
    then show ?thesis using agree_nth[of m sameTerm "drop n lg" "drop n fl"] assms(3,4) by simp
  qed (use assms(5) in simp)
  moreover have "n + ?k - 1 < min (length lg) (length fl)" using k assms(2) by linarith
  ultimately have "take (Suc (n + ?k - 1)) lg = take (Suc (n + ?k - 1)) fl"
    using assms(1) unfolding log_matching_def list_all_iff by simp
  moreover have "Suc (n + ?k - 1) = n + ?k" using assms(2) by simp
  ultimately have "take (n + ?k) lg = take (n + ?k) fl" by metis
  moreover have "mergedLog fl (int n - 1) (drop n lg) = take (n + ?k) fl @ drop (n + ?k) lg"
    by (simp add: mergedLog_def keptLog_def add.commute)
  ultimately show ?thesis by (metis append_take_drop_id)
qed

lemma AppendEntries_copies:
  assumes l: "leader_wf L" "makeArgs L j = Inr a" "0 \<le> j" "j < int (peers L)" "j \<noteq> me L"
    and f: "good F" "currentTerm F \<le> currentTerm L" "prevMatches F a" "log_matching (log L) (log F)"
  shows "\<exists>F'. AppendEntries F a = Inr (F', \<lparr>aerTerm = currentTerm F, Success = True, NextIndex = 0\<rparr>) \<and>
    log F' = log L \<and> currentTerm F' = currentTerm L"
proof -
  let ?n = "nextIndex L ! nat j"
  have "?n \<in> set (nextIndex L)" using l(1,3,4) by (auto simp: leader_wf_def)
  then have n: "1 \<le> ?n" "?n \<le> len (log L)" using l(1) by (auto simp: leader_wf_def)
  have a: "a = \<lparr>aeTerm = currentTerm L, LeaderId = me L, PrevLogIndex = ?n - 1,
      PrevLogTerm = TermIdx (log L ! nat (?n - 1)), Entries = drop (nat ?n) (log L),
      LeaderCommit = commitIndex L\<rparr>"
    using makeArgs_peer[OF l(1,3-5)] l(2) by (simp add: Let_def)
  have p: "?n - 1 < len (log F)" "TermIdx (log F ! nat (?n - 1)) = TermIdx (log L ! nat (?n - 1))"
    using f(3) by (simp_all add: a prevMatches_def)
  have "nat (?n - 1) = nat ?n - 1" using n by linarith
  then have "mergedLog (log F) (int (nat ?n) - 1) (drop (nat ?n) (log L)) = log L"
    using n p f(4) by (intro mergedLog_copies) (auto simp: nat_le_iff)
  then have m: "mergedLog (log F) (?n - 1) (drop (nat ?n) (log L)) = log L" using n(1) by simp
  have la: "-1 \<le> lastApplied F" using f(1) by (simp add: good_def raft_wf_def)
  have "currentTerm F \<le> aeTerm a" "0 \<le> PrevLogIndex a" using f(2) n(1) by (simp_all add: a)
  from AppendEntries_success[OF this f(3) la] show ?thesis
    using f(2) by (auto simp: a m Let_def)
qed

section \<open>Backtracking ends\<close>

text \<open>
  One round between the leader and peer \<open>j\<close>, and rounds until the follower accepts.
\<close>

definition exchange :: "int \<Rightarrow> 'c Raft \<Rightarrow> 'c Raft \<Rightarrow> ('c Raft \<times> 'c Raft \<times> bool) res" where
  "exchange j L F =
     bindR (leaderRound L) (\<lambda>args. bindR (idx args j) (\<lambda>a.
     bindR (AppendEntries F a) (\<lambda>(F, reply).
     bindR (leaderReply L args j reply) (\<lambda>(L, down). Inr (L, F, Success reply)))))"

fun catchUp :: "nat \<Rightarrow> int \<Rightarrow> 'c Raft \<Rightarrow> 'c Raft \<Rightarrow> ('c Raft \<times> 'c Raft \<times> bool) res" where
  "catchUp 0 j L F = Inr (L, F, False)"
| "catchUp (Suc k) j L F =
     bindR (exchange j L F) (\<lambda>(L, F, ok). if ok then Inr (L, F, True) else catchUp k j L F)"

definition pair_ok :: "int \<Rightarrow> 'c Raft \<Rightarrow> 'c Raft \<Rightarrow> bool" where
  "pair_ok j L F \<longleftrightarrow> leader_wf L \<and> good L \<and> 0 < currentTerm L \<and> 0 \<le> j \<and> j < int (peers L) \<and> j \<noteq> me L \<and>
     good F \<and> currentTerm F \<le> currentTerm L \<and> log_matching (log L) (log F)"

lemma pair_ok_args:
  assumes "pair_ok j L F"
  obtains args where "leaderRound L = Inr args" "round_ok L args"
    "idx args j = Inr (args ! nat j)" "makeArgs L j = Inr (args ! nat j)" "ae_wf (args ! nat j)"
    "aeTerm (args ! nat j) = currentTerm L" "PrevLogIndex (args ! nat j) = nextIndex L ! nat j - 1"
proof -
  have L: "leader_wf L" "good L" "0 < currentTerm L" and j: "0 \<le> j" "j < int (peers L)" "j \<noteq> me L"
    using assms by (simp_all add: pair_ok_def)
  obtain args where args: "leaderRound L = Inr args" "round_ok L args"
    and "\<And>j. j < peers L \<Longrightarrow> makeArgs L (int j) = Inr (args ! j)"
    using leaderRound_ok[OF L(1) good_log(2)[OF L(2)]] by blast
  then have m: "makeArgs L j = Inr (args ! nat j)" using j by (metis nat_0_le zless_nat_conj nat_less_iff)
  have "raft_wf L" using L(2) by (simp add: good_def)
  then have w: "ae_wf (args ! nat j)" "aeTerm (args ! nat j) = currentTerm L"
    using makeArgs_wf[OF _ m L(3) j(1)] by auto
  have "PrevLogIndex (args ! nat j) = nextIndex L ! nat j - 1"
    using makeArgs_peer[OF L(1) j] m by (auto simp: Let_def)
  moreover have "idx args j = Inr (args ! nat j)" using j args(2) by (simp add: round_ok_def)
  ultimately show thesis using that args m w by blast
qed

lemma exchange_step:
  assumes ok: "pair_ok j L F"
  obtains
    (accepted) L' F' where "exchange j L F = Inr (L', F', True)" "log F' = log L"
  | (rejected) L' F' where "exchange j L F = Inr (L', F', False)" "pair_ok j L' F'"
      "log L' = log L" "nextIndex L' ! nat j < nextIndex L ! nat j"
proof -
  obtain args where args: "leaderRound L = Inr args" "round_ok L args" "idx args j = Inr (args ! nat j)"
      "makeArgs L j = Inr (args ! nat j)" "ae_wf (args ! nat j)"
      "aeTerm (args ! nat j) = currentTerm L" "PrevLogIndex (args ! nat j) = nextIndex L ! nat j - 1"
    by (rule pair_ok_args[OF ok])
  let ?a = "args ! nat j"
  have L: "leader_wf L" "good L" and j: "0 \<le> j" "j < int (peers L)" "j \<noteq> me L"
    and F: "good F" "currentTerm F \<le> currentTerm L" "log_matching (log L) (log F)"
    using ok by (simp_all add: pair_ok_def)
  have lm: "-1 \<le> lastApplied L" "0 \<le> me L" using L(2) by (simp_all add: good_def raft_wf_def)
  show thesis
  proof (cases "prevMatches F ?a")
    case True
    let ?r = "\<lparr>aerTerm = currentTerm F, Success = True, NextIndex = 0\<rparr>"
    obtain F' where F': "AppendEntries F ?a = Inr (F', ?r)" "log F' = log L"
      using AppendEntries_copies[OF L(1) args(4) j F(1,2) True F(3)] by blast
    obtain L' where "leaderReply L args j ?r = Inr (L', False)"
      using leaderReply_leader_wf[OF L(1) lm(1) args(2) j lm(2), of ?r] F(2) by (auto simp: reply_ok_def)
    then show thesis using accepted[OF _ F'(2), of L'] args F'(1) by (simp add: exchange_def)
  next
    case False
    have p: "0 \<le> PrevLogIndex ?a" using args(5) by (simp add: ae_wf_def)
    obtain k where F': "AppendEntries F ?a = Inr (pokeElectionTimer (fst (updateTerm F (aeTerm ?a))),
        \<lparr>aerTerm = currentTerm F, Success = False, NextIndex = k\<rparr>)" and k: "1 \<le> k" "k \<le> PrevLogIndex ?a"
      using AppendEntries_missing[OF _ p False good_log(1)[OF F(1)] args(5)] F(2) args(6) by auto
    let ?F = "pokeElectionTimer (fst (updateTerm F (aeTerm ?a)))" and ?L = "L\<lparr>nextIndex := (nextIndex L)[nat j := k]\<rparr>"
    have len: "length (nextIndex L) = peers L" using L(1) by (simp add: leader_wf_def)
    have r: "leaderReply L args j \<lparr>aerTerm = currentTerm F, Success = False, NextIndex = k\<rparr> = Inr (?L, False)"
      using F(2) k(1) j len by (simp add: leaderReply_def)
    have "nextIndex L ! nat j \<in> set (nextIndex L)" using len j by simp
    then have "k \<le> len (log L)" using k args(7) L(1) by (auto simp: leader_wf_def)
    then have "leader_wf ?L" using nextIndex_upd[OF L(1) j(1,2) k(1)] by simp
    moreover have "good ?L" using leaderReply_good(1)[OF L(2) r] .
    moreover have "good ?F" using AppendEntries_good(1)[OF F(1) args(5) F'] .
    ultimately have "pair_ok j ?L ?F" using ok args(6) by (simp add: pair_ok_def)
    moreover have "nextIndex ?L ! nat j < nextIndex L ! nat j" using k args(7) j len by simp
    ultimately show thesis
      using rejected[of ?L ?F] args F' r by (simp add: exchange_def)
  qed
qed

lemma catchUp_ends:
  assumes "pair_ok j L F" "nextIndex L ! nat j \<le> int k"
  shows "\<exists>L' F'. catchUp k j L F = Inr (L', F', True) \<and> log F' = log L"
  using assms
proof (induction k arbitrary: L F)
  case 0
  have "nextIndex L ! nat j \<in> set (nextIndex L)" using 0(1) by (auto simp: pair_ok_def leader_wf_def)
  then show ?case using 0 by (auto simp: pair_ok_def leader_wf_def)
next
  case (Suc k)
  show ?case
  proof (rule exchange_step[OF Suc.prems(1)])
    fix L' F' assume "exchange j L F = Inr (L', F', True)" "log F' = log L"
    then show ?thesis by simp
  next
    fix L' F' assume r: "exchange j L F = Inr (L', F', False)" "pair_ok j L' F'"
      "log L' = log L" "nextIndex L' ! nat j < nextIndex L ! nat j"
    then have "nextIndex L' ! nat j \<le> int k" using Suc.prems(2) by simp
    from Suc.IH[OF r(2) this] show ?thesis using r by simp
  qed
qed

end
