(* ===== verification/Raft_Safety.thy ===== *)
theory Raft_Safety
  imports Raft_Election Raft_Replication
begin

text \<open>
  Facts about executions of a cluster: which events can panic, how terms and votes move along an
  execution, and the concrete executions that \<open>Raft_Properties.thy\<close> talks about.
\<close>

section \<open>Auxiliary facts about executions\<close>

lemma run_reach:
  assumes "clusterReach n s" "runEvents es s = Some (Inr t)"
  shows "clusterReach n t"
  using assms
proof (induction es arbitrary: s)
  case Nil
  then show ?case by simp
next
  case (Cons e es)
  then obtain s' where s': "exec e s = Some (Inr s')" "runEvents es s' = Some (Inr t)"
    by (auto split: option.splits sum.splits)
  then have "clusterStep s s'" by (auto simp: clusterStep_def)
  with Cons.prems(1) have "clusterReach n s'" by (rule reach_step)
  then show ?case using Cons.IH s'(2) by blast
qed

lemma run_init: "runEvents es (initCluster n) = Some (Inr t) \<Longrightarrow> clusterReach n t"
  by (rule run_reach[OF reach_init]) simp_all

lemma grants_unique:
  assumes "cinv n s" "(v, t, c) \<in> grants s" "(v, t, c') \<in> grants s"
  shows "c = c'"
  using assms by (auto simp: cinv_def grants_ok_def)

lemma wins_unique:
  assumes inv: "cinv n s" and "(t, c) \<in> wins s" "(t, c') \<in> wins s"
  shows "c = c'"
proof -
  obtain V V' where V: "V \<subseteq> {..<n}" "n div 2 < card V" "\<forall>v \<in> V. (v, t, c) \<in> grants s"
    and V': "V' \<subseteq> {..<n}" "n div 2 < card V'" "\<forall>v \<in> V'. (v, t, c') \<in> grants s"
    using assms unfolding cinv_def wins_ok_def by metis
  obtain v where "v \<in> V" "v \<in> V'" using majorities_meet[of "{..<n}" V V'] V V' by auto
  then show ?thesis using grants_unique[OF inv] V(3) V'(3) by blast
qed

text \<open>The sections of the routines and the handlers return in every state of the invariant.\<close>

lemma startElection_total: "good r \<Longrightarrow> \<exists>t. startElection i r s = Inr t"
  by (simp add: startElection_def candidateStart_ok Let_def)

lemma enterRoutine_total:
  assumes "good r"
  shows "\<exists>t. enterRoutine i r s = Inr t"
  using startElection_total[OF assms] leaderInit_ok[of r] good_lengths[OF assms] assms
  by (auto simp: enterRoutine_def good_def raft_wf_def)

lemma deliverVoteReq_total:
  assumes inv: "cinv n s"
  shows "deliverVoteReq k s \<noteq> Some (Inl e)"
proof
  assume d: "deliverVoteReq k s = Some (Inl e)"
  then have k: "k < length (voteReqs s)" by (auto simp: deliverVoteReq_def split: if_splits)
  obtain i j args where q: "voteReqs s ! k = (i, j, args)" by (cases "voteReqs s ! k") auto
  have "(i, j, args) \<in> set (voteReqs s)" using k q by (metis nth_mem)
  then have "j < n" using inv by (auto simp: cinv_def msgs_ok_def request_ok_def)
  then obtain r reply where "RequestVote (rf (procs s ! j)) args = Inr (r, reply)"
    using RequestVote_total[OF cinvD(2)[OF inv]] by blast
  then show False using d k q by (simp add: deliverVoteReq_def Let_def)
qed

lemma deliverAppReq_total:
  assumes inv: "cinv n s"
  shows "deliverAppReq k s \<noteq> Some (Inl e)"
proof
  assume d: "deliverAppReq k s = Some (Inl e)"
  then have k: "k < length (appReqs s)" by (auto simp: deliverAppReq_def split: if_splits)
  obtain i j rd args where q: "appReqs s ! k = (i, j, rd, args)" by (cases "appReqs s ! k") auto
  have "(i, j, rd, args) \<in> set (appReqs s)" using k q by (metis nth_mem)
  then have "j < n" "ae_wf args" using inv by (auto simp: cinv_def msgs_ok_def)
  then obtain r reply where "AppendEntries (rf (procs s ! j)) args = Inr (r, reply)"
    using AppendEntries_total[OF cinvD(2)[OF inv]] by blast
  then show False using d k q by (simp add: deliverAppReq_def Let_def)
qed

lemma deliverVoteRep_total:
  assumes inv: "cinv n s"
  shows "deliverVoteRep k s \<noteq> Some (Inl e)"
proof
  assume d: "deliverVoteRep k s = Some (Inl e)"
  then have k: "k < length (voteReps s)" by (auto simp: deliverVoteRep_def split: if_splits)
  obtain i j args reply where q: "voteReps s ! k = (i, j, args, reply)" by (cases "voteReps s ! k") auto
  have "(i, j, args, reply) \<in> set (voteReps s)" using k q by (metis nth_mem)
  then have "i < n" using inv by (auto simp: cinv_def msgs_ok_def request_ok_def)
  then have "good (fst (candidateReply (rf (procs s ! i)) reply))"
    using candidateReply_good(1)[OF cinvD(2)[OF inv]] by blast
  from enterRoutine_total[OF this, of i "s\<lparr>voteReps := removeAt k (voteReps s)\<rparr>"]
  show False
    using d k q by (auto simp: deliverVoteRep_def Let_def split: pc.splits if_splits prod.splits)
qed

lemma routine_total:
  assumes "cinv n s" "i < n"
  shows "followerTimer i t s \<noteq> Some (Inl e)" "followerReset i s \<noteq> Some (Inl e)"
    "candidateTimer i s \<noteq> Some (Inl e)" "demote i s \<noteq> Some (Inl e)" "terminate i s \<noteq> Some (Inl e)"
    "elected i s \<noteq> Some (Inl e)" "leaderTimer i s \<noteq> Some (Inl e)" "clientStart i c s \<noteq> Some (Inl e)"
    "killPeer i s \<noteq> Some (Inl e)" "restart i s \<noteq> Some (Inl e)" "applyOne i g s \<noteq> Some (Inl e)"
proof -
  let ?r = "rf (procs s ! i)"
  have g: "good ?r" using cinvD(2)[OF assms] .
  show "followerTimer i t s \<noteq> Some (Inl e)"
    using enterRoutine_total[of "followerTimeout ?r" i s] followerTimeout_good[OF g]
    by (auto simp: followerTimer_def split: pc.splits if_splits)
  show "candidateTimer i s \<noteq> Some (Inl e)"
    using startElection_total[OF g, of i s] by (auto simp: candidateTimer_def split: pc.splits)
  show "demote i s \<noteq> Some (Inl e)"
    using enterRoutine_total[of "?r\<lparr>toFollower := toFollower ?r - 1\<rparr>" i s] g
    by (auto simp: demote_def Let_def channels_good split: pc.splits if_splits)
  show "elected i s \<noteq> Some (Inl e)"
    using enterRoutine_total[of "becomeLeader ?r" i s] becomeLeader_good[OF g] cinvD(5)[OF assms]
    by (auto simp: elected_def split: pc.splits)
  show "clientStart i c s \<noteq> Some (Inl e)"
    using Start_total[OF g, of c] by (auto simp: clientStart_def)
qed (auto simp: followerReset_def terminate_def leaderTimer_def killPeer_def restart_def applyOne_def
      Let_def split: pc.splits if_splits)

lemma exec_panic:
  assumes inv: "cinv n s" and e: "exec e s = Some (Inl err)"
  shows "(\<exists>i. e = LeaderRound i) \<or> (\<exists>k. e = AppRep k)"
proof -
  have l: "n = length (procs s)" using inv by (simp add: cinv_def procs_ok_def)
  note inv' = inv[unfolded l]
  show ?thesis
    using e deliverVoteReq_total[OF inv'] deliverAppReq_total[OF inv'] deliverVoteRep_total[OF inv']
      routine_total[OF inv']
    by (cases e) (auto split: if_splits)
qed

section \<open>Terms and votes along an execution\<close>

definition moves :: "'c Cluster \<Rightarrow> 'c Cluster \<Rightarrow> bool" where
  "moves s s' \<longleftrightarrow> (\<forall>j. evolves (rf (procs s ! j)) (rf (procs s' ! j)))"

lemma moves_refl: "procs s' = procs s \<Longrightarrow> moves s s'"
  by (simp add: moves_def)

lemma moves_setProc:
  "i < length (procs s) \<Longrightarrow> evolves (rf (procs s ! i)) r \<Longrightarrow> procs s' = procs (setProc i r p s) \<Longrightarrow> moves s s'"
  by (simp add: moves_def setProc_nth)

lemma moves_startElection:
  assumes "i < length (procs s)" "good r" "evolves (rf (procs s ! i)) r" "startElection i r s = Inr s'"
  shows "moves s s'"
proof -
  let ?r = "persist (r\<lparr>currentTerm := currentTerm r + 1, votedFor := me r\<rparr>)"
  obtain a where "procs s' = procs (setProc i ?r (AtCandidate a 1) s)"
    using assms(4) candidateStart_ok[OF assms(2)] by (auto simp: startElection_def Let_def)
  moreover have "evolves (rf (procs s ! i)) ?r"
    using evolves_trans[OF assms(3) candidateStart_good(2)[OF assms(2)]] .
  ultimately show ?thesis using moves_setProc[OF assms(1)] by blast
qed

lemma moves_enterRoutine:
  assumes "i < length (procs s)" "good r" "evolves (rf (procs s ! i)) r" "enterRoutine i r s = Inr s'"
  shows "moves s s'"
proof (cases "status r = 0")
  case True
  then obtain r' where r': "leaderInit r = Inr r'" "s' = setProc i r' AtLeaderLoop s"
    using assms(4) by (auto simp: enterRoutine_def bindR_eq_Inr)
  then show ?thesis
    using moves_setProc[OF assms(1) evolves_trans[OF assms(3) leaderInit_good(2)[OF assms(2) r'(1)]]] by blast
next
  case False
  then show ?thesis
    using assms moves_startElection[OF assms(1-3), of s'] moves_setProc[OF assms(1,3)]
    by (auto simp: enterRoutine_def split: if_splits)
qed

lemma moves_routine:
  assumes "cinv n s" "i < n"
  shows "followerTimer i t s = Some (Inr s') \<Longrightarrow> moves s s'"
    "followerReset i s = Some (Inr s') \<Longrightarrow> moves s s'"
    "candidateTimer i s = Some (Inr s') \<Longrightarrow> moves s s'"
    "demote i s = Some (Inr s') \<Longrightarrow> moves s s'"
    "terminate i s = Some (Inr s') \<Longrightarrow> moves s s'"
    "elected i s = Some (Inr s') \<Longrightarrow> moves s s'"
    "sendRound i s = Some (Inr s') \<Longrightarrow> moves s s'"
    "leaderTimer i s = Some (Inr s') \<Longrightarrow> moves s s'"
    "clientStart i c s = Some (Inr s') \<Longrightarrow> moves s s'"
    "killPeer i s = Some (Inr s') \<Longrightarrow> moves s s'"
    "restart i s = Some (Inr s') \<Longrightarrow> moves s s'"
    "applyOne i g s = Some (Inr s') \<Longrightarrow> moves s s'"
proof -
  let ?r = "rf (procs s ! i)"
  have g: "good ?r" and l: "i < length (procs s)" using cinvD[OF assms] assms(2) by auto
  note chans = channels_good[OF g] channels_evolve
  show "moves s s'" if "followerTimer i t s = Some (Inr s')"
    using that moves_enterRoutine[OF l followerTimeout_good[OF g], of s']
    by (auto simp: followerTimer_def moves_refl split: pc.splits if_splits)
  show "moves s s'" if "candidateTimer i s = Some (Inr s')"
    using that moves_startElection[OF l g evolves_refl, of s'] by (auto simp: candidateTimer_def split: pc.splits)
  show "moves s s'" if "demote i s = Some (Inr s')"
    using that moves_enterRoutine[OF l chans(1) chans(6), of _ s']
    by (auto simp: demote_def Let_def split: pc.splits if_splits)
  show "moves s s'" if "elected i s = Some (Inr s')"
    using that moves_enterRoutine[OF l becomeLeader_good[OF g], of s'] cinvD(5)[OF assms]
    by (auto simp: elected_def split: pc.splits)
  show "moves s s'" if "sendRound i s = Some (Inr s')"
    using that l by (auto simp: sendRound_def Let_def bindR_eq_Inr moves_def nth_list_update split: pc.splits)
  show "moves s s'" if "clientStart i c s = Some (Inr s')"
    using that Start_good(2)[OF g, of c] moves_setProc[OF l] by (auto simp: clientStart_def bindR_eq_Inr)
  show "moves s s'" if "restart i s = Some (Inr s')"
    using that recovered_good(2)[OF g] moves_setProc[OF l]
    by (auto simp: restart_def Let_def Copy_same recovered_def[symmetric])
  show "moves s s'" if "followerReset i s = Some (Inr s')"
    using that moves_setProc[OF l chans(7)] by (auto simp: followerReset_def Let_def split: pc.splits if_splits)
  show "moves s s'" if "terminate i s = Some (Inr s')"
    using that moves_setProc[OF l chans(8)] by (auto simp: terminate_def Let_def split: pc.splits if_splits)
  show "moves s s'" if "leaderTimer i s = Some (Inr s')"
    using that moves_setProc[OF l evolves_refl] by (auto simp: leaderTimer_def split: pc.splits)
  show "moves s s'" if "killPeer i s = Some (Inr s')"
    using that moves_setProc[OF l chans(10)] by (auto simp: killPeer_def)
  show "moves s s'" if "applyOne i g' s = Some (Inr s')" for g'
    using that moves_setProc[OF l chans(9)] by (auto simp: applyOne_def Let_def split: if_splits)
qed

lemma moves_deliverVoteReq:
  assumes inv: "cinv n s" and d: "deliverVoteReq k s = Some (Inr s')"
  shows "moves s s'"
proof -
  have k: "k < length (voteReqs s)" using d by (auto simp: deliverVoteReq_def split: if_splits)
  obtain i j args where q: "voteReqs s ! k = (i, j, args)" by (cases "voteReqs s ! k") auto
  have "(i, j, args) \<in> set (voteReqs s)" using k q by (metis nth_mem)
  then have j: "j < n" "CandidateId args = int i"
    using inv by (auto simp: cinv_def msgs_ok_def request_ok_def)
  obtain r reply where r: "RequestVote (rf (procs s ! j)) args = Inr (r, reply)"
    "procs s' = procs (setProc j r (pc (procs s ! j)) s)"
    using d k q by (auto simp: deliverVoteReq_def Let_def bindR_eq_Inr)
  have "evolves (rf (procs s ! j)) r"
    using RequestVote_good(2)[OF cinvD(2)[OF inv j(1)] r(1)] j(2) by simp
  then show ?thesis using moves_setProc[of j s] r(2) cinvD(1)[OF inv j(1)] j(1) by blast
qed

lemma moves_deliverAppReq:
  assumes inv: "cinv n s" and d: "deliverAppReq k s = Some (Inr s')"
  shows "moves s s'"
proof -
  have k: "k < length (appReqs s)" using d by (auto simp: deliverAppReq_def split: if_splits)
  obtain i j rd args where q: "appReqs s ! k = (i, j, rd, args)" by (cases "appReqs s ! k") auto
  have "(i, j, rd, args) \<in> set (appReqs s)" using k q by (metis nth_mem)
  then have j: "j < n" "ae_wf args" using inv by (auto simp: cinv_def msgs_ok_def)
  obtain r reply where r: "AppendEntries (rf (procs s ! j)) args = Inr (r, reply)"
    "procs s' = procs (setProc j r (pc (procs s ! j)) s)"
    using d k q by (auto simp: deliverAppReq_def Let_def bindR_eq_Inr)
  have "evolves (rf (procs s ! j)) r"
    using AppendEntries_good(2)[OF cinvD(2)[OF inv j(1)] j(2) r(1)] .
  then show ?thesis using moves_setProc[of j s] r(2) cinvD(1)[OF inv j(1)] j(1) by blast
qed

lemma moves_deliverVoteRep:
  assumes inv: "cinv n s" and d: "deliverVoteRep k s = Some (Inr s')"
  shows "moves s s'"
proof -
  have k: "k < length (voteReps s)" using d by (auto simp: deliverVoteRep_def split: if_splits)
  obtain i j args reply where q: "voteReps s ! k = (i, j, args, reply)" by (cases "voteReps s ! k") auto
  let ?s = "s\<lparr>voteReps := removeAt k (voteReps s)\<rparr>" and ?c = "candidateReply (rf (procs s ! i)) reply"
  have "(i, j, args, reply) \<in> set (voteReps s)" using k q by (metis nth_mem)
  then have i: "i < n" using inv by (auto simp: cinv_def msgs_ok_def request_ok_def)
  then have l: "i < length (procs s)" using cinvD(1)[OF inv i] by simp
  have c: "good (fst ?c)" "evolves (rf (procs s ! i)) (fst ?c)"
    using candidateReply_good[OF cinvD(2)[OF inv i]] by auto
  have "moves ?s t" if "enterRoutine i (fst ?c) ?s = Inr t" for t
    using moves_enterRoutine[of i ?s, OF _ c(1) _ that] c(2) l by simp
  then have "moves s t" if "enterRoutine i (fst ?c) ?s = Inr t" for t
    using that by (simp add: moves_def)
  moreover have "moves s t" if "procs t = procs (setProc i (fst ?c) p ?s)" for t p
    using that moves_setProc[OF l c(2), of t p] by (simp add: setProc_def)
  ultimately show ?thesis
    using d k q moves_refl[of ?s s]
    by (auto simp: deliverVoteRep_def Let_def split: pc.splits if_splits prod.splits)
qed

lemma moves_deliverAppRep:
  assumes inv: "cinv n s" and d: "deliverAppRep k s = Some (Inr s')"
  shows "moves s s'"
proof -
  have k: "k < length (appReps s)" using d by (auto simp: deliverAppRep_def split: if_splits)
  obtain i j rd reply where q: "appReps s ! k = (i, j, rd, reply)" by (cases "appReps s ! k") auto
  let ?s = "s\<lparr>appReps := removeAt k (appReps s)\<rparr>" and ?r = "rf (procs s ! i)"
  have "(i, j, rd, reply) \<in> set (appReps s)" using k q by (metis nth_mem)
  then have i: "i < n" using inv by (auto simp: cinv_def msgs_ok_def)
  then have l: "i < length (procs s)" using cinvD(1)[OF inv i] by simp
  have c: "moves s t" if "leaderReply ?r args (int j) reply = Inr (r, down)"
    "(if down then enterRoutine i r ?s else Inr (setProc i r p ?s)) = Inr t" for args r down p t
  proof (cases down)
    case True
    then have "moves ?s t"
      using moves_enterRoutine[of i ?s r t] leaderReply_good[OF cinvD(2)[OF inv i] that(1)] l that(2) by simp
    then show ?thesis by (simp add: moves_def)
  next
    case False
    then have "procs t = procs (setProc i r p s)" using that(2) by (auto simp: setProc_def)
    then show ?thesis
      using moves_setProc[OF l leaderReply_good(2)[OF cinvD(2)[OF inv i] that(1)]] by blast
  qed
  show ?thesis
    using d k q c moves_refl[of ?s s]
    by (auto simp: deliverAppRep_def Let_def bindR_eq_Inr split: pc.splits if_splits)
qed

lemma exec_moves:
  assumes inv: "cinv n s" and e: "exec e s = Some (Inr s')"
  shows "moves s s'"
proof -
  have l: "n = length (procs s)" using inv by (simp add: cinv_def procs_ok_def)
  note inv' = inv[unfolded l]
  show ?thesis
    using e
    by (cases e) (auto split: if_splits intro: moves_refl moves_routine[OF inv'] moves_deliverVoteReq[OF inv'] moves_deliverAppReq[OF inv']
          moves_deliverVoteRep[OF inv'] moves_deliverAppRep[OF inv'])
qed

lemma steps_move:
  assumes "clusterStep\<^sup>*\<^sup>* s t" "cinv n s"
  shows "moves s t"
  using assms(1)
proof (induction rule: rtranclp_induct)
  case base
  then show ?case by (simp add: moves_refl)
next
  case (step t u)
  have "cinv n t" using cluster_inv.inv_steps[OF step.hyps(1) assms(2)] .
  then have "moves t u" using step.hyps(2) exec_moves by (auto simp: clusterStep_def)
  then show ?case using step.IH evolves_trans unfolding moves_def by blast
qed

section \<open>Executions\<close>

text \<open>The cluster after a list of events from the initial one (the initial one if an event is not enabled).\<close>

definition runTo :: "nat \<Rightarrow> 'c event list \<Rightarrow> 'c Cluster" where
  "runTo n es = (case runEvents es (initCluster n) of Some (Inr s) \<Rightarrow> s | _ \<Rightarrow> initCluster n)"

lemma runTo_reach: "clusterReach n (runTo n es)"
  by (auto simp: runTo_def intro: run_init reach_init split: option.splits sum.splits)

text \<open>Peer 0 of three wins the first election with the vote of peer 1 and sends a round.\<close>

definition electRun :: "string event list" where
  "electRun = [FollowerTimer 0 1, VoteReq 0, VoteRep 0, Elected 0, LeaderRound 0]"

text \<open>
  Peer 2 of three votes for peer 0 in term 1. Before peer 0 counts that vote it grants peer 1's
  request of term 2; then both count their votes and take the lead, in term 2.
\<close>

definition twoLeadersRun :: "string event list" where
  "twoLeadersRun = [FollowerTimer 0 1, VoteReq 1, FollowerTimer 1 1, CandidateTimer 1, VoteReq 3,
     VoteRep 0, Elected 0, VoteRep 0, Elected 1]"

text \<open>Each of the two leaders gets a command of its own onto a majority, and applies it.\<close>

definition divergeRun :: "string event list" where
  "divergeRun = twoLeadersRun @
     [ClientStart 0 ''a'', ClientStart 1 ''b'', LeaderRound 0, AppReq 1, AppRep 0,
      LeaderRound 1, AppReq 2, AppRep 0]"

text \<open>
  Peer 0 of five leads term 1 and replicates an entry to peer 2 only; peer 1 wins term 2 with the
  votes of 3 and 4, its heartbeat empties the log of peer 0, and peer 0 starts another round.
\<close>

definition deposedRun :: "string event list" where
  "deposedRun = [FollowerTimer 0 1, VoteReq 0, VoteReq 0, VoteRep 0, VoteRep 0, Elected 0,
     ClientStart 0 ''a'', LeaderRound 0, AppReq 1, AppRep 0,
     FollowerTimer 1 1, VoteReq 4, VoteReq 4, VoteRep 0, VoteRep 0, Elected 1,
     LeaderRound 1, AppReq 3, LeaderTimer 0]"

text \<open>
  A heartbeat of peer 0 to peer 1 is delayed until peer 1 has stored, committed and applied the
  next entry.
\<close>

definition delayedRun :: "string event list" where
  "delayedRun = electRun @
     [LeaderTimer 0, ClientStart 0 ''a'', LeaderRound 0, AppReq 2, AppRep 0,
      LeaderTimer 0, LeaderRound 0, AppReq 3, AppReq 0]"

text \<open>Peer 0 of four commits an entry that only peer 1 has acknowledged.\<close>

definition evenRun :: "string event list" where
  "evenRun = [FollowerTimer 0 1, VoteReq 0, VoteReq 0, VoteRep 0, VoteRep 0, Elected 0,
     ClientStart 0 ''a'', LeaderRound 0, AppReq 0, AppRep 0]"

text \<open>Peer 1 of three has acknowledged an entry and restarts.\<close>

definition ackRun :: "string event list" where
  "ackRun = [FollowerTimer 0 1, VoteReq 0, VoteRep 0, Elected 0, ClientStart 0 ''a'', LeaderRound 0,
     AppReq 0, AppRep 0, Restart 1]"

text \<open>
  Peer 0 of three stores two commands, restarts, and is elected again; its first guess for peer 1,
  whose log is empty, is wrong.
\<close>

definition catchRun :: "string event list" where
  "catchRun = [FollowerTimer 0 1, VoteReq 0, VoteRep 0, Elected 0, ClientStart 0 ''a'', ClientStart 0 ''b'',
     Restart 0, FollowerTimer 0 1, VoteReq 1, VoteRep 0, Elected 0]"

lemma good_run:
  assumes "i < n"
  shows "good (rf (procs (runTo n es) ! i))" and "me (rf (procs (runTo n es) ! i)) = int i"
    and "peers (rf (procs (runTo n es) ! i)) = n"
  using cinvD[OF cluster_inv.inv_reach[OF runTo_reach] assms] by auto

end
