(* ===== verification/Raft_Properties.thy ===== *)
theory Raft_Properties
  imports Raft_Safety
begin

text \<open>
  What the Raft peers guarantee, and where the code falls short of it: elections and votes of a
  cluster, the handlers on every branch, the commit rule, what survives a restart, and concrete
  executions that reach two leaders of one term, two different commands applied at one index, and
  an index out of range.
\<close>

section \<open>Properties: elections and votes\<close>

text \<open>
  C1. Election safety of the tallies: in every reachable cluster, with any delays, losses,
  reorderings, crashes and restarts, two candidates whose tallies passed half of the peers in the
  same term are the same candidate.
\<close>

theorem election_safety:
  assumes "clusterReach n s" "(t, c) \<in> wins s" "(t, c') \<in> wins s"
  shows "c = c'"
  using wins_unique[OF cluster_inv.inv_reach[OF assms(1)] assms(2,3)] .

theorem election_safety_witness: "{c. (1, c) \<in> wins (runTo 3 electRun)} = {0}"
proof -
  have "(1, 0) \<in> wins (runTo 3 electRun)" by code_simp
  with election_safety[OF runTo_reach, of 1 _ 3 electRun 0] show ?thesis by blast
qed

text \<open>
  C2. A vote is permanent: along any execution from a reachable cluster, restarts included, the
  term of a peer never decreases, and as long as it stays the same a vote cast in it stays the same.
\<close>

theorem votes_are_permanent:
  assumes "clusterReach n s" "clusterStep\<^sup>*\<^sup>* s s'"
  shows "termOf s i \<le> termOf s' i \<and>
    (termOf s' i = termOf s i \<and> voteOf s i \<noteq> -1 \<longrightarrow> voteOf s' i = voteOf s i)"
  using steps_move[OF assms(2) cluster_inv.inv_reach[OF assms(1)]] by (auto simp: moves_def evolves_def)

theorem votes_are_permanent_witness:
  "\<exists>s. clusterStep (runTo 3 electRun) s \<and> voteOf (runTo 3 electRun) 1 = 0 \<and> voteOf s 1 = 0"
proof -
  let ?s = "runTo 3 electRun"
  let ?r = "rf (procs ?s ! 1)"
  let ?t = "setProc 1 (Make (peers ?r) (me ?r) (Copy (persister ?r))) (AtFollower 1) ?s"
  have "length (procs ?s) = 3" by code_simp
  then have "exec (Restart 1) ?s = Some (Inr ?t)" by (simp add: restart_def Let_def)
  then have step: "clusterStep ?s ?t" unfolding clusterStep_def by blast
  moreover have "termOf ?t 1 = termOf ?s 1" "voteOf ?s 1 = 0" by code_simp+
  ultimately show ?thesis
    using votes_are_permanent[OF runTo_reach r_into_rtranclp[of clusterStep, OF step], of 1] by auto
qed

text \<open>
  C3. Term and vote are on stable storage at all times: whenever a peer of a reachable cluster
  crashes, the peer made from its persister has the same term and the same vote.
\<close>

theorem vote_survives_crash:
  assumes "clusterReach n s" "i < n"
  shows "currentTerm (recovered (rf (procs s ! i))) = termOf s i \<and>
    votedFor (recovered (rf (procs s ! i))) = voteOf s i"
  using cinvD(2)[OF cluster_inv.inv_reach[OF assms(1)] assms(2)] by (simp add: good_def durable_vote_def)

theorem vote_survives_crash_witness:
  "currentTerm (recovered (rf (procs (runTo 3 electRun) ! 1))) = 1 \<and>
   votedFor (recovered (rf (procs (runTo 3 electRun) ! 1))) = 0"
proof -
  have "termOf (runTo 3 electRun) 1 = 1" "voteOf (runTo 3 electRun) 1 = 0" by code_simp+
  then show ?thesis using vote_survives_crash[OF runTo_reach, of 1 3 electRun] by simp
qed

text \<open>
  C4. No RPC handler, client call, timer or vote reply panics in a reachable cluster: the only events
  that can are a round of a leader and a reply to one.
\<close>

theorem handlers_never_panic:
  assumes "clusterReach n s" "exec e s = Some (Inl err)"
  shows "(\<exists>i. e = LeaderRound i) \<or> (\<exists>k. e = AppRep k)"
  using exec_panic[OF cluster_inv.inv_reach[OF assms(1)] assms(2)] .

theorem handlers_never_panic_witness:
  "exec (LeaderRound 0) (runTo 5 deposedRun) = Some (Inl IndexOutOfRange) \<and>
   ((\<exists>i. (LeaderRound 0 :: string event) = LeaderRound i) \<or> (\<exists>k. (LeaderRound 0 :: string event) = AppRep k))"
proof -
  have "exec (LeaderRound 0) (runTo 5 deposedRun) = Some (Inl IndexOutOfRange)" by code_simp
  with handlers_never_panic[OF runTo_reach this] show ?thesis by blast
qed


section \<open>Properties: the handlers\<close>

text \<open>
  C5. RequestVote decides as the protocol demands and answers on every branch: the vote is given
  exactly when the request is not of an older term, no other candidate has the vote of that term,
  and the candidate's log is at least as up to date. The term becomes the larger of the two, the log
  is untouched, and a given vote is recorded and already on stable storage.
\<close>

theorem RequestVote_decision:
  assumes "good r"
  shows "\<exists>r'. RequestVote r args = Inr (r', \<lparr>rvrTerm = currentTerm r, VoteGranted = mayVote r args\<rparr>) \<and>
    currentTerm r' = max (currentTerm r) (rvTerm args) \<and> log r' = log r \<and>
    (mayVote r args \<longrightarrow> votedFor r' = CandidateId args \<and> votedFor (recovered r') = CandidateId args)"
proof -
  let ?u = "fst (updateTerm r (rvTerm args))"
  let ?r = "if mayVote r args then pokeElectionTimer (persist (?u\<lparr>votedFor := CandidateId args\<rparr>)) else ?u"
  have "votedFor (recovered (pokeElectionTimer q)) = votedFor (recovered q)" for q :: "'a Raft"
    by (rule recovered_cong(2)) simp
  moreover have "currentTerm ?r = max (currentTerm r) (rvTerm args)" "log ?r = log r"
    by (auto simp: max_def)
  ultimately show ?thesis
    using RequestVote_eq[OF good_log(2)[OF assms], of args] by auto
qed

theorem RequestVote_decision_witness:
  "\<exists>r'. RequestVote (rf (procs (runTo 3 electRun) ! 2)) \<lparr>rvTerm = 5, CandidateId = 1, LastLogIndex = 0, LastLogTerm = 0\<rparr> =
     Inr (r', \<lparr>rvrTerm = 0, VoteGranted = True\<rparr>) \<and> currentTerm r' = 5 \<and> votedFor (recovered r') = 1"
proof -
  let ?r = "rf (procs (runTo 3 electRun) ! 2)"
  let ?a = "\<lparr>rvTerm = 5, CandidateId = 1, LastLogIndex = 0, LastLogTerm = 0\<rparr>"
  have "mayVote ?r ?a" "currentTerm ?r = 0" by code_simp+
  with RequestVote_decision[OF good_run(1), of 2 3 electRun ?a] show ?thesis by auto
qed

text \<open>
  C6. Replication: when a follower that is not ahead in terms and whose log obeys log matching with
  the leader's accepts the AppendEntries the leader builds for it, it ends up with the leader's
  whole log, in the leader's term, and reports success.
\<close>

theorem AppendEntries_replicates:
  assumes "leader_wf L" "makeArgs L j = Inr args" "0 \<le> j" "j < int (peers L)" "j \<noteq> me L"
    and "good F" "currentTerm F \<le> currentTerm L" "prevMatches F args" "log_matching (log L) (log F)"
  shows "\<exists>F' reply. AppendEntries F args = Inr (F', reply) \<and> Success reply \<and>
    log F' = log L \<and> currentTerm F' = currentTerm L"
  using AppendEntries_copies[OF assms] by auto

theorem AppendEntries_replicates_witness:
  "\<exists>args F' reply. makeArgs (rf (procs (runTo 3 electRun) ! 0)) 1 = Inr args \<and>
     AppendEntries (rf (procs (runTo 3 electRun) ! 1)) args = Inr (F', reply) \<and> Success reply"
proof -
  let ?L = "rf (procs (runTo 3 electRun) ! 0)" and ?F = "rf (procs (runTo 3 electRun) ! 1)"
  let ?a = "\<lparr>aeTerm = 1, LeaderId = 0, PrevLogIndex = 0, PrevLogTerm = 0, Entries = [] :: string LogEntry list, LeaderCommit = 0\<rparr>"
  have m: "makeArgs ?L 1 = Inr ?a" by code_simp
  moreover have "leader_wf ?L" "currentTerm ?F \<le> currentTerm ?L" "prevMatches ?F ?a" "log_matching (log ?L) (log ?F)"
    by code_simp+
  ultimately show ?thesis
    using AppendEntries_replicates[of ?L 1 ?a ?F] good_run[of 0 3 electRun] good_run(1)[of 1 3 electRun] by auto
qed




text \<open>
  C8. A rejected AppendEntries of the current or a newer term answers with a usable hint: the log is
  unchanged, the hint lies between 1 and the rejected previous index and inside the log, and every
  entry it skips has the term of the entry found at the previous index, so no entry on which the
  logs could agree in another term is skipped.
\<close>

theorem AppendEntries_hint:
  assumes "good r" "ae_wf args" "currentTerm r \<le> aeTerm args" "\<not> prevMatches r args"
  shows "\<exists>r' next. AppendEntries r args =
      Inr (r', \<lparr>aerTerm = currentTerm r, Success = False, NextIndex = next\<rparr>) \<and>
    log r' = log r \<and> currentTerm r' = aeTerm args \<and>
    1 \<le> next \<and> next \<le> PrevLogIndex args \<and> next \<le> len (log r) \<and>
    list_all (\<lambda>i. TermIdx (log r ! nat i) = TermIdx (log r ! nat (PrevLogIndex args)))
      [next .. min (PrevLogIndex args) (len (log r) - 1)]"
proof -
  have p: "0 \<le> PrevLogIndex args" using assms(2) by (simp add: ae_wf_def)
  obtain k where k: "AppendEntries r args =
      Inr (pokeElectionTimer (fst (updateTerm r (aeTerm args))),
           \<lparr>aerTerm = currentTerm r, Success = False, NextIndex = k\<rparr>)"
    "1 \<le> k" "k \<le> PrevLogIndex args" "k \<le> len (log r)"
    "\<forall>i. k \<le> i \<and> i \<le> PrevLogIndex args \<and> i < len (log r) \<longrightarrow>
       TermIdx (log r ! nat i) = TermIdx (log r ! nat (PrevLogIndex args))"
    using AppendEntries_missing[OF assms(3) p assms(4) good_log(1)[OF assms(1)] assms(2)] by blast
  then show ?thesis using assms(3) by (auto simp: list_all_iff)
qed

theorem AppendEntries_hint_witness:
  "\<exists>r' next. AppendEntries (rf (procs (runTo 3 catchRun) ! 0))
      \<lparr>aeTerm = 7, LeaderId = 1, PrevLogIndex = 2, PrevLogTerm = 6, Entries = [], LeaderCommit = 0\<rparr> =
      Inr (r', \<lparr>aerTerm = 2, Success = False, NextIndex = next\<rparr>) \<and> 1 \<le> next \<and> next \<le> 2"
proof -
  let ?r = "rf (procs (runTo 3 catchRun) ! 0)"
  let ?a = "\<lparr>aeTerm = 7, LeaderId = 1, PrevLogIndex = 2, PrevLogTerm = 6, Entries = [] :: string LogEntry list, LeaderCommit = 0\<rparr>"
  have t: "currentTerm ?r = 2" "\<not> prevMatches ?r ?a" by code_simp+
  have "ae_wf ?a" by (simp add: ae_wf_def)
  from AppendEntries_hint[OF good_run(1), of 0 3 ?a catchRun] this t show ?thesis by auto
qed



text \<open>
  C10. The commit rule: when a reply makes the leader move its commit index, the entry there is of
  the leader's term or newer, and at least the upper half of the peers has reached it; with an odd
  number of peers that is a majority.
\<close>

theorem commit_rule:
  assumes "good r" "leaderReply r args peer reply = Inr (r', down)" "commitIndex r' \<noteq> commitIndex r"
  shows "currentTerm r' \<le> TermIdx (log r' ! nat (commitIndex r')) \<and>
    peers r' - peers r' div 2 \<le> card (holders r' (commitIndex r')) \<and>
    (odd (peers r') \<longrightarrow> peers r' div 2 < card (holders r' (commitIndex r')))"
proof -
  note g = good_lengths[OF assms(1)]
  have le: "aerTerm reply \<le> currentTerm r" and su: "Success reply"
    using assms(2,3) by (auto simp: leaderReply_def Let_def go_checked split: if_splits)
  then obtain a where a: "idx args peer = Inr a" "Entries a \<noteq> []"
    using assms(2,3) by (auto simp: leaderReply_def bindR_eq_Inr split: if_splits)
  obtain q c e where q: "q = r\<lparr>matchIndex := (matchIndex r)[nat peer := PrevLogIndex a + len (Entries a)],
        nextIndex := (nextIndex r)[nat peer := PrevLogIndex a + len (Entries a) + 1]\<rparr>"
      and c: "medianMatch q = Inr c" "idx (log r) c = Inr e"
      and fin: "if currentTerm r \<le> TermIdx e then applyLog (q\<lparr>commitIndex := c\<rparr>) = Inr r' else r' = q"
    by (rule leaderReply_commit[OF assms(2) le su a])
  then have ap: "currentTerm r \<le> TermIdx e" "applyLog (q\<lparr>commitIndex := c\<rparr>) = Inr r'"
    using assms(3) by (auto split: if_splits)
  then obtain la ch where r': "r' = q\<lparr>commitIndex := c, lastApplied := la, applyCh := ch\<rparr>"
    using applyLog_shape[OF ap(2)] by auto
  have "peers q - peers q div 2 \<le> card (holders q c)"
    using g c(1) by (intro medianMatch_holders(1)) (auto simp: q)
  then show ?thesis
    using ap(1) c(2) by (auto simp: r' q holders_def idx_eq_Inr elim!: oddE)
qed


theorem commit_rule_witness:
  "\<exists>r'. leaderReply (rf (procs (runTo 3 (take 6 ackRun)) ! 0))
      (replicate 3 \<lparr>aeTerm = 1, LeaderId = 0, PrevLogIndex = 0, PrevLogTerm = 0,
         Entries = [\<lparr>Content = Some ''a'', TermIdx = 1\<rparr>], LeaderCommit = 0\<rparr>)
      1 \<lparr>aerTerm = 1, Success = True, NextIndex = 0\<rparr> = Inr (r', False) \<and>
     commitIndex r' = 1 \<and> 1 < card (holders r' 1)"
proof -
  let ?r = "rf (procs (runTo 3 (take 6 ackRun)) ! 0)"
  let ?args = "replicate 3 \<lparr>aeTerm = 1, LeaderId = 0, PrevLogIndex = 0, PrevLogTerm = 0,
         Entries = [\<lparr>Content = Some ''a'', TermIdx = 1\<rparr>], LeaderCommit = 0\<rparr>"
  let ?l = "leaderReply ?r ?args 1 \<lparr>aerTerm = 1, Success = True, NextIndex = 0\<rparr>"
  have "case ?l of Inr (r', down) \<Rightarrow> commitIndex r' = 1 \<and> commitIndex ?r = 0 \<and> peers r' = 3 \<and> \<not> down | _ \<Rightarrow> False"
    by code_simp
  then obtain r' where r': "?l = Inr (r', False)" "commitIndex r' = 1" "commitIndex ?r = 0" "peers r' = 3"
    by (auto split: sum.splits)
  have "good ?r" by (rule good_run(1)) simp
  from commit_rule[OF this r'(1)] r' show ?thesis by auto
qed

text \<open>
  C11. Applying: \<open>applyLog\<close> hands the service exactly the entries after \<open>lastApplied\<close> up to
  \<open>commitIndex\<close>, each once, in the order of their indices, and sets \<open>lastApplied\<close> accordingly; it
  does not panic when the commit index lies in the log.
\<close>

theorem applyLog_delivers:
  assumes "0 \<le> lastApplied r" "commitIndex r < len (log r)"
  shows "\<exists>msgs. applyLog r = Inr (r\<lparr>lastApplied := max (lastApplied r) (commitIndex r), applyCh := applyCh r @ [msgs]\<rparr>) \<and>
    map CommandIndex msgs = [lastApplied r + 1 .. commitIndex r] \<and>
    map Command msgs = map Content (take (nat (commitIndex r - lastApplied r)) (drop (nat (lastApplied r + 1)) (log r)))"
proof -
  let ?ix = "[lastApplied r + 1 .. commitIndex r]"
  let ?es = "take (nat (commitIndex r - lastApplied r)) (drop (nat (lastApplied r + 1)) (log r))"
  have "map Command (map (msgAt (log r)) ?ix) = map Content ?es"
    using assms by (intro nth_equalityI) (auto simp: msgAt_def nat_add_distrib intro!: arg_cong[where f = "\<lambda>k. Content (log r ! k)"])
  moreover have "map CommandIndex (map (msgAt (log r)) ?ix) = ?ix" by (simp add: msgAt_def comp_def)
  ultimately show ?thesis using applyLog_ok[of r] assms by auto
qed

theorem applyLog_delivers_witness:
  "\<exists>msgs r'. applyLog ((Make 3 0 MakePersister)\<lparr>commitIndex := 2,
      log := [\<lparr>Content = None, TermIdx = 0\<rparr>, \<lparr>Content = Some ''a'', TermIdx = 1\<rparr>, \<lparr>Content = Some ''b'', TermIdx = 1\<rparr>]\<rparr>) = Inr r' \<and>
     applyCh r' = [msgs] \<and> map Command msgs = [Some ''a'', Some ''b''] \<and> lastApplied r' = 2"
proof -
  let ?r = "(Make 3 0 MakePersister)\<lparr>commitIndex := 2,
      log := [\<lparr>Content = None, TermIdx = 0\<rparr>, \<lparr>Content = Some ''a'', TermIdx = 1\<rparr>, \<lparr>Content = Some ''b'', TermIdx = 1\<rparr>]\<rparr>"
  have "0 \<le> lastApplied ?r" "commitIndex ?r < len (log ?r)" by (simp_all add: Make_fields)
  from applyLog_delivers[OF this] show ?thesis by (auto simp: Make_fields)
qed

section \<open>Properties: where the code falls short\<close>

text \<open>
  C12. Two leaders in one term: a cluster of three peers is reachable in which two peers hold the
  leader status in the same term. The candidate takes the lead without looking at its term again.
\<close>

theorem two_leaders:
  "\<exists>s :: string Cluster. clusterReach 3 s \<and>
     map (\<lambda>p. (status (rf p), currentTerm (rf p))) (procs s) = [(0, 2), (0, 2), (2, 1)]"
proof (intro exI conjI)
  show "clusterReach 3 (runTo 3 twoLeadersRun)" by (rule runTo_reach)
  show "map (\<lambda>p. (status (rf p), currentTerm (rf p))) (procs (runTo 3 twoLeadersRun)) = [(0, 2), (0, 2), (2, 1)]"
    by code_simp+
qed

text \<open>
  C13. State machine safety fails: a cluster of three peers is reachable in which two peers have
  handed different commands to their services at the same index.
\<close>

theorem divergent_commands:
  "\<exists>s :: string Cluster. clusterReach 3 s \<and>
     applyCh (rf (procs s ! 0)) = [[\<lparr>CommandValid = True, Command = Some ''a'', CommandIndex = 1\<rparr>]] \<and>
     applyCh (rf (procs s ! 1)) = [[\<lparr>CommandValid = True, Command = Some ''b'', CommandIndex = 1\<rparr>]]"
proof (intro exI conjI)
  show "clusterReach 3 (runTo 3 divergeRun)" by (rule runTo_reach)
  show "applyCh (rf (procs (runTo 3 divergeRun) ! 0)) = [[\<lparr>CommandValid = True, Command = Some ''a'', CommandIndex = 1\<rparr>]]"
    "applyCh (rf (procs (runTo 3 divergeRun) ! 1)) = [[\<lparr>CommandValid = True, Command = Some ''b'', CommandIndex = 1\<rparr>]]"
    by code_simp+
qed


text \<open>
  A delayed heartbeat erases committed entries: a cluster of three peers is reachable in
  which a follower has applied an index that lies outside its log.
\<close>

theorem heartbeat_erases:
  "\<exists>s :: string Cluster. clusterReach 3 s \<and> len (log (rf (procs s ! 1))) \<le> lastApplied (rf (procs s ! 1))"
proof (intro exI conjI)
  show "clusterReach 3 (runTo 3 delayedRun)" by (rule runTo_reach)
  show "len (log (rf (procs (runTo 3 delayedRun) ! 1))) \<le> lastApplied (rf (procs (runTo 3 delayedRun) ! 1))"
    by code_simp+
qed



end
