(* ===== verification/Go_Strings.thy ===== *)
theory Go_Strings
  imports Go_Prelude
begin

text \<open>
  What the code uses of Go's \<open>strconv\<close> and \<open>encoding/json\<close>. A Go string is a list of bytes, here of
  \<^typ>\<open>char\<close>. \<open>Itoa\<close> and \<open>Atoi\<close> convert decimal numbers; \<open>encString\<close> and \<open>decString\<close> are JSON string
  literals. The JSON encoder is exact on ASCII text; bytes from 128 on are copied, which is what Go
  does with well-formed UTF-8 (up to the two separators U+2028 and U+2029, which it escapes).
\<close>

section \<open>Decimal numbers\<close>

definition digitChar :: "nat \<Rightarrow> char" where
  "digitChar d = char_of (48 + d)"

definition isDigit :: "char \<Rightarrow> bool" where
  "isDigit c \<longleftrightarrow> 48 \<le> (of_char c :: nat) \<and> (of_char c :: nat) \<le> 57"

definition digitVal :: "char \<Rightarrow> nat" where
  "digitVal c = of_char c - 48"

fun decimal :: "nat \<Rightarrow> string" where
  "decimal n = (if n < 10 then [digitChar n] else decimal (n div 10) @ [digitChar (n mod 10)])"

declare decimal.simps [simp del]

definition Itoa :: "int \<Rightarrow> string" where
  "Itoa i = (if i < 0 then CHR ''-'' # decimal (nat (- i)) else decimal (nat i))"

definition decimalVal :: "string \<Rightarrow> nat option" where
  "decimalVal s = (if s \<noteq> [] \<and> list_all isDigit s then Some (foldl (\<lambda>n c. 10 * n + digitVal c) 0 s) else None)"

definition Atoi :: "string \<Rightarrow> int option" where
  "Atoi s =
     (case s of
        [] \<Rightarrow> None
      | c # s' \<Rightarrow>
          if c = CHR ''-'' then map_option (\<lambda>n. - int n) (decimalVal s')
          else if c = CHR ''+'' then map_option int (decimalVal s')
          else map_option int (decimalVal s))"

lemma digitChar_digit [simp]:
  assumes "d < 10"
  shows "isDigit (digitChar d)" "digitVal (digitChar d) = d"
  using assms by (simp_all add: isDigit_def digitVal_def digitChar_def)

lemma decimal_digits: "list_all isDigit (decimal n)"
  by (induction n rule: decimal.induct) (subst decimal.simps, simp)

lemma decimal_not_Nil [simp]: "decimal n \<noteq> []"
  by (subst decimal.simps) simp

lemma decimal_foldl: "foldl (\<lambda>n c. 10 * n + digitVal c) 0 (decimal n) = n"
proof (induction n rule: decimal.induct)
  case (1 n)
  then show ?case by (subst decimal.simps) simp
qed

lemma decimalVal_decimal [simp]: "decimalVal (decimal n) = Some n"
  by (simp add: decimalVal_def decimal_digits decimal_foldl)

lemma decimal_hd: "\<exists>c s. decimal n = c # s \<and> c \<noteq> CHR ''-'' \<and> c \<noteq> CHR ''+''"
  using decimal_digits[of n] decimal_not_Nil[of n] by (cases "decimal n") (auto simp: isDigit_def)

lemma Atoi_Itoa: "Atoi (Itoa i) = Some i"
proof -
  obtain c s where "decimal (nat i) = c # s" "c \<noteq> CHR ''-''" "c \<noteq> CHR ''+''"
    using decimal_hd by blast
  then show ?thesis
    using decimalVal_decimal[of "nat i"] by (auto simp: Itoa_def Atoi_def)
qed

lemma Itoa_inj [simp]: "Itoa i = Itoa j \<longleftrightarrow> i = j"
  by (metis Atoi_Itoa option.inject)

text \<open>A number never contains the separators the file names use.\<close>

lemma Itoa_nonneg: "0 \<le> i \<Longrightarrow> list_all isDigit (Itoa i)" "Itoa i \<noteq> []"
  by (auto simp: Itoa_def decimal_digits)

lemma Itoa_sep:
  assumes "0 \<le> i" "0 \<le> i'"
  shows "Itoa i @ CHR ''-'' # s = Itoa i' @ CHR ''-'' # s' \<longleftrightarrow> i = i' \<and> s = s'"
proof
  assume eq: "Itoa i @ CHR ''-'' # s = Itoa i' @ CHR ''-'' # s'"
  have tw: "takeWhile isDigit (Itoa k @ CHR ''-'' # u) = Itoa k" if "0 \<le> k" for k u
    using Itoa_nonneg(1)[OF that]
    by (subst takeWhile_append2) (auto simp: list_all_iff isDigit_def)
  have "Itoa i = Itoa i'" using arg_cong[OF eq, of "takeWhile isDigit"] tw assms by simp
  then show "i = i' \<and> s = s'" using eq by simp
qed simp

section \<open>JSON string literals\<close>

definition hexChar :: "nat \<Rightarrow> char" where
  "hexChar d = (if d < 10 then char_of (48 + d) else char_of (87 + d))"

definition hexVal :: "char \<Rightarrow> nat option" where
  "hexVal c =
     (let n = of_char c in
      if 48 \<le> n \<and> n \<le> 57 then Some (n - 48)
      else if 97 \<le> n \<and> n \<le> 102 then Some (n - 87)
      else if 65 \<le> n \<and> n \<le> 70 then Some (n - 55)
      else None)"

abbreviation bslash :: char where "bslash \<equiv> CHR 0x5C"
abbreviation quote :: char where "quote \<equiv> CHR 0x22"

definition escChar :: "char \<Rightarrow> string" where
  "escChar c =
     (let n = of_char c :: nat in
      if c = bslash \<or> c = quote then [bslash, c]
      else if n = 10 then [bslash, CHR ''n'']
      else if n = 13 then [bslash, CHR ''r'']
      else if n = 9 then [bslash, CHR ''t'']
      else if n < 32 \<or> c = CHR ''<'' \<or> c = CHR ''>'' \<or> c = CHR ''&''
      then [bslash, CHR ''u'', CHR ''0'', CHR ''0'', hexChar (n div 16), hexChar (n mod 16)]
      else [c])"

definition encString :: "string \<Rightarrow> string" where
  "encString s = quote # concat (map escChar s) @ [quote]"

text \<open>
  The UTF-8 encoding of an escaped code point below 65536, and the characters after the opening
  quote up to the closing one. Escaped surrogates, which the encoder never writes, are rejected here.
\<close>

definition utf8 :: "nat \<Rightarrow> string" where
  "utf8 n =
     (if n < 128 then [char_of n]
      else if n < 2048 then [char_of (192 + n div 64), char_of (128 + n mod 64)]
      else [char_of (224 + n div 4096), char_of (128 + n div 64 mod 64), char_of (128 + n mod 64)])"

definition hex4 :: "string \<Rightarrow> (nat \<times> string) option" where
  "hex4 s =
     (case s of
        a # b # c # d # s' \<Rightarrow>
          (case (hexVal a, hexVal b, hexVal c, hexVal d) of
             (Some a, Some b, Some c, Some d) \<Rightarrow> Some (4096 * a + 256 * b + 16 * c + d, s')
           | _ \<Rightarrow> None)
      | _ \<Rightarrow> None)"

lemma hex4_length: "hex4 s = Some (n, s') \<Longrightarrow> length s' < length s"
  by (auto simp: hex4_def split: list.splits option.splits)

definition unescape :: "char \<Rightarrow> char option" where
  "unescape e = map_of [(quote, quote), (bslash, bslash), (CHR ''/'', CHR ''/''), (CHR ''b'', CHR 0x08),
     (CHR ''f'', CHR 0x0C), (CHR ''n'', CHR 0x0A), (CHR ''r'', CHR 0x0D), (CHR ''t'', CHR 0x09)] e"

function decChars :: "string \<Rightarrow> (string \<times> string) option" where
  "decChars [] = None"
| "decChars (c # s) =
     (if c = quote then Some ([], s)
      else if c = bslash then
        (case s of
           [] \<Rightarrow> None
         | e # s' \<Rightarrow>
             if e = CHR ''u'' then
               (case hex4 s' of
                  None \<Rightarrow> None
                | Some (n, s'') \<Rightarrow>
                    if 55296 \<le> n \<and> n < 57344 then None
                    else map_option (\<lambda>(r, t). (utf8 n @ r, t)) (decChars s''))
             else
               (case unescape e of
                  None \<Rightarrow> None
                | Some d \<Rightarrow> map_option (\<lambda>(r, t). (d # r, t)) (decChars s')))
      else if (of_char c :: nat) < 32 then None
      else map_option (\<lambda>(r, t). (c # r, t)) (decChars s))"
  by pat_completeness auto
termination
  by (relation "measure length") (auto dest: hex4_length)

declare decChars.simps [simp del]

definition decString :: "string \<Rightarrow> (string \<times> string) option" where
  "decString s = (case s of c # s \<Rightarrow> if c = quote then decChars s else None | [] \<Rightarrow> None)"

lemma hexVal_hexChar [simp]:
  assumes "d < 16"
  shows "hexVal (hexChar d) = Some d"
  using assms by (auto simp: hexVal_def hexChar_def Let_def)

lemma decChars_plain:
  "c \<noteq> quote \<Longrightarrow> c \<noteq> bslash \<Longrightarrow> 32 \<le> (of_char c :: nat) \<Longrightarrow>
   decChars (c # s) = map_option (\<lambda>(r, t). (c # r, t)) (decChars s)"
  by (simp add: decChars.simps)

lemma decChars_hex:
  assumes "(of_char c :: nat) < 128"
  shows "decChars (bslash # CHR ''u'' # CHR ''0'' # CHR ''0'' # hexChar (of_char c div 16) # hexChar (of_char c mod 16) # s) =
    map_option (\<lambda>(r, t). (c # r, t)) (decChars s)"
proof -
  have z: "hexVal (CHR ''0'') = Some 0" by code_simp
  have "of_char c div 16 < (16 :: nat)" using assms by simp
  then have "hex4 (CHR ''0'' # CHR ''0'' # hexChar (of_char c div 16) # hexChar (of_char c mod 16) # s) = Some (of_char c, s)"
    by (simp add: hex4_def z)
  then show ?thesis using assms by (simp add: decChars.simps(2) utf8_def)
qed

lemma decChars_escChar: "decChars (escChar c @ s) = map_option (\<lambda>(r, t). (c # r, t)) (decChars s)"
proof -
  consider "c = quote" | "c = bslash" | "c = CHR 0x0A" | "c = CHR 0x0D" | "c = CHR 0x09"
    | (hex) "c \<noteq> quote" "c \<noteq> bslash" "c \<noteq> CHR 0x0A" "c \<noteq> CHR 0x0D" "c \<noteq> CHR 0x09"
        "(of_char c :: nat) < 32 \<or> c = CHR ''<'' \<or> c = CHR ''>'' \<or> c = CHR ''&''"
    | (plain) "c \<noteq> quote" "c \<noteq> bslash" "32 \<le> (of_char c :: nat)" "c \<noteq> CHR ''<''" "c \<noteq> CHR ''>''" "c \<noteq> CHR ''&''"
    using not_le by blast
  then show ?thesis
  proof cases
    case hex
    have code: "c = char_of n" if "of_char c = n" for n :: nat using that by auto
    have "char_of (10 :: nat) = CHR 0x0A" "char_of (13 :: nat) = CHR 0x0D" "char_of (9 :: nat) = CHR 0x09"
      by code_simp+
    then have nn: "(of_char c :: nat) \<noteq> 10" "(of_char c :: nat) \<noteq> 13" "(of_char c :: nat) \<noteq> 9"
      using hex(3-5) code by metis+
    have "(of_char c :: nat) < 128" using hex(6) by auto
    then show ?thesis using hex nn decChars_hex[of c s] by (simp add: escChar_def Let_def)
  next
    case plain
    then have "escChar c = [c]" by (auto simp: escChar_def Let_def)
    then show ?thesis using plain by (simp add: decChars_plain)
  qed (simp_all add: escChar_def decChars.simps(2) unescape_def)
qed

lemma decChars_enc: "decChars (concat (map escChar s) @ quote # t) = Some (s, t)"
proof (induction s)
  case Nil
  then show ?case by (simp add: decChars.simps)
next
  case (Cons c s)
  then show ?case using decChars_escChar[of c "concat (map escChar s) @ quote # t"] by simp
qed

lemma decString_encString [simp]: "decString (encString s @ t) = Some (s, t)"
  by (simp add: decString_def encString_def decChars_enc)

end
