(* ===== verification/MR_Common.thy ===== *)
theory MR_Common
  imports Go_Strings
begin

text \<open>
  \<open>mapreduce/common.go\<close> and the file system the MapReduce library works on. Files are byte strings
  under their names; \<open>locked\<close> names are those the operating system refuses to create or remove.
  \<open>marshal\<close> is what \<open>json.Encoder\<close> writes for a \<open>KeyValue\<close>, and \<open>decodeKV\<close> what \<open>json.Decoder\<close> makes of
  it: white space, then one object in the layout the encoder produces. Objects in other layouts,
  which no file of the library contains, end the decoding here.
\<close>

section \<open>Key/value pairs and file names\<close>

datatype jobPhase = mapPhase | reducePhase

record KeyValue =
  Key :: string
  Value :: string

definition reduceName :: "string \<Rightarrow> int \<Rightarrow> int \<Rightarrow> string" where
  "reduceName jobName mapTask reduceTask = ''mrtmp.'' @ jobName @ ''-'' @ Itoa mapTask @ ''-'' @ Itoa reduceTask"

definition mergeName :: "string \<Rightarrow> int \<Rightarrow> string" where
  "mergeName jobName reduceTask = ''mrtmp.'' @ jobName @ ''-res-'' @ Itoa reduceTask"

text \<open>The name of the final output (\<open>master_splitmerge.go\<close> lines 41 and 71).\<close>

definition outName :: "string \<Rightarrow> string" where
  "outName jobName = ''mrtmp.'' @ jobName"

lemma reduceName_inj [simp]:
  assumes "0 \<le> i" "0 \<le> i'" "0 \<le> j" "0 \<le> j'"
  shows "reduceName job i j = reduceName job i' j' \<longleftrightarrow> i = i' \<and> j = j'"
  using Itoa_sep[OF assms(1,2), of "Itoa j" "Itoa j'"] by (simp add: reduceName_def)

lemma mergeName_inj [simp]: "mergeName job i = mergeName job j \<longleftrightarrow> i = j"
  by (simp add: mergeName_def)

lemma names_differ [simp]:
  assumes "0 \<le> i"
  shows "reduceName job i j \<noteq> mergeName job k" "mergeName job k \<noteq> reduceName job i j"
    "reduceName job i' j \<noteq> outName job" "outName job \<noteq> reduceName job i' j"
    "mergeName job k \<noteq> outName job" "outName job \<noteq> mergeName job k"
proof -
  obtain c s where "Itoa i = c # s" "isDigit c"
    using Itoa_nonneg(1)[OF assms] Itoa_nonneg(2)[of i] by (cases "Itoa i") auto
  moreover have "\<not> isDigit (CHR ''r'')" by code_simp
  ultimately show "reduceName job i j \<noteq> mergeName job k" "mergeName job k \<noteq> reduceName job i j"
    by (auto simp: reduceName_def mergeName_def)
qed (simp_all add: reduceName_def mergeName_def outName_def)

section \<open>JSON streams of key/value pairs\<close>

definition marshal :: "KeyValue \<Rightarrow> string" where
  "marshal kv = ''{'' @ encString ''Key'' @ '':'' @ encString (Key kv) @ '','' @
     encString ''Value'' @ '':'' @ encString (Value kv) @ ''}'' @ [CHR 0x0A]"

fun stripPrefix :: "string \<Rightarrow> string \<Rightarrow> string option" where
  "stripPrefix [] s = Some s"
| "stripPrefix (p # ps) (c # s) = (if p = c then stripPrefix ps s else None)"
| "stripPrefix (p # ps) [] = None"

definition isSpace :: "char \<Rightarrow> bool" where
  "isSpace c \<longleftrightarrow> c = CHR '' '' \<or> c = CHR 0x09 \<or> c = CHR 0x0A \<or> c = CHR 0x0D"

definition decodeKV :: "string \<Rightarrow> (KeyValue \<times> string) option" where
  "decodeKV s =
     (case stripPrefix (''{'' @ encString ''Key'' @ '':'') (dropWhile isSpace s) of None \<Rightarrow> None | Some s \<Rightarrow>
     (case decString s of None \<Rightarrow> None | Some (k, s) \<Rightarrow>
     (case stripPrefix ('','' @ encString ''Value'' @ '':'') s of None \<Rightarrow> None | Some s \<Rightarrow>
     (case decString s of None \<Rightarrow> None | Some (v, s) \<Rightarrow>
     (case stripPrefix ''}'' s of None \<Rightarrow> None | Some s \<Rightarrow> Some (\<lparr>Key = k, Value = v\<rparr>, s))))))"

lemma stripPrefix_append [simp]: "stripPrefix p (p @ s) = Some s"
  by (induction p) auto

lemma stripPrefix_length: "stripPrefix p s = Some t \<Longrightarrow> length s = length p + length t"
  by (induction p s rule: stripPrefix.induct) (auto split: if_splits)

lemma decChars_length: "decChars s = Some (r, t) \<Longrightarrow> length t < length s"
proof (induction s arbitrary: r rule: length_induct)
  case (1 s)
  have IH: "length t < length u" if "length u < length s" "decChars u = Some (q, t)" for u q
    using 1 that by blast
  show ?case
  proof (cases s)
    case (Cons c u)
    then have "decChars (c # u) = Some (r, t)" using "1.prems" by simp
    then show ?thesis
      using IH[of u] IH[of "tl u"] IH[OF less_trans[OF hex4_length, of "tl u"]] Cons
      by (auto simp: decChars.simps(2) split: if_splits list.splits option.splits
          intro: less_trans) (meson hex4_length less_SucI less_trans)+
  qed (use "1.prems" in \<open>simp add: decChars.simps\<close>)
qed

lemma decString_length: "decString s = Some (r, t) \<Longrightarrow> length t < length s"
  by (cases s) (auto simp: decString_def dest: decChars_length split: if_splits)

lemma decodeKV_length:
  assumes "decodeKV s = Some (kv, t)"
  shows "length t < length s"
proof -
  obtain u k v w x y where
    u: "stripPrefix (''{'' @ encString ''Key'' @ '':'') (dropWhile isSpace s) = Some u" "decString u = Some (k, v)"
    and w: "stripPrefix ('','' @ encString ''Value'' @ '':'') v = Some w" "decString w = Some (x, y)" "stripPrefix ''}'' y = Some t"
    using assms by (auto simp: decodeKV_def simp del: stripPrefix.simps append_Cons append_Nil split: option.splits prod.splits)
  have "length (dropWhile isSpace s) \<le> length s" by (rule length_dropWhile_le)
  with stripPrefix_length[OF u(1)] decString_length[OF u(2)] stripPrefix_length[OF w(1)]
    decString_length[OF w(2)] stripPrefix_length[OF w(3)]
  show ?thesis by simp
qed

function decodeAll :: "string \<Rightarrow> KeyValue list" where
  "decodeAll s = (case decodeKV s of None \<Rightarrow> [] | Some (kv, t) \<Rightarrow> kv # decodeAll t)"
  by pat_completeness auto
termination
  by (relation "measure length") (auto dest: decodeKV_length)

declare decodeAll.simps [simp del]

lemma decodeKV_marshal:
  assumes "list_all isSpace w"
  shows "decodeKV (w @ marshal kv @ s) = Some (kv, CHR 0x0A # s)"
proof -
  let ?m = "encString (Value kv) @ ''}'' @ CHR 0x0A # s"
  let ?k = "encString (Key kv) @ ('','' @ encString ''Value'' @ '':'') @ ?m"
  have "dropWhile isSpace (w @ marshal kv @ s) = (''{'' @ encString ''Key'' @ '':'') @ ?k"
  proof -
    have "marshal kv @ s = (''{'' @ encString ''Key'' @ '':'') @ ?k" by (simp add: marshal_def)
    moreover have "\<not> isSpace (CHR ''{'')" by code_simp
    ultimately show ?thesis using assms by (simp add: dropWhile_append2 list_all_iff)
  qed
  then show ?thesis
    using stripPrefix_append[of "''{'' @ encString ''Key'' @ '':''" ?k]
      stripPrefix_append[of "'','' @ encString ''Value'' @ '':''" ?m]
      stripPrefix_append[of "''}''" "CHR 0x0A # s"]
    by (simp add: decodeKV_def del: stripPrefix.simps append_Cons append_Nil)
qed

text \<open>What is written to a file is what is read back from it.\<close>

lemma decodeAll_marshal [simp]: "decodeAll (concat (map marshal kvs)) = kvs"
proof -
  have "decodeAll (w @ concat (map marshal kvs)) = kvs" if "list_all isSpace w" for w
    using that
  proof (induction kvs arbitrary: w)
    case Nil
    then have w: "dropWhile isSpace w = []" by (simp add: list_all_iff)
    have "decodeKV w = None" unfolding decodeKV_def w by simp
    then show ?case by (simp add: decodeAll.simps[of w])
  next
    case (Cons kv kvs)
    have "list_all isSpace [CHR 0x0A]" by code_simp
    from Cons.IH[OF this] decodeKV_marshal[OF Cons.prems, of kv "concat (map marshal kvs)"]
    show ?case by (simp add: decodeAll.simps[of "w @ marshal kv @ concat (map marshal kvs)"])
  qed
  from this[of "[]"] show ?thesis by simp
qed

section \<open>The file system\<close>

record FS =
  files :: "string \<Rightarrow> string option"
  locked :: "string \<Rightarrow> bool"

definition osCreate :: "FS \<Rightarrow> string \<Rightarrow> FS option" where
  "osCreate fs name = (if locked fs name then None else Some (fs\<lparr>files := (files fs)(name \<mapsto> [])\<rparr>))"

definition osRemove :: "FS \<Rightarrow> string \<Rightarrow> FS option" where
  "osRemove fs name =
     (if files fs name = None \<or> locked fs name then None else Some (fs\<lparr>files := (files fs)(name := None)\<rparr>))"

text \<open>Writing through an open file appends to what has been written since it was created.\<close>

definition osWrite :: "FS \<Rightarrow> string \<Rightarrow> string \<Rightarrow> FS" where
  "osWrite fs name text =
     fs\<lparr>files := (files fs)(name \<mapsto> (case files fs name of None \<Rightarrow> [] | Some t \<Rightarrow> t) @ text)\<rparr>"

end
