(* ===== verification/MR_Tasks.thy ===== *)
theory MR_Tasks
  imports MR_Common "HOL-Library.Word" "HOL-Library.AList"
begin

unbundle bit_operations_syntax

text \<open>
  The tasks of a MapReduce job: \<open>mapreduce/common_map.go\<close>, \<open>common_reduce.go\<close>, \<open>master_splitmerge.go\<close>
  and the sequential master of \<open>master.go\<close>. The user's functions are arguments, as in the code.

  \<open>sort.Slice\<close> is an argument too (\<open>srt\<close>): it is not stable, so the order of pairs with equal keys is
  not determined; the locale \<open>key_sort\<close> states what the package documentation promises. \<open>sort.Strings\<close>
  on distinct keys is determined and is the library's \<open>sort\<close>. Go's \<open>map[string]string\<close> in \<open>merge\<close> is an
  association list; its iteration order does not matter because the keys are sorted afterwards.
  Writing to an open file does not fail in the model.
\<close>

section \<open>Map tasks\<close>

definition fnv32a :: "string \<Rightarrow> 32 word" where
  "fnv32a s = foldl (\<lambda>h c. (h XOR of_nat (of_char c)) * 16777619) 2166136261 s"

definition ihash :: "string \<Rightarrow> int" where
  "ihash s = uint (fnv32a s AND 0x7fffffff)"

definition createOut :: "string \<Rightarrow> FS \<Rightarrow> FS res" where
  "createOut name fs = (case osCreate fs name of None \<Rightarrow> Inl (Panicked ''create'') | Some fs \<Rightarrow> Inr fs)"

text \<open>
  Lines 83--89. \<open>ihash\<close> is not negative, so \<open>%\<close> is \<open>mod\<close> for a positive \<open>nReduce\<close>; for a negative one
  there is no encoder and the index is out of range whatever the remainder is.
\<close>

definition emit :: "string list \<Rightarrow> int \<Rightarrow> KeyValue \<Rightarrow> FS \<Rightarrow> FS res" where
  "emit encs nReduce kv fs =
     (if nReduce = 0 then Inl DivideByZero
      else bindR (idx encs (ihash (Key kv) mod nReduce)) (\<lambda>enc. Inr (osWrite fs enc (marshal kv))))"

definition doMap ::
  "string \<Rightarrow> int \<Rightarrow> string \<Rightarrow> int \<Rightarrow> (string \<Rightarrow> string \<Rightarrow> KeyValue list) \<Rightarrow> FS \<Rightarrow> FS res" where
  "doMap jobName mapTask inFile nReduce mapF fs =
     (case files fs inFile of
        None \<Rightarrow> Inl (Panicked ''open'')
      | Some content \<Rightarrow>
          (let kvs = mapF inFile content;
               encs = map (\<lambda>i. reduceName jobName mapTask (int i)) [0..<nat nReduce]
           in bindR (foldR createOut encs fs) (foldR (emit encs nReduce) kvs)))"

section \<open>Reduce tasks\<close>

definition readInput :: "string \<Rightarrow> int \<Rightarrow> FS \<Rightarrow> int \<Rightarrow> KeyValue list \<Rightarrow> KeyValue list res" where
  "readInput jobName reduceTask fs i kvs =
     (case files fs (reduceName jobName i reduceTask) of
        None \<Rightarrow> Inl (Panicked ''open'')
      | Some text \<Rightarrow> Inr (kvs @ decodeAll text))"

text \<open>Lines 87--101: runs of equal keys.\<close>

fun reduceLoop :: "(string \<Rightarrow> string list \<Rightarrow> string) \<Rightarrow> string \<Rightarrow> string list \<Rightarrow> KeyValue list \<Rightarrow> KeyValue list" where
  "reduceLoop reduceF curKey values [] = [\<lparr>Key = curKey, Value = reduceF curKey values\<rparr>]"
| "reduceLoop reduceF curKey values (kv # kvs) =
     (if curKey = Key kv then reduceLoop reduceF curKey (values @ [Value kv]) kvs
      else \<lparr>Key = curKey, Value = reduceF curKey values\<rparr> # reduceLoop reduceF (Key kv) [Value kv] kvs)"

definition doReduce ::
  "(KeyValue list \<Rightarrow> KeyValue list) \<Rightarrow> string \<Rightarrow> int \<Rightarrow> string \<Rightarrow> int \<Rightarrow> (string \<Rightarrow> string list \<Rightarrow> string) \<Rightarrow> FS \<Rightarrow> FS res" where
  "doReduce srt jobName reduceTask outFile nMap reduceF fs =
     bindR (foldR (\<lambda>i. readInput jobName reduceTask fs (int i)) [0..<nat nMap] []) (\<lambda>kvs.
     let kvs = srt kvs in
     if kvs = [] then Inr fs
     else bindR (createOut outFile fs) (\<lambda>fs.
       Inr (foldl (\<lambda>fs kv. osWrite fs outFile (marshal kv)) fs (reduceLoop reduceF (Key (hd kvs)) [] kvs))))"

section \<open>Merge and clean-up\<close>

record Master =
  address :: string
  doneChannel :: nat \<comment> \<open>values sent and not yet received\<close>
  workers :: "string list"
  jobName :: string
  mrFiles :: "string list" \<comment> \<open>\<open>files\<close>\<close>
  nReduce :: int
  shutdown :: bool \<comment> \<open>the channel is closed\<close>
  stats :: "int list"

definition mergeRead :: "string \<Rightarrow> FS \<Rightarrow> int \<Rightarrow> (string \<times> string) list \<Rightarrow> (string \<times> string) list res" where
  "mergeRead job fs i kvs =
     (case files fs (mergeName job i) of
        None \<Rightarrow> Inl (LogFatal ''Merge: '')
      | Some text \<Rightarrow> Inr (foldl (\<lambda>kvs kv. AList.update (Key kv) (Value kv) kvs) kvs (decodeAll text)))"

definition outLine :: "string \<Rightarrow> string \<Rightarrow> string" where
  "outLine k v = k @ '': '' @ v @ [CHR 0x0A]"

definition merge :: "Master \<Rightarrow> FS \<Rightarrow> FS res" where
  "merge mr fs =
     bindR (foldR (\<lambda>i. mergeRead (jobName mr) fs (int i)) [0..<nat (nReduce mr)] []) (\<lambda>kvs.
     let keys = sort (map fst kvs) in
     case osCreate fs (outName (jobName mr)) of
       None \<Rightarrow> Inl (LogFatal ''Merge: create '')
     | Some fs \<Rightarrow>
         Inr (osWrite fs (outName (jobName mr)) (concat (map (\<lambda>k. outLine k (the (map_of kvs k))) keys))))"

definition removeFile :: "string \<Rightarrow> FS \<Rightarrow> FS res" where
  "removeFile n fs = (case osRemove fs n of None \<Rightarrow> Inl (LogFatal ''CleanupFiles '') | Some fs \<Rightarrow> Inr fs)"

definition CleanupFiles :: "Master \<Rightarrow> FS \<Rightarrow> FS res" where
  "CleanupFiles mr fs =
     bindR (foldR (\<lambda>i. foldR (\<lambda>j. removeFile (reduceName (jobName mr) (int i) (int j))) [0..<nat (nReduce mr)])
              [0..<length (mrFiles mr)] fs) (\<lambda>fs.
     bindR (foldR (\<lambda>i. removeFile (mergeName (jobName mr) (int i))) [0..<nat (nReduce mr)] fs) (\<lambda>fs.
       removeFile (outName (jobName mr)) fs))"

section \<open>The sequential master\<close>

definition newMaster :: "string \<Rightarrow> Master" where
  "newMaster master = \<lparr>address = master, doneChannel = 0, workers = [], jobName = '''', mrFiles = [],
     nReduce = 0, shutdown = False, stats = []\<rparr>"

definition run ::
  "string \<Rightarrow> string list \<Rightarrow> int \<Rightarrow> (Master \<Rightarrow> jobPhase \<Rightarrow> FS \<Rightarrow> FS res) \<Rightarrow> (Master \<Rightarrow> Master) \<Rightarrow>
   Master \<Rightarrow> FS \<Rightarrow> (Master \<times> FS) res" where
  "run job inputs nreduce schedule finish mr fs =
     (let mr = mr\<lparr>jobName := job, mrFiles := inputs, nReduce := nreduce\<rparr> in
      bindR (schedule mr mapPhase fs) (\<lambda>fs.
      bindR (schedule mr reducePhase fs) (\<lambda>fs.
      let mr = finish mr in
      bindR (merge mr fs) (\<lambda>fs. Inr (mr\<lparr>doneChannel := doneChannel mr + 1\<rparr>, fs)))))"

definition sequentialPhase ::
  "(KeyValue list \<Rightarrow> KeyValue list) \<Rightarrow> (string \<Rightarrow> string \<Rightarrow> KeyValue list) \<Rightarrow> (string \<Rightarrow> string list \<Rightarrow> string) \<Rightarrow>
   Master \<Rightarrow> jobPhase \<Rightarrow> FS \<Rightarrow> FS res" where
  "sequentialPhase srt mapF reduceF mr phase fs =
     (case phase of
        mapPhase \<Rightarrow> foldR (\<lambda>(i, f). doMap (jobName mr) (int i) f (nReduce mr) mapF) (enumerate 0 (mrFiles mr)) fs
      | reducePhase \<Rightarrow>
          foldR (\<lambda>i. doReduce srt (jobName mr) (int i) (mergeName (jobName mr) (int i)) (len (mrFiles mr)) reduceF)
            [0..<nat (nReduce mr)] fs)"

definition Sequential ::
  "(KeyValue list \<Rightarrow> KeyValue list) \<Rightarrow> string \<Rightarrow> string list \<Rightarrow> int \<Rightarrow> (string \<Rightarrow> string \<Rightarrow> KeyValue list) \<Rightarrow>
   (string \<Rightarrow> string list \<Rightarrow> string) \<Rightarrow> FS \<Rightarrow> (Master \<times> FS) res" where
  "Sequential srt job inputs nreduce mapF reduceF fs =
     run job inputs nreduce (sequentialPhase srt mapF reduceF)
       (\<lambda>mr. mr\<lparr>stats := [len inputs + nreduce]\<rparr>) (newMaster ''master'') fs"

end
