(* ===== verification/MR_Correct.thy ===== *)
theory MR_Correct
  imports MR_Tasks
begin

text \<open>
  Correctness of the sequential MapReduce job: what every task writes, and that the final output has
  one line per distinct key the map functions emitted, in increasing order of the keys, with the
  reduction of all values emitted for that key. The exception is proved as well: a reduce task
  without any pair writes no file, and \<open>merge\<close> then ends the program.
\<close>

section \<open>Files\<close>

abbreviation jsonText :: "KeyValue list \<Rightarrow> string" where
  "jsonText kvs \<equiv> concat (map marshal kvs)"

lemma osWrite_simps [simp]:
  "locked (osWrite fs name t) = locked fs"
  "files (osWrite fs name t) x =
     (if x = name then Some ((case files fs name of None \<Rightarrow> [] | Some c \<Rightarrow> c) @ t) else files fs x)"
  by (simp_all add: osWrite_def)

lemma createOut_ok:
  "\<not> locked fs name \<Longrightarrow> createOut name fs = Inr (fs\<lparr>files := (files fs)(name \<mapsto> [])\<rparr>)"
  by (simp add: createOut_def osCreate_def)

lemma createOuts_ok:
  assumes "\<And>name. name \<in> set names \<Longrightarrow> \<not> locked fs name"
  shows "\<exists>fs'. foldR createOut names fs = Inr fs' \<and> locked fs' = locked fs \<and>
    (\<forall>x. files fs' x = (if x \<in> set names then Some [] else files fs x))"
  using assms
proof (induction names arbitrary: fs)
  case (Cons name names)
  let ?fs = "fs\<lparr>files := (files fs)(name \<mapsto> [])\<rparr>"
  obtain fs' where "foldR createOut names ?fs = Inr fs'" "locked fs' = locked fs"
    "\<forall>x. files fs' x = (if x \<in> set names then Some [] else files ?fs x)"
    using Cons.IH[of ?fs] Cons.prems by auto
  then show ?case using Cons.prems by (auto simp: createOut_ok)
qed simp

lemma writes_ok:
  assumes "files fs name = Some c"
  shows "\<exists>fs'. foldl (\<lambda>fs kv. osWrite fs name (marshal kv)) fs kvs = fs' \<and> locked fs' = locked fs \<and>
    (\<forall>x. files fs' x = (if x = name then Some (c @ jsonText kvs) else files fs x))"
  using assms
proof (induction kvs arbitrary: fs c)
  case (Cons kv kvs)
  then show ?case using Cons.IH[of "osWrite fs name (marshal kv)" "c @ marshal kv"] by auto
qed simp

section \<open>Map tasks\<close>

definition bucket :: "int \<Rightarrow> int \<Rightarrow> KeyValue list \<Rightarrow> KeyValue list" where
  "bucket n r kvs = filter (\<lambda>kv. ihash (Key kv) mod n = r) kvs"

lemma ihash_bounds: "0 \<le> ihash s" "ihash s < 2 ^ 31"
proof -
  have "uint (fnv32a s AND 0x7fffffff) \<le> uint (0x7fffffff :: 32 word)"
    by (simp add: uint_and AND_upper2)
  then show "ihash s < 2 ^ 31" by (simp add: ihash_def)
qed (simp add: ihash_def)

lemma emits_ok:
  assumes "0 < n" "length encs = nat n" "distinct encs" "\<And>r. r < nat n \<Longrightarrow> files fs (encs ! r) \<noteq> None"
  shows "\<exists>fs'. foldR (emit encs n) kvs fs = Inr fs' \<and> locked fs' = locked fs \<and>
    (\<forall>x. x \<notin> set encs \<longrightarrow> files fs' x = files fs x) \<and>
    (\<forall>r < nat n. files fs' (encs ! r) = Some (the (files fs (encs ! r)) @ jsonText (bucket n (int r) kvs)))"
  using assms(4)
proof (induction kvs arbitrary: fs)
  case Nil
  then show ?case by (simp add: bucket_def)
next
  case (Cons kv kvs)
  let ?r = "nat (ihash (Key kv) mod n)"
  let ?fs = "osWrite fs (encs ! ?r) (marshal kv)"
  have r: "0 \<le> ihash (Key kv) mod n" "ihash (Key kv) mod n < n" using assms(1) by simp_all
  then have lt: "?r < length encs" using assms(2) by linarith
  have step: "emit encs n kv fs = Inr ?fs"
    using r assms(1,2) by (simp add: emit_def)
  have eq: "encs ! r' = encs ! ?r \<longleftrightarrow> r' = ?r" if "r' < nat n" for r'
    using that lt assms(2,3) by (simp add: nth_eq_iff_index_eq)
  have pre: "files ?fs (encs ! r') \<noteq> None" if "r' < nat n" for r' using Cons.prems[OF that] by simp
  obtain fs' where fs': "foldR (emit encs n) kvs ?fs = Inr fs'" "locked fs' = locked fs"
    "\<forall>x. x \<notin> set encs \<longrightarrow> files fs' x = files ?fs x"
    "\<forall>r' < nat n. files fs' (encs ! r') = Some (the (files ?fs (encs ! r')) @ jsonText (bucket n (int r') kvs))"
    using Cons.IH[OF pre] unfolding osWrite_simps(1) by blast
  have "files fs' (encs ! r') = Some (the (files fs (encs ! r')) @ jsonText (bucket n (int r') (kv # kvs)))"
    if r': "r' < nat n" for r'
  proof (cases "r' = ?r")
    case True
    obtain c where "files fs (encs ! ?r) = Some c" using Cons.prems[of ?r] lt assms(2) by auto
    then show ?thesis using fs'(4) r' True r by (simp add: bucket_def)
  next
    case False
    then have "ihash (Key kv) mod n \<noteq> int r'" using r by auto
    then show ?thesis using fs'(4) r' eq[OF r'] False by (simp add: bucket_def)
  qed
  moreover have "encs ! ?r \<in> set encs" using lt by simp
  ultimately show ?case using fs' step by auto
qed

lemma doMap_ok:
  assumes "0 < n" "0 \<le> m" "files fs inFile = Some c" "\<And>r. \<not> locked fs (reduceName job m r)"
  shows "\<exists>fs'. doMap job m inFile n mapF fs = Inr fs' \<and> locked fs' = locked fs \<and>
    (\<forall>r. 0 \<le> r \<and> r < n \<longrightarrow> files fs' (reduceName job m r) = Some (jsonText (bucket n r (mapF inFile c)))) \<and>
    (\<forall>x. (\<forall>r. 0 \<le> r \<and> r < n \<longrightarrow> x \<noteq> reduceName job m r) \<longrightarrow> files fs' x = files fs x)"
proof -
  let ?encs = "map (\<lambda>i. reduceName job m (int i)) [0..<nat n]"
  obtain fs1 where fs1: "foldR createOut ?encs fs = Inr fs1" "locked fs1 = locked fs"
    "\<forall>x. files fs1 x = (if x \<in> set ?encs then Some [] else files fs x)"
    using createOuts_ok[of ?encs fs] assms(4) by auto
  have d: "distinct ?encs" using assms(2) by (simp add: distinct_map inj_on_def)
  have e: "files fs1 (?encs ! r) = Some []" if "r < nat n" for r using fs1(3) that by auto
  obtain fs2 where fs2: "foldR (emit ?encs n) (mapF inFile c) fs1 = Inr fs2" "locked fs2 = locked fs1"
    "\<forall>x. x \<notin> set ?encs \<longrightarrow> files fs2 x = files fs1 x"
    "\<forall>r < nat n. files fs2 (?encs ! r) = Some (the (files fs1 (?encs ! r)) @ jsonText (bucket n (int r) (mapF inFile c)))"
    using emits_ok[OF assms(1) _ d, of fs1 "mapF inFile c"] e by auto
  have "files fs2 (reduceName job m r) = Some (jsonText (bucket n r (mapF inFile c)))" if "0 \<le> r" "r < n" for r
    using fs2(4)[rule_format, of "nat r"] e[of "nat r"] that by simp
  moreover have "files fs2 x = files fs x" if "\<forall>r. 0 \<le> r \<and> r < n \<longrightarrow> x \<noteq> reduceName job m r" for x
  proof -
    have "x \<noteq> reduceName job m (int i)" if "i < nat n" for i
      using \<open>\<forall>r. 0 \<le> r \<and> r < n \<longrightarrow> x \<noteq> reduceName job m r\<close>[rule_format, of "int i"] that by simp
    then have "x \<notin> set ?encs" by fastforce
    then show ?thesis using fs1(3) fs2(3) by simp
  qed
  ultimately show ?thesis using assms(3) fs1(1,2) fs2(1,2) by (simp add: doMap_def)
qed

text \<open>Names that no map task writes to.\<close>

definition inputName :: "string \<Rightarrow> bool" where
  "inputName f \<longleftrightarrow> take 6 f \<noteq> ''mrtmp.''"

lemma inputName_differs [simp]:
  assumes "inputName f"
  shows "f \<noteq> reduceName job i j" "f \<noteq> mergeName job i" "f \<noteq> outName job"
  using assms by (auto simp: inputName_def reduceName_def mergeName_def outName_def)

definition emitted :: "(string \<Rightarrow> string \<Rightarrow> KeyValue list) \<Rightarrow> FS \<Rightarrow> string \<Rightarrow> KeyValue list" where
  "emitted mapF fs f = mapF f (the (files fs f))"

lemma mapPhase_ok:
  assumes "0 < n" "\<And>x. \<not> locked fs x" "\<And>f. f \<in> set inputs \<Longrightarrow> inputName f \<and> files fs f \<noteq> None"
  shows "\<exists>fs'. foldR (\<lambda>(i, f). doMap job (int i) f n mapF) (enumerate k inputs) fs = Inr fs' \<and>
    locked fs' = locked fs \<and>
    (\<forall>i < length inputs. \<forall>r. 0 \<le> r \<and> r < n \<longrightarrow>
       files fs' (reduceName job (int (k + i)) r) = Some (jsonText (bucket n r (emitted mapF fs (inputs ! i))))) \<and>
    (\<forall>x. (\<forall>i r. k \<le> i \<and> 0 \<le> r \<longrightarrow> x \<noteq> reduceName job (int i) r) \<longrightarrow> files fs' x = files fs x)"
  using assms(2,3)
proof (induction inputs arbitrary: k fs)
  case Nil
  show ?case by simp
next
  case (Cons f inputs)
  obtain c where c: "files fs f = Some c" using Cons.prems(2)[of f] by auto
  obtain fs1 where fs1: "doMap job (int k) f n mapF fs = Inr fs1" "locked fs1 = locked fs"
    "\<forall>r. 0 \<le> r \<and> r < n \<longrightarrow> files fs1 (reduceName job (int k) r) = Some (jsonText (bucket n r (mapF f c)))"
    "\<forall>x. (\<forall>r. 0 \<le> r \<and> r < n \<longrightarrow> x \<noteq> reduceName job (int k) r) \<longrightarrow> files fs1 x = files fs x"
    using doMap_ok[OF assms(1) _ c, of "int k" job mapF] Cons.prems(1) by (meson of_nat_0_le_iff)
  have keep: "files fs1 g = files fs g" if "g \<in> set (f # inputs)" for g
    using fs1(4) Cons.prems(2)[OF that] by simp
  have "inputName g \<and> files fs1 g \<noteq> None" if "g \<in> set inputs" for g
    using keep[of g] Cons.prems(2)[of g] that by simp
  moreover have "\<not> locked fs1 x" for x using fs1(2) Cons.prems(1) by simp
  ultimately obtain fs2 where
    fs2: "foldR (\<lambda>(i, f). doMap job (int i) f n mapF) (enumerate (Suc k) inputs) fs1 = Inr fs2" "locked fs2 = locked fs1"
    "\<forall>i < length inputs. \<forall>r. 0 \<le> r \<and> r < n \<longrightarrow>
       files fs2 (reduceName job (int (Suc k + i)) r) = Some (jsonText (bucket n r (emitted mapF fs1 (inputs ! i))))"
    "\<forall>x. (\<forall>i r. Suc k \<le> i \<and> 0 \<le> r \<longrightarrow> x \<noteq> reduceName job (int i) r) \<longrightarrow> files fs2 x = files fs1 x"
    using Cons.IH[of fs1 "Suc k"] by blast
  have "files fs2 (reduceName job (int (k + i)) r) = Some (jsonText (bucket n r (emitted mapF fs ((f # inputs) ! i))))"
    if i: "i < length (f # inputs)" and r: "0 \<le> r" "r < n" for i r
  proof (cases i)
    case 0
    have "files fs2 (reduceName job (int k) r) = files fs1 (reduceName job (int k) r)"
      using fs2(4) r by simp
    then show ?thesis using 0 fs1(3) r c by (simp add: emitted_def)
  next
    case (Suc j)
    then have "emitted mapF fs1 (inputs ! j) = emitted mapF fs (inputs ! j)"
      using keep[of "inputs ! j"] i by (simp add: emitted_def)
    then show ?thesis using Suc fs2(3) i r by simp
  qed
  moreover have "files fs2 x = files fs x" if "\<forall>i r. k \<le> i \<and> 0 \<le> r \<longrightarrow> x \<noteq> reduceName job (int i) r" for x
    using fs2(4) fs1(4) that by simp
  ultimately show ?case using fs1(1,2) fs2(1,2) by simp
qed

section \<open>Sorting and grouping\<close>

text \<open>What \<open>sort.Slice\<close> with the comparison of keys promises.\<close>

locale key_sort =
  fixes srt :: "KeyValue list \<Rightarrow> KeyValue list"
  assumes srt_mset: "mset (srt kvs) = mset kvs"
    and srt_sorted: "sorted (map Key (srt kvs))"
begin

lemma srt_set: "set (srt kvs) = set kvs"
  using srt_mset by (metis set_mset_mset)

lemma srt_Nil: "srt kvs = [] \<longleftrightarrow> kvs = []"
  using srt_mset by (metis mset_zero_iff)

text \<open>Selecting the pairs of one key commutes with sorting, up to the order of the values.\<close>

lemma srt_values:
  "mset (map Value (filter (\<lambda>kv. Key kv = k) (srt kvs))) = mset (map Value (filter (\<lambda>kv. Key kv = k) kvs))"
  by (simp add: srt_mset)

end

definition sortSlice :: "KeyValue list \<Rightarrow> KeyValue list" where
  "sortSlice kvs = sort_key Key kvs"

interpretation stable_sort: key_sort sortSlice
  by unfold_locales (simp_all add: sortSlice_def)

text \<open>One pair per key, in the order in which the runs of keys appear.\<close>

definition grouped :: "(string \<Rightarrow> string list \<Rightarrow> string) \<Rightarrow> KeyValue list \<Rightarrow> KeyValue list" where
  "grouped reduceF kvs =
     map (\<lambda>k. \<lparr>Key = k, Value = reduceF k (map Value (filter (\<lambda>kv. Key kv = k) kvs))\<rparr>) (remdups_adj (map Key kvs))"

lemma remdups_adj_sorted_distinct: "sorted xs \<Longrightarrow> distinct (remdups_adj (xs :: 'a :: linorder list))"
proof (induction xs rule: remdups_adj.induct)
  case (3 x y xs)
  then show ?case by (cases "x = y") (auto simp: order.antisym)
qed simp_all

lemma remdups_adj_run:
  assumes "sorted (k # ks)"
  shows "remdups_adj (k # ks) = k # remdups_adj (filter (\<lambda>x. x \<noteq> k) ks)"
  using assms
proof (induction ks)
  case (Cons x ks)
  show ?case
  proof (cases "x = k")
    case True
    then show ?thesis using Cons by simp
  next
    case False
    then have "\<forall>y \<in> set (x # ks). y \<noteq> k" using Cons.prems by fastforce
    then have "filter (\<lambda>y. y \<noteq> k) (x # ks) = x # ks" by (simp add: filter_id_conv)
    then show ?thesis using False by simp
  qed
qed simp

lemma grouped_Cons:
  assumes "sorted (map Key (kv # kvs))"
  shows "grouped reduceF (kv # kvs) =
    \<lparr>Key = Key kv, Value = reduceF (Key kv) (Value kv # map Value (filter (\<lambda>kv'. Key kv' = Key kv) kvs))\<rparr> #
    grouped reduceF (filter (\<lambda>kv'. Key kv' \<noteq> Key kv) kvs)"
proof -
  let ?rest = "filter (\<lambda>kv'. Key kv' \<noteq> Key kv) kvs"
  have keys: "remdups_adj (map Key (kv # kvs)) = Key kv # remdups_adj (map Key ?rest)"
    using remdups_adj_run[of "Key kv" "map Key kvs"] assms by (simp add: filter_map comp_def)
  have "filter (\<lambda>kv'. Key kv' = k) (kv # kvs) = filter (\<lambda>kv'. Key kv' = k) ?rest"
    if "k \<in> set (map Key ?rest)" for k
    using that by (auto intro: filter_cong)
  then show ?thesis
    unfolding grouped_def keys by (simp add: remdups_adj_set)
qed

lemma reduceLoop_groups:
  assumes "sorted (map Key kvs)" "\<And>kv. kv \<in> set kvs \<Longrightarrow> cur \<le> Key kv"
  shows "reduceLoop reduceF cur vs kvs =
    \<lparr>Key = cur, Value = reduceF cur (vs @ map Value (filter (\<lambda>kv. Key kv = cur) kvs))\<rparr> #
    grouped reduceF (filter (\<lambda>kv. Key kv \<noteq> cur) kvs)"
  using assms
proof (induction kvs arbitrary: cur vs)
  case Nil
  then show ?case by (simp add: grouped_def)
next
  case (Cons kv kvs)
  show ?case
  proof (cases "cur = Key kv")
    case True
    then show ?thesis using Cons.IH[of cur "vs @ [Value kv]"] Cons.prems by simp
  next
    case False
    then have lt: "cur < Key kv" using Cons.prems(2)[of kv] by simp
    have ge: "Key kv \<le> Key kv'" if "kv' \<in> set kvs" for kv' using Cons.prems(1) that by simp
    then have ne: "Key kv' \<noteq> cur" if "kv' \<in> set kvs" for kv' using lt that by fastforce
    then have none: "filter (\<lambda>kv. Key kv = cur) kvs = []" and all: "filter (\<lambda>kv. Key kv \<noteq> cur) kvs = kvs"
      by (simp_all add: filter_empty_conv)
    let ?rest = "filter (\<lambda>kv'. Key kv' \<noteq> Key kv) kvs"
    have IH: "reduceLoop reduceF (Key kv) [Value kv] kvs =
      \<lparr>Key = Key kv, Value = reduceF (Key kv) (Value kv # map Value (filter (\<lambda>kv'. Key kv' = Key kv) kvs))\<rparr> #
      grouped reduceF ?rest"
      using Cons.IH[of "Key kv" "[Value kv]"] Cons.prems(1) ge by simp
    have "grouped reduceF (kv # kvs) =
      \<lparr>Key = Key kv, Value = reduceF (Key kv) (Value kv # map Value (filter (\<lambda>kv'. Key kv' = Key kv) kvs))\<rparr> #
      grouped reduceF ?rest"
      using Cons.prems(1) by (simp add: grouped_Cons)
    then show ?thesis using False IH none all by simp
  qed
qed

lemma reduceLoop_grouped:
  assumes "sorted (map Key kvs)" "kvs \<noteq> []"
  shows "reduceLoop reduceF (Key (hd kvs)) [] kvs = grouped reduceF kvs"
proof (cases kvs)
  case (Cons kv kvs')
  then have "\<And>kv'. kv' \<in> set kvs \<Longrightarrow> Key kv \<le> Key kv'" using assms(1) by auto
  then show ?thesis
    using reduceLoop_groups[OF assms(1), of "Key kv" reduceF "[]"] grouped_Cons[of kv kvs' reduceF] assms(1) Cons
    by simp
qed (use assms(2) in simp)

lemma readInputs_ok:
  assumes "\<And>i. i < m \<Longrightarrow> files fs (reduceName job (int i) r) = Some (jsonText (ks i))"
  shows "foldR (\<lambda>i. readInput job r fs (int i)) [0..<m] [] = Inr (concat (map ks [0..<m]))"
  using assms by (induction m) (simp_all add: foldR_append readInput_def)

text \<open>The pairs reduce task \<open>r\<close> reads.\<close>

definition taskPairs :: "(string \<Rightarrow> string \<Rightarrow> KeyValue list) \<Rightarrow> FS \<Rightarrow> string list \<Rightarrow> int \<Rightarrow> int \<Rightarrow> KeyValue list" where
  "taskPairs mapF fs inputs n r = bucket n r (concat (map (emitted mapF fs) inputs))"

lemma bucket_concat: "bucket n r (concat xss) = concat (map (bucket n r) xss)"
  by (induction xss) (simp_all add: bucket_def)

lemma taskPairs_nth:
  "taskPairs mapF fs inputs n r = concat (map (\<lambda>i. bucket n r (emitted mapF fs (inputs ! i))) [0..<length inputs])"
proof -
  have "map (\<lambda>i. bucket n r (emitted mapF fs (inputs ! i))) [0..<length inputs] = map (bucket n r \<circ> emitted mapF fs) inputs"
    by (rule nth_equalityI) auto
  then show ?thesis by (simp only: taskPairs_def bucket_concat map_map)
qed

context key_sort
begin

lemma doReduce_ok:
  assumes "\<And>i. i < m \<Longrightarrow> files fs (reduceName job (int i) r) = Some (jsonText (ks i))"
    and "\<not> locked fs out" and all: "all = concat (map ks [0..<m])"
  shows "\<exists>fs'. doReduce srt job r out (int m) reduceF fs = Inr fs' \<and> locked fs' = locked fs \<and>
    (\<forall>x. files fs' x = (if x = out \<and> all \<noteq> [] then Some (jsonText (grouped reduceF (srt all))) else files fs x))"
proof -
  have rd: "foldR (\<lambda>i. readInput job r fs (int i)) [0..<nat (int m)] [] = Inr all"
    using readInputs_ok[of m fs job r ks, OF assms(1)] all by simp
  show ?thesis
  proof (cases "all = []")
    case True
    then show ?thesis using rd srt_Nil[of all] by (simp add: doReduce_def)
  next
    case False
    let ?fs = "fs\<lparr>files := (files fs)(out \<mapsto> [])\<rparr>"
    have g: "reduceLoop reduceF (Key (hd (srt all))) [] (srt all) = grouped reduceF (srt all)"
      using reduceLoop_grouped[OF srt_sorted] srt_Nil False by blast
    have "doReduce srt job r out (int m) reduceF fs =
      Inr (foldl (\<lambda>fs kv. osWrite fs out (marshal kv)) ?fs (grouped reduceF (srt all)))"
      using rd False srt_Nil[of all] g createOut_ok[OF assms(2)] by (simp add: doReduce_def)
    then show ?thesis using writes_ok[of ?fs out "[]" "grouped reduceF (srt all)"] False by auto
  qed
qed

lemma reducePhase_ok:
  assumes "\<And>x. \<not> locked fs x"
    and "\<And>i r. i < m \<Longrightarrow> r < n \<Longrightarrow> files fs (reduceName job (int i) (int r)) = Some (jsonText (ks i r))"
    and "\<And>r. r < n \<Longrightarrow> all r = concat (map (\<lambda>i. ks i r) [0..<m])"
  shows "\<exists>fs'. foldR (\<lambda>r. doReduce srt job (int r) (mergeName job (int r)) (int m) reduceF) [0..<n] fs = Inr fs' \<and>
    locked fs' = locked fs \<and>
    (\<forall>r < n. files fs' (mergeName job (int r)) =
       (if all r = [] then files fs (mergeName job (int r)) else Some (jsonText (grouped reduceF (srt (all r)))))) \<and>
    (\<forall>x. (\<forall>r < n. x \<noteq> mergeName job (int r)) \<longrightarrow> files fs' x = files fs x)"
  using assms(2,3)
proof (induction n)
  case 0
  show ?case by simp
next
  case (Suc n)
  let ?f = "\<lambda>r. doReduce srt job (int r) (mergeName job (int r)) (int m) reduceF"
  obtain fs1 where fs1: "foldR ?f [0..<n] fs = Inr fs1" "locked fs1 = locked fs"
    "\<forall>r < n. files fs1 (mergeName job (int r)) =
       (if all r = [] then files fs (mergeName job (int r)) else Some (jsonText (grouped reduceF (srt (all r)))))"
    "\<forall>x. (\<forall>r < n. x \<noteq> mergeName job (int r)) \<longrightarrow> files fs1 x = files fs x"
    using Suc.IH[OF Suc.prems(1)[OF _ less_SucI] Suc.prems(2)[OF less_SucI]] by blast
  have "files fs1 (reduceName job (int i) (int n)) = Some (jsonText (ks i n))" if "i < m" for i
    using fs1(4) Suc.prems(1)[OF that, of n] by simp
  moreover have "\<not> locked fs1 (mergeName job (int n))" using fs1(2) assms(1) by simp
  moreover have "all n = concat (map (\<lambda>i. ks i n) [0..<m])" using Suc.prems(2) by simp
  ultimately obtain fs2 where fs2: "?f n fs1 = Inr fs2" "locked fs2 = locked fs1"
    "\<forall>x. files fs2 x = (if x = mergeName job (int n) \<and> all n \<noteq> [] then Some (jsonText (grouped reduceF (srt (all n)))) else files fs1 x)"
    using doReduce_ok[of m fs1 job "int n" "\<lambda>i. ks i n" "mergeName job (int n)" "all n" reduceF] by blast
  have "foldR ?f [0..<Suc n] fs = Inr fs2" using fs1(1) fs2(1) by (simp add: foldR_append)
  moreover have "files fs2 (mergeName job (int r)) =
       (if all r = [] then files fs (mergeName job (int r)) else Some (jsonText (grouped reduceF (srt (all r)))))"
    if "r < Suc n" for r
    using that fs1(3,4) fs2(3) by (cases "r = n") auto
  moreover have "files fs2 x = files fs x" if "\<forall>r < Suc n. x \<noteq> mergeName job (int r)" for x
    using that fs1(4) fs2(3) by simp
  ultimately show ?case using fs1(2) fs2(2) by auto
qed

end

section \<open>Merging\<close>

lemma update_fresh: "k \<notin> fst ` set al \<Longrightarrow> AList.update k v al = al @ [(k, v)]"
  by (induction al) auto

lemma updates_fresh:
  assumes "distinct (map fst al @ map Key kvs)"
  shows "foldl (\<lambda>al kv. AList.update (Key kv) (Value kv) al) al kvs = al @ map (\<lambda>kv. (Key kv, Value kv)) kvs"
  using assms
proof (induction kvs arbitrary: al)
  case (Cons kv kvs)
  then have "AList.update (Key kv) (Value kv) al = al @ [(Key kv, Value kv)]"
    by (intro update_fresh) auto
  then show ?case using Cons by auto
qed simp

lemma mergeReads_ok:
  assumes "\<And>i. i < n \<Longrightarrow> files fs (mergeName job (int i)) = Some (jsonText (L i))"
  shows "foldR (\<lambda>i. mergeRead job fs (int i)) [0..<n] [] =
    Inr (foldl (\<lambda>al kv. AList.update (Key kv) (Value kv) al) [] (concat (map L [0..<n])))"
  using assms by (induction n) (simp_all add: foldR_append mergeRead_def)

lemma merge_ok:
  assumes "\<And>i. i < nat (nReduce mr) \<Longrightarrow> files fs (mergeName (jobName mr) (int i)) = Some (jsonText (L i))"
    and "distinct (map Key (concat (map L [0..<nat (nReduce mr)])))"
    and "\<not> locked fs (outName (jobName mr))"
  shows "\<exists>fs'. merge mr fs = Inr fs' \<and>
    files fs' (outName (jobName mr)) =
      Some (concat (map (\<lambda>kv. outLine (Key kv) (Value kv)) (sort_key Key (concat (map L [0..<nat (nReduce mr)])))))"
proof -
  let ?all = "concat (map L [0..<nat (nReduce mr)])"
  let ?al = "map (\<lambda>kv. (Key kv, Value kv)) ?all"
  have rd: "foldR (\<lambda>i. mergeRead (jobName mr) fs (int i)) [0..<nat (nReduce mr)] [] = Inr ?al"
    using mergeReads_ok[of "nat (nReduce mr)" fs "jobName mr" L, OF assms(1)] updates_fresh[of "[]" ?all] assms(2)
    by simp
  have keys: "sort (map fst ?al) = map Key (sort_key Key ?all)"
  proof -
    have "sort (map Key ?all) = map Key (sort_key Key ?all)"
      by (intro properties_for_sort) simp_all
    then show ?thesis by (simp add: comp_def)
  qed
  have "the (map_of ?al (Key kv)) = Value kv" if "kv \<in> set (sort_key Key ?all)" for kv
  proof -
    have "(Key kv, Value kv) \<in> set ?al" using that by auto
    moreover have "distinct (map fst ?al)" using assms(2) by (simp add: comp_def)
    ultimately show ?thesis by simp
  qed
  then have lines: "map (\<lambda>k. outLine k (the (map_of ?al k))) (map Key (sort_key Key ?all)) =
      map (\<lambda>kv. outLine (Key kv) (Value kv)) (sort_key Key ?all)"
    unfolding map_map by (intro map_cong) simp_all
  show ?thesis
    using rd assms(3) by (simp add: merge_def Let_def osCreate_def keys lines del: map_map)
qed

lemma merge_fatal:
  assumes "i < nat (nReduce mr)" "files fs (mergeName (jobName mr) (int i)) = None"
  shows "merge mr fs = Inl (LogFatal ''Merge: '')"
proof -
  have "foldR (\<lambda>i. mergeRead (jobName mr) fs (int i)) [0..<nat (nReduce mr)] [] = Inl (LogFatal ''Merge: '')"
    using assms by (intro foldR_fail[of i]) (auto simp: mergeRead_def split: option.splits)
  then show ?thesis by (simp add: merge_def)
qed

section \<open>The whole job\<close>

lemma distinct_concat_upt:
  assumes "\<And>i. i < n \<Longrightarrow> distinct (f i)" "\<And>i j. i < j \<Longrightarrow> j < n \<Longrightarrow> set (f i) \<inter> set (f j) = {}"
  shows "distinct (concat (map f [0..<n]))"
  using assms
proof (induction n)
  case (Suc n)
  have "set (f i) \<inter> set (f n) = {}" if "i < n" for i using Suc.prems(2)[of i n] that by simp
  then have "set (concat (map f [0..<n])) \<inter> set (f n) = {}" by fastforce
  moreover have "distinct (concat (map f [0..<n]))" using Suc.IH Suc.prems by simp
  ultimately show ?case using Suc.prems(1)[of n] by simp
qed simp

lemma bucket_hash: "kv \<in> set (bucket n r kvs) \<Longrightarrow> ihash (Key kv) mod n = r \<and> kv \<in> set kvs"
  by (simp add: bucket_def)

lemma bucket_key:
  "filter (\<lambda>kv. Key kv = k) (bucket n (ihash k mod n) kvs) = filter (\<lambda>kv. Key kv = k) kvs"
  by (induction kvs) (auto simp: bucket_def)

text \<open>All pairs the map functions emit.\<close>

definition allPairs :: "(string \<Rightarrow> string \<Rightarrow> KeyValue list) \<Rightarrow> FS \<Rightarrow> string list \<Rightarrow> KeyValue list" where
  "allPairs mapF fs inputs = concat (map (emitted mapF fs) inputs)"

definition job_ok :: "FS \<Rightarrow> string list \<Rightarrow> int \<Rightarrow> bool" where
  "job_ok fs inputs n \<longleftrightarrow> 0 < n \<and> (\<forall>x. \<not> locked fs x) \<and> (\<forall>f \<in> set inputs. inputName f \<and> files fs f \<noteq> None)"

lemma taskPairs_union:
  assumes "0 < n"
  shows "(\<Union>r < nat n. set (taskPairs mapF fs inputs n (int r))) = set (allPairs mapF fs inputs)"
proof -
  have "kv \<in> set (taskPairs mapF fs inputs n (int (nat (ihash (Key kv) mod n))))" if "kv \<in> set (allPairs mapF fs inputs)" for kv
    using that assms by (simp add: taskPairs_def bucket_def allPairs_def)
  moreover have "nat (ihash k mod n) < nat n" for k using assms by simp
  moreover have "set (taskPairs mapF fs inputs n r) \<subseteq> set (allPairs mapF fs inputs)" for r
    by (auto simp: taskPairs_def allPairs_def bucket_def)
  ultimately show ?thesis by blast
qed

text \<open>
  The output of a job: a line per distinct key, in increasing order, with the reduction of the
  values that the sorted pairs of the key's reduce task have for it.
\<close>

definition jobOutput ::
  "(KeyValue list \<Rightarrow> KeyValue list) \<Rightarrow> (string \<Rightarrow> string \<Rightarrow> KeyValue list) \<Rightarrow> (string \<Rightarrow> string list \<Rightarrow> string) \<Rightarrow>
   FS \<Rightarrow> string list \<Rightarrow> int \<Rightarrow> string" where
  "jobOutput srt mapF reduceF fs inputs n =
     concat (map (\<lambda>k. outLine k (reduceF k (map Value (filter (\<lambda>kv. Key kv = k) (srt (taskPairs mapF fs inputs n (ihash k mod n)))))))
       (sorted_list_of_set (Key ` set (allPairs mapF fs inputs))))"

context key_sort
begin

lemma grouped_keys:
  "map Key (grouped reduceF (srt kvs)) = remdups_adj (map Key (srt kvs))"
  "distinct (map Key (grouped reduceF (srt kvs)))"
  "Key ` set (grouped reduceF (srt kvs)) = Key ` set kvs"
proof -
  show 1: "map Key (grouped reduceF (srt kvs)) = remdups_adj (map Key (srt kvs))"
    by (simp add: grouped_def comp_def)
  show "distinct (map Key (grouped reduceF (srt kvs)))"
    using remdups_adj_sorted_distinct[OF srt_sorted] by (simp only: 1)
  have "set (map Key (grouped reduceF (srt kvs))) = set (map Key (srt kvs))" by (simp only: 1 remdups_adj_set)
  then show "Key ` set (grouped reduceF (srt kvs)) = Key ` set kvs" by (simp add: srt_set)
qed

lemma phases_ok:
  assumes "job_ok fs inputs n" "mr = \<lparr>address = a, doneChannel = d, workers = w, jobName = job, mrFiles = inputs, nReduce = n, shutdown = b, stats = st\<rparr>"
  shows "\<exists>fs1 fs2. sequentialPhase srt mapF reduceF mr mapPhase fs = Inr fs1 \<and>
    sequentialPhase srt mapF reduceF mr reducePhase fs1 = Inr fs2 \<and> locked fs2 = locked fs \<and>
    (\<forall>r < nat n. files fs2 (mergeName job (int r)) =
       (if taskPairs mapF fs inputs n (int r) = [] then files fs (mergeName job (int r))
        else Some (jsonText (grouped reduceF (srt (taskPairs mapF fs inputs n (int r)))))))"
proof -
  have n: "0 < n" and lk: "\<And>x. \<not> locked fs x" and inp: "\<And>f. f \<in> set inputs \<Longrightarrow> inputName f \<and> files fs f \<noteq> None"
    using assms(1) by (auto simp: job_ok_def)
  obtain fs1 where fs1: "foldR (\<lambda>(i, f). doMap job (int i) f n mapF) (enumerate 0 inputs) fs = Inr fs1"
    "locked fs1 = locked fs"
    "\<forall>i < length inputs. \<forall>r. 0 \<le> r \<and> r < n \<longrightarrow>
       files fs1 (reduceName job (int (0 + i)) r) = Some (jsonText (bucket n r (emitted mapF fs (inputs ! i))))"
    "\<forall>x. (\<forall>i r. 0 \<le> i \<and> 0 \<le> r \<longrightarrow> x \<noteq> reduceName job (int i) r) \<longrightarrow> files fs1 x = files fs x"
    using mapPhase_ok[OF n lk inp, of inputs job mapF 0] by blast
  have lk1: "\<not> locked fs1 x" for x using fs1(2) lk by simp
  have t1: "files fs1 (reduceName job (int i) (int r)) = Some (jsonText (bucket n (int r) (emitted mapF fs (inputs ! i))))"
    if "i < length inputs" "r < nat n" for i r
    using fs1(3) that by simp
  obtain fs2 where fs2: "foldR (\<lambda>r. doReduce srt job (int r) (mergeName job (int r)) (len inputs) reduceF) [0..<nat n] fs1 = Inr fs2"
    "locked fs2 = locked fs1"
    "\<forall>r < nat n. files fs2 (mergeName job (int r)) =
       (if taskPairs mapF fs inputs n (int r) = [] then files fs1 (mergeName job (int r))
        else Some (jsonText (grouped reduceF (srt (taskPairs mapF fs inputs n (int r))))))"
    using reducePhase_ok[where job = job and reduceF = reduceF, OF lk1 t1 taskPairs_nth] by blast
  have "files fs1 (mergeName job (int r)) = files fs (mergeName job (int r))" for r
    using fs1(4) by simp
  then show ?thesis
    using fs1(1,2) fs2 assms(2) by (simp add: sequentialPhase_def)
qed

end

context key_sort
begin

lemma merge_output:
  assumes n: "0 < n" and mr: "jobName mr = job" "nReduce mr = n" and lk: "\<not> locked fs2 (outName job)"
    and out: "\<And>r. r < nat n \<Longrightarrow> files fs2 (mergeName job (int r)) =
      Some (jsonText (grouped reduceF (srt (taskPairs mapF fs inputs n (int r)))))"
  shows "\<exists>fs'. merge mr fs2 = Inr fs' \<and> files fs' (outName job) = Some (jobOutput srt mapF reduceF fs inputs n)"
proof -
  let ?A = "\<lambda>r. taskPairs mapF fs inputs n (int r)"
  let ?L = "\<lambda>r. grouped reduceF (srt (?A r))"
  let ?all = "concat (map ?L [0..<nat n])"
  let ?vals = "\<lambda>k. map Value (filter (\<lambda>kv. Key kv = k) (srt (taskPairs mapF fs inputs n (ihash k mod n))))"
  have hash: "ihash k mod n = int r" if "k \<in> Key ` set (?L r)" for k r
    using that by (auto simp: grouped_keys(3) taskPairs_def dest: bucket_hash)
  have d: "distinct (map Key ?all)"
  proof -
    have "set (map Key (?L i)) \<inter> set (map Key (?L j)) = {}" if "i < j" for i j
      using hash[of _ i] hash[of _ j] that by fastforce
    then have "distinct (concat (map (\<lambda>r. map Key (?L r)) [0..<nat n]))"
      by (intro distinct_concat_upt grouped_keys(2)) auto
    then show ?thesis by (simp add: map_concat comp_def)
  qed
  obtain fs' where fs': "merge mr fs2 = Inr fs'"
    "files fs' (outName job) = Some (concat (map (\<lambda>kv. outLine (Key kv) (Value kv)) (sort_key Key ?all)))"
    using merge_ok[of mr fs2 ?L] out d lk mr by auto
  have val: "Value kv = reduceF (Key kv) (?vals (Key kv))" if kv: "kv \<in> set (sort_key Key ?all)" for kv
  proof -
    obtain r where r: "kv \<in> set (?L r)" using kv by auto
    then have "ihash (Key kv) mod n = int r" using hash by blast
    then show ?thesis using r by (auto simp: grouped_def)
  qed
  have keys: "map Key (sort_key Key ?all) = sorted_list_of_set (Key ` set (allPairs mapF fs inputs))"
  proof -
    have "Key ` set ?all = (\<Union>r < nat n. Key ` set (?L r))" by (simp add: image_UN atLeast0LessThan)
    also have "\<dots> = (\<Union>r < nat n. Key ` set (?A r))" by (simp only: grouped_keys(3))
    also have "\<dots> = Key ` set (allPairs mapF fs inputs)" unfolding taskPairs_union[OF n, symmetric] by (rule image_UN[symmetric])
    finally have "set (map Key (sort_key Key ?all)) = Key ` set (allPairs mapF fs inputs)" by simp
    moreover have "sorted (map Key (sort_key Key ?all))" "distinct (map Key (sort_key Key ?all))"
      using d by (simp_all add: distinct_map)
    ultimately show ?thesis by (metis sorted_list_of_set.idem_if_sorted_distinct)
  qed
  have "map (\<lambda>kv. outLine (Key kv) (Value kv)) (sort_key Key ?all) =
      map (\<lambda>k. outLine k (reduceF k (?vals k))) (sorted_list_of_set (Key ` set (allPairs mapF fs inputs)))"
    unfolding keys[symmetric] map_map using val by (intro map_cong) simp_all
  then show ?thesis using fs' by (simp add: jobOutput_def)
qed

lemma Sequential_ok:
  assumes ok: "job_ok fs inputs n" and full: "\<And>r. 0 \<le> r \<Longrightarrow> r < n \<Longrightarrow> taskPairs mapF fs inputs n r \<noteq> []"
  shows "\<exists>mr fs'. Sequential srt job inputs n mapF reduceF fs = Inr (mr, fs') \<and> doneChannel mr = 1 \<and>
    files fs' (outName job) = Some (jobOutput srt mapF reduceF fs inputs n)"
proof -
  have n: "0 < n" and lk: "\<And>x. \<not> locked fs x" using ok by (auto simp: job_ok_def)
  let ?mr = "\<lparr>address = ''master'', doneChannel = 0, workers = [], jobName = job, mrFiles = inputs,
     nReduce = n, shutdown = False, stats = []\<rparr>"
  let ?mr' = "?mr\<lparr>stats := [len inputs + n]\<rparr>"
  obtain fs1 fs2 where ph: "sequentialPhase srt mapF reduceF ?mr mapPhase fs = Inr fs1"
    "sequentialPhase srt mapF reduceF ?mr reducePhase fs1 = Inr fs2" "locked fs2 = locked fs"
    "\<forall>r < nat n. files fs2 (mergeName job (int r)) =
      (if taskPairs mapF fs inputs n (int r) = [] then files fs (mergeName job (int r))
       else Some (jsonText (grouped reduceF (srt (taskPairs mapF fs inputs n (int r))))))"
    using phases_ok[OF ok refl] by blast
  have out: "files fs2 (mergeName job (int r)) = Some (jsonText (grouped reduceF (srt (taskPairs mapF fs inputs n (int r)))))"
    if "r < nat n" for r
    using ph(4) full[of "int r"] that by simp
  have "\<not> locked fs2 (outName job)" using lk ph(3) by simp
  then obtain fs' where "merge ?mr' fs2 = Inr fs'" "files fs' (outName job) = Some (jobOutput srt mapF reduceF fs inputs n)"
    using merge_output[OF n, of ?mr' job fs2 reduceF mapF fs inputs] out by auto
  then show ?thesis using ph(1,2) by (simp add: Sequential_def run_def newMaster_def)
qed

lemma vals_mset:
  "mset (map Value (filter (\<lambda>kv. Key kv = k) (srt (taskPairs mapF fs inputs n (ihash k mod n))))) =
   mset (map Value (filter (\<lambda>kv. Key kv = k) (allPairs mapF fs inputs)))"
  unfolding srt_values taskPairs_def allPairs_def bucket_key ..

lemma Sequential_fatal:
  assumes ok: "job_ok fs inputs n" and r: "0 \<le> r" "r < n" "taskPairs mapF fs inputs n r = []"
    and no: "files fs (mergeName job r) = None"
  shows "Sequential srt job inputs n mapF reduceF fs = Inl (LogFatal ''Merge: '')"
proof -
  let ?mr = "\<lparr>address = ''master'', doneChannel = 0, workers = [], jobName = job, mrFiles = inputs,
     nReduce = n, shutdown = False, stats = []\<rparr>"
  let ?mr' = "?mr\<lparr>stats := [len inputs + n]\<rparr>"
  obtain fs1 fs2 where ph: "sequentialPhase srt mapF reduceF ?mr mapPhase fs = Inr fs1"
    "sequentialPhase srt mapF reduceF ?mr reducePhase fs1 = Inr fs2"
    "\<forall>r < nat n. files fs2 (mergeName job (int r)) =
      (if taskPairs mapF fs inputs n (int r) = [] then files fs (mergeName job (int r))
       else Some (jsonText (grouped reduceF (srt (taskPairs mapF fs inputs n (int r))))))"
    using phases_ok[OF ok refl] by blast
  have "files fs2 (mergeName job (int (nat r))) = None" using ph(3)[rule_format, of "nat r"] r no by simp
  then have "merge ?mr' fs2 = Inl (LogFatal ''Merge: '')" using r by (intro merge_fatal[of "nat r"]) simp_all
  then show ?thesis using ph(1,2) by (simp add: Sequential_def run_def newMaster_def)
qed

end

end
