(* ===== verification/MR_Apps.thy ===== *)
theory MR_Apps
  imports MR_Correct
begin

text \<open>
  The two applications of the library: word count (\<open>main/wc.go\<close>) and inverted index (\<open>main/ii.go\<close>),
  and what the sequential job computes with them. Text is ASCII: \<open>unicode.IsLetter\<close> is the test for the
  52 letters. The order in which Go ranges over a map is not determined, so it is an argument
  \<open>rng\<close> of the map functions; the locale \<open>map_range\<close> of the prelude states that it visits every entry once.
\<close>

section \<open>The code\<close>

definition isLetter :: "char \<Rightarrow> bool" where
  "isLetter c \<longleftrightarrow> (let n = of_char c :: nat in 65 \<le> n \<and> n \<le> 90 \<or> 97 \<le> n \<and> n \<le> 122)"

text \<open>\<open>strings.FieldsFunc\<close>: the maximal runs of characters that do not satisfy the predicate.\<close>

fun fieldsFunc :: "(char \<Rightarrow> bool) \<Rightarrow> string \<Rightarrow> string \<Rightarrow> string list" where
  "fieldsFunc f cur [] = (if cur = [] then [] else [cur])"
| "fieldsFunc f cur (c # s) =
     (if f c then (if cur = [] then [] else [cur]) @ fieldsFunc f [] s else fieldsFunc f (cur @ [c]) s)"

definition wordsOf :: "string \<Rightarrow> string list" where
  "wordsOf contents = fieldsFunc (\<lambda>c. \<not> isLetter c) [] contents"

definition countWord :: "(string \<times> int) list \<Rightarrow> string \<Rightarrow> (string \<times> int) list" where
  "countWord wordMap word =
     (case map_of wordMap word of
        Some n \<Rightarrow> AList.update word (n + 1) wordMap
      | None \<Rightarrow> AList.update word 1 wordMap)"

definition wcMapF :: "((string \<times> int) list \<Rightarrow> (string \<times> int) list) \<Rightarrow> string \<Rightarrow> string \<Rightarrow> KeyValue list" where
  "wcMapF rng filename contents =
     map (\<lambda>(k, v). \<lparr>Key = k, Value = Itoa v\<rparr>) (rng (foldl countWord [] (wordsOf contents)))"

definition wcReduceF :: "string \<Rightarrow> string list \<Rightarrow> string" where
  "wcReduceF key values =
     Itoa (foldl (\<lambda>count v. case Atoi v of Some cnt \<Rightarrow> count + cnt | None \<Rightarrow> count) 0 values)"

definition noteWord :: "(string \<times> unit) list \<Rightarrow> string \<Rightarrow> (string \<times> unit) list" where
  "noteWord wordMap word =
     (case map_of wordMap word of Some _ \<Rightarrow> wordMap | None \<Rightarrow> AList.update word () wordMap)"

definition iiMapF :: "((string \<times> unit) list \<Rightarrow> (string \<times> unit) list) \<Rightarrow> string \<Rightarrow> string \<Rightarrow> KeyValue list" where
  "iiMapF rng document value =
     map (\<lambda>(k, _). \<lparr>Key = k, Value = document\<rparr>) (rng (foldl noteWord [] (wordsOf value)))"

definition joinStrings :: "string \<Rightarrow> string list \<Rightarrow> string" where
  "joinStrings sep xs = (case xs of [] \<Rightarrow> [] | x # xs \<Rightarrow> x @ concat (map (\<lambda>y. sep @ y) xs))"

definition iiReduceF :: "string \<Rightarrow> string list \<Rightarrow> string" where
  "iiReduceF key values = (let values = sort values in Itoa (len values) @ '' '' @ joinStrings '','' values)"

section \<open>The map functions\<close>

lemma countWord_map_of:
  "map_of (countWord al w) = (map_of al)(w \<mapsto> (case map_of al w of None \<Rightarrow> 1 | Some n \<Rightarrow> n + 1))"
  by (auto simp: countWord_def update_conv' split: option.splits)

lemma countWord_distinct: "distinct (map fst al) \<Longrightarrow> distinct (map fst (countWord al w))"
  by (auto simp: countWord_def distinct_update split: option.splits)

lemma countWords:
  "map_of (foldl countWord [] ws) w = (if w \<in> set ws then Some (int (count_list ws w)) else None)"
  "distinct (map fst (foldl countWord [] ws))"
proof -
  show "map_of (foldl countWord [] ws) w = (if w \<in> set ws then Some (int (count_list ws w)) else None)"
    by (induction ws arbitrary: w rule: rev_induct) (auto simp: countWord_map_of count_list_0_iff)
  show "distinct (map fst (foldl countWord [] ws))"
    by (induction ws rule: rev_induct) (auto simp: countWord_distinct)
qed

lemma noteWords:
  "map_of (foldl noteWord [] ws) w = (if w \<in> set ws then Some () else None)"
  "distinct (map fst (foldl noteWord [] ws))"
proof -
  show "map_of (foldl noteWord [] ws) w = (if w \<in> set ws then Some () else None)"
    by (induction ws arbitrary: w rule: rev_induct) (auto simp: noteWord_def update_conv' split: option.splits)
  show "distinct (map fst (foldl noteWord [] ws))"
    by (induction ws rule: rev_induct) (auto simp: noteWord_def distinct_update split: option.splits)
qed

lemma filter_pairs:
  "map Value (filter (\<lambda>kv. Key kv = k) (map (\<lambda>(k, v). \<lparr>Key = k, Value = f v\<rparr>) al)) =
   map (\<lambda>(k, v). f v) (filter (\<lambda>(k', v). k' = k) al)"
  by (induction al) auto

section \<open>Word count\<close>

definition inputWords :: "FS \<Rightarrow> string list \<Rightarrow> string list" where
  "inputWords fs inputs = concat (map (\<lambda>f. wordsOf (the (files fs f))) inputs)"

lemma wc_values:
  assumes "map_range rng"
  shows "map Value (filter (\<lambda>kv. Key kv = k) (wcMapF rng f c)) =
    (if k \<in> set (wordsOf c) then [Itoa (int (count_list (wordsOf c) k))] else [])"
  using map_range.rng_filter[OF assms countWords(2), of k "wordsOf c"]
  by (simp add: wcMapF_def filter_pairs countWords(1))

lemma wc_keys:
  assumes "map_range rng"
  shows "Key ` set (wcMapF rng f c) = set (wordsOf c)"
proof -
  have "fst ` set (foldl countWord [] (wordsOf c)) = set (wordsOf c)"
    using countWords(1)[of "wordsOf c"] by (auto simp: dom_map_of_conv_image_fst[symmetric] dom_def split: if_splits)
  then show ?thesis
    by (simp add: wcMapF_def map_range.rng_set[OF assms] image_image case_prod_unfold)
qed

lemma wc_allPairs_keys: "map_range rng \<Longrightarrow> Key ` set (allPairs (wcMapF rng) fs inputs) = set (inputWords fs inputs)"
  by (simp add: allPairs_def inputWords_def emitted_def image_UN wc_keys)

definition atoiVal :: "string \<Rightarrow> int" where
  "atoiVal v = (case Atoi v of Some cnt \<Rightarrow> cnt | None \<Rightarrow> 0)"

lemma wcReduceF_sum: "wcReduceF k vs = Itoa (sum_list (map atoiVal vs))"
proof -
  have "foldl (\<lambda>count v. case Atoi v of Some cnt \<Rightarrow> count + cnt | None \<Rightarrow> count) a vs = a + sum_list (map atoiVal vs)" for a
    by (induction vs arbitrary: a) (auto simp: atoiVal_def split: option.splits)
  then show ?thesis by (simp add: wcReduceF_def)
qed

lemma wcReduceF_mset: "mset vs = mset vs' \<Longrightarrow> wcReduceF k vs = wcReduceF k vs'"
  unfolding wcReduceF_sum by (metis mset_map sum_mset_sum_list)

lemma count_list_concat: "count_list (concat xss) x = sum_list (map (\<lambda>xs. count_list xs x) xss)"
  by (induction xss) simp_all

lemma wc_total:
  assumes "map_range rng"
  shows "wcReduceF k (map Value (filter (\<lambda>kv. Key kv = k) (allPairs (wcMapF rng) fs inputs))) =
    Itoa (int (count_list (inputWords fs inputs) k))"
proof -
  have "sum_list (map atoiVal (map Value (filter (\<lambda>kv. Key kv = k) (allPairs (wcMapF rng) fs inputs)))) =
      int (count_list (inputWords fs inputs) k)"
  proof (induction inputs)
    case (Cons f inputs)
    then show ?case
      using wc_values[OF assms, of k f "the (files fs f)"]
      by (auto simp: allPairs_def inputWords_def emitted_def atoiVal_def Atoi_Itoa count_list_0_iff)
  qed (simp add: allPairs_def inputWords_def)
  then show ?thesis by (simp add: wcReduceF_sum)
qed

section \<open>Inverted index\<close>

lemma ii_values:
  assumes "map_range rng"
  shows "map Value (filter (\<lambda>kv. Key kv = k) (iiMapF rng f c)) = (if k \<in> set (wordsOf c) then [f] else [])"
  unfolding iiMapF_def filter_pairs[of k "\<lambda>_. f"] map_range.rng_filter[OF assms noteWords(2)]
  by (simp add: noteWords(1))

lemma ii_keys:
  assumes "map_range rng"
  shows "Key ` set (iiMapF rng f c) = set (wordsOf c)"
proof -
  have "fst ` set (foldl noteWord [] (wordsOf c)) = set (wordsOf c)"
    using noteWords(1)[of "wordsOf c"] by (auto simp: dom_map_of_conv_image_fst[symmetric] dom_def split: if_splits)
  then show ?thesis
    by (simp add: iiMapF_def map_range.rng_set[OF assms] image_image case_prod_unfold)
qed

lemma ii_allPairs_keys: "map_range rng \<Longrightarrow> Key ` set (allPairs (iiMapF rng) fs inputs) = set (inputWords fs inputs)"
  by (simp add: allPairs_def inputWords_def emitted_def image_UN ii_keys)

definition docsWith :: "FS \<Rightarrow> string list \<Rightarrow> string \<Rightarrow> string list" where
  "docsWith fs inputs w = filter (\<lambda>f. w \<in> set (wordsOf (the (files fs f)))) inputs"

lemma ii_docs:
  assumes "map_range rng"
  shows "map Value (filter (\<lambda>kv. Key kv = k) (allPairs (iiMapF rng) fs inputs)) = docsWith fs inputs k"
proof (induction inputs)
  case (Cons f inputs)
  then show ?case
    using ii_values[OF assms, of k f "the (files fs f)"] by (simp add: allPairs_def emitted_def docsWith_def)
qed (simp add: allPairs_def docsWith_def)

lemma iiReduceF_mset: "mset vs = mset vs' \<Longrightarrow> iiReduceF k vs = iiReduceF k vs'"
  unfolding iiReduceF_def by (metis sorted_list_of_multiset_mset)

end
