(* ===== verification/MR_Worker.thy ===== *)
theory MR_Worker
  imports MR_Correct
begin

text \<open>
  \<open>mapreduce/worker.go\<close>, \<open>common_rpc.go\<close> and the registration and shutdown side of \<open>master.go\<close> and
  \<open>master_rpc.go\<close>. \<open>DoTask\<close> is cut where it holds no lock: entering (lines 44--67), the task itself
  (lines 75--80) and leaving (lines 82--90), since other calls may run in between. The
  \<open>Parallelism\<close> record that several workers share is passed along.

  Opening and closing sockets, printing and sleeping are not modelled; \<open>call\<close> succeeds or fails as the
  network decides, so its outcome is an argument where it is used.
\<close>

section \<open>RPC types\<close>

record DoTaskArgs =
  JobName :: string
  File :: string
  Phase :: jobPhase
  TaskNumber :: int
  NumOtherPhase :: int

record Parallelism =
  now :: int
  maxPar :: int \<comment> \<open>\<open>max\<close>\<close>

record Worker =
  name :: string
  MapF :: "string \<Rightarrow> string \<Rightarrow> KeyValue list"
  ReduceF :: "string \<Rightarrow> string list \<Rightarrow> string"
  nRPC :: int
  nTasks :: int
  concurrent :: int
  parallelism :: bool \<comment> \<open>a \<open>Parallelism\<close> record is attached\<close>

section \<open>The worker\<close>

text \<open>The second result tells whether the worker pauses (lines 63--65).\<close>

definition enterPar :: "Parallelism \<Rightarrow> Parallelism \<times> bool" where
  "enterPar p =
     (let p = p\<lparr>now := now p + 1\<rparr>;
          p = (if now p > maxPar p then p\<lparr>maxPar := now p\<rparr> else p)
      in (p, maxPar p < 2))"

definition DoTask_enter :: "Worker \<Rightarrow> Parallelism \<Rightarrow> (Worker \<times> Parallelism \<times> bool) res" where
  "DoTask_enter wk par =
     (let wk = wk\<lparr>nTasks := nTasks wk + 1\<rparr>;
          wk = wk\<lparr>concurrent := concurrent wk + 1\<rparr>;
          nc = concurrent wk
      in if nc > 1 then Inl (LogFatal ''Worker.DoTask: more than one DoTask sent concurrently to a single worker'')
         else if parallelism wk then (let (par, pause) = enterPar par in Inr (wk, par, pause))
         else Inr (wk, par, False))"

definition DoTask_run :: "(KeyValue list \<Rightarrow> KeyValue list) \<Rightarrow> Worker \<Rightarrow> DoTaskArgs \<Rightarrow> FS \<Rightarrow> FS res" where
  "DoTask_run srt wk arg fs =
     (case Phase arg of
        mapPhase \<Rightarrow> doMap (JobName arg) (TaskNumber arg) (File arg) (NumOtherPhase arg) (MapF wk) fs
      | reducePhase \<Rightarrow>
          doReduce srt (JobName arg) (TaskNumber arg) (mergeName (JobName arg) (TaskNumber arg))
            (NumOtherPhase arg) (ReduceF wk) fs)"

definition DoTask_leave :: "Worker \<Rightarrow> Parallelism \<Rightarrow> Worker \<times> Parallelism" where
  "DoTask_leave wk par =
     (let wk = wk\<lparr>concurrent := concurrent wk - 1\<rparr>
      in if parallelism wk then (wk, par\<lparr>now := now par - 1\<rparr>) else (wk, par))"

text \<open>The whole handler, when no other call to the worker runs meanwhile.\<close>

definition DoTask ::
  "(KeyValue list \<Rightarrow> KeyValue list) \<Rightarrow> DoTaskArgs \<Rightarrow> Worker \<Rightarrow> Parallelism \<Rightarrow> FS \<Rightarrow> (Worker \<times> Parallelism \<times> FS) res" where
  "DoTask srt arg wk par fs =
     bindR (DoTask_enter wk par) (\<lambda>(wk, par, pause).
     bindR (DoTask_run srt wk arg fs) (\<lambda>fs.
     let (wk, par) = DoTask_leave wk par in Inr (wk, par, fs)))"

definition Shutdown :: "Worker \<Rightarrow> Worker \<times> int" where
  "Shutdown wk = (wk\<lparr>nRPC := 1\<rparr>, nTasks wk)"

text \<open>
  Lines 142--158: whether the loop goes on, and what an accepted connection does to the counter;
  \<open>serveLoop\<close> runs the loop over the requests that arrive, \<open>None\<close> standing for a failed \<open>Accept\<close>. Each
  accepted request is served (\<open>serve\<close>) before the next one arrives.
\<close>

fun serveLoop :: "('r \<Rightarrow> Worker \<Rightarrow> Worker) \<Rightarrow> 'r option list \<Rightarrow> Worker \<Rightarrow> Worker \<times> 'r list" where
  "serveLoop serve reqs wk =
     (if nRPC wk = 0 then (wk, [])
      else case reqs of
        [] \<Rightarrow> (wk, [])
      | None # reqs' \<Rightarrow> (wk, [])
      | Some r # reqs' \<Rightarrow>
          (let (wk', rs) = serveLoop serve reqs' (serve r (wk\<lparr>nRPC := nRPC wk - 1\<rparr>)) in (wk', r # rs)))"

declare serveLoop.simps [simp del]

definition RunWorker ::
  "string \<Rightarrow> (string \<Rightarrow> string \<Rightarrow> KeyValue list) \<Rightarrow> (string \<Rightarrow> string list \<Rightarrow> string) \<Rightarrow> int \<Rightarrow> bool \<Rightarrow> Worker" where
  "RunWorker me MapFunc ReduceFunc n par =
     \<lparr>name = me, MapF = MapFunc, ReduceF = ReduceFunc, nRPC = n, nTasks = 0, concurrent = 0, parallelism = par\<rparr>"

section \<open>Registration at the master\<close>

definition Register :: "string \<Rightarrow> Master \<Rightarrow> Master" where
  "Register w mr = mr\<lparr>workers := workers mr @ [w]\<rparr>"

text \<open>
  One turn of \<open>forwardRegistrations\<close>: the worker whose sender goroutine is started, and the new
  position; \<open>None\<close> when it waits for the condition.
\<close>

definition forwardRegistrations :: "Master \<Rightarrow> int \<Rightarrow> (string \<times> int) option" where
  "forwardRegistrations mr i = (if len (workers mr) > i then Some (workers mr ! nat i, i + 1) else None)"

text \<open>\<open>reply w\<close> is what the Shutdown RPC to \<open>w\<close> returns, if it succeeds.\<close>

definition killWorkers :: "(string \<Rightarrow> int option) \<Rightarrow> Master \<Rightarrow> int list" where
  "killWorkers reply mr =
     foldl (\<lambda>ntasks w. case reply w of None \<Rightarrow> ntasks | Some n \<Rightarrow> ntasks @ [n]) [] (workers mr)"

text \<open>\<open>Master.Shutdown\<close>: closing a closed channel panics.\<close>

definition MasterShutdown :: "Master \<Rightarrow> Master res" where
  "MasterShutdown mr =
     (if shutdown mr then Inl (Panicked ''close of closed channel'') else Inr (mr\<lparr>shutdown := True\<rparr>))"

section \<open>Facts\<close>

text \<open>One call at a time is served, keeps the worker idle afterwards, and counts the task.\<close>

lemma DoTask_idle:
  assumes "concurrent wk = 0" "DoTask_run srt wk arg fs = Inr fs'"
  shows "\<exists>wk' par'. DoTask srt arg wk par fs = Inr (wk', par', fs') \<and> concurrent wk' = 0 \<and> nTasks wk' = nTasks wk + 1 \<and>
    now par' = now par \<and> maxPar par \<le> maxPar par'"
proof -
  have "DoTask_run srt (wk\<lparr>nTasks := a, concurrent := b\<rparr>) arg fs = DoTask_run srt wk arg fs" for a b
    by (simp add: DoTask_run_def split: jobPhase.split)
  then show ?thesis
    using assms by (auto simp: DoTask_def DoTask_enter_def DoTask_leave_def enterPar_def Let_def split: if_splits)
qed

lemma DoTask_busy:
  assumes "0 < concurrent wk"
  shows "DoTask srt arg wk par fs = Inl (LogFatal ''Worker.DoTask: more than one DoTask sent concurrently to a single worker'')"
  using assms by (simp add: DoTask_def DoTask_enter_def Let_def)

lemma killWorkers_eq: "killWorkers reply mr = List.map_filter reply (workers mr)"
proof -
  have "foldl (\<lambda>ntasks w. case reply w of None \<Rightarrow> ntasks | Some n \<Rightarrow> ntasks @ [n]) acc ws = acc @ List.map_filter reply ws" for acc ws
    by (induction ws arbitrary: acc) (auto simp: map_filter_simps split: option.splits)
  then show ?thesis by (simp add: killWorkers_def)
qed

text \<open>The loop accepts at most \<open>nRPC\<close> connections as long as no request changes the counter.\<close>

lemma serveLoop_count:
  assumes "\<And>r wk. nRPC (serve r wk) = nRPC wk" "0 \<le> nRPC wk"
  shows "len (snd (serveLoop serve (map Some rs) wk)) = min (nRPC wk) (len rs)"
  using assms(2)
proof (induction rs arbitrary: wk)
  case Nil
  then show ?case by (simp add: serveLoop.simps)
next
  case (Cons r rs)
  then show ?case
    using Cons.IH[of "serve r (wk\<lparr>nRPC := nRPC wk - 1\<rparr>)"] assms(1)
    by (cases "nRPC wk = 0") (simp_all add: serveLoop.simps[of serve "Some r # map Some rs" wk] case_prod_unfold Let_def)
qed

end
