(* ===== verification/MR_Schedule.thy ===== *)
theory MR_Schedule
  imports MR_Worker
begin

text \<open>
  \<open>mapreduce/schedule.go\<close>: the scheduler of one phase as a state machine. The scheduler goroutine is
  always found in its \<open>select\<close>; what it does between two receives is one function (\<open>recvRegister\<close>,
  \<open>recvResult\<close>). Around it run the goroutines that call a worker (\<open>calls\<close>) and then wait to send
  their result on the unbuffered channel (\<open>results\<close>).

  The environment decides which worker registers next, when a call's task is executed on the shared
  file system, when and how the call returns, and whose result is received next. A call can only
  succeed after its task has been executed; it can fail before or after. A task runs as one step.
  Three history variables (\<open>registered\<close>, \<open>issued\<close>, \<open>failed\<close>) record what has happened.
\<close>

section \<open>Queues made of a slice and the index of its head\<close>

record 'a SliceQueue =
  qslice :: "'a list"
  qhead :: int

definition qEmpty :: "'a SliceQueue \<Rightarrow> bool" where
  "qEmpty q \<longleftrightarrow> len (qslice q) = qhead q"

definition qPush :: "'a \<Rightarrow> 'a SliceQueue \<Rightarrow> 'a SliceQueue" where
  "qPush x q = q\<lparr>qslice := qslice q @ [x]\<rparr>"

definition qPop :: "'a SliceQueue \<Rightarrow> ('a \<times> 'a SliceQueue) res" where
  "qPop q = bindR (idx (qslice q) (qhead q)) (\<lambda>x. Inr (x, q\<lparr>qhead := qhead q + 1\<rparr>))"

definition qList :: "'a SliceQueue \<Rightarrow> 'a list" where
  "qList q = drop (nat (qhead q)) (qslice q)"

definition qInv :: "'a SliceQueue \<Rightarrow> bool" where
  "qInv q \<longleftrightarrow> 0 \<le> qhead q \<and> qhead q \<le> len (qslice q)"

text \<open>The contract of a first-in-first-out queue, by abstraction to the list of its elements.\<close>

locale fifo =
  fixes isEmpty :: "'q \<Rightarrow> bool"
    and push :: "'a \<Rightarrow> 'q \<Rightarrow> 'q"
    and pop :: "'q \<Rightarrow> ('a \<times> 'q) res"
    and elems :: "'q \<Rightarrow> 'a list"
    and inv :: "'q \<Rightarrow> bool"
  assumes isEmpty_elems: "inv q \<Longrightarrow> isEmpty q \<longleftrightarrow> elems q = []"
    and push_elems: "inv q \<Longrightarrow> elems (push x q) = elems q @ [x]"
    and push_inv: "inv q \<Longrightarrow> inv (push x q)"
    and pop_elems: "inv q \<Longrightarrow> elems q = x # xs \<Longrightarrow> \<exists>q'. pop q = Inr (x, q') \<and> inv q' \<and> elems q' = xs"
begin

lemma pop_nonempty:
  assumes "inv q" "\<not> isEmpty q"
  obtains q' where "pop q = Inr (hd (elems q), q')" "inv q'" "elems q = hd (elems q) # elems q'"
proof -
  obtain x xs where x: "elems q = x # xs" using assms isEmpty_elems by (cases "elems q") auto
  with pop_elems[OF assms(1)] that show thesis by auto
qed

end

interpretation slice_queue: fifo qEmpty qPush qPop qList qInv
proof
  fix q :: "'a SliceQueue" and x xs
  assume q: "qInv q"
  show "qEmpty q \<longleftrightarrow> qList q = []" using q by (auto simp: qInv_def qEmpty_def qList_def)
  show "qList (qPush x q) = qList q @ [x]" "qInv (qPush x q)"
    using q by (auto simp: qInv_def qPush_def qList_def)
  assume e: "qList q = x # xs"
  then have "qhead q \<noteq> len (qslice q)" by (auto simp: qList_def)
  then have lt: "qhead q < len (qslice q)" using q by (simp add: qInv_def)
  have "0 \<le> qhead q" using q by (simp add: qInv_def)
  from drop_int_Cons[OF this lt] e have "x = qslice q ! nat (qhead q)" "xs = drop (nat (qhead q + 1)) (qslice q)"
    by (simp_all add: qList_def)
  then show "\<exists>q'. qPop q = Inr (x, q') \<and> qInv q' \<and> qList q' = xs"
    using q lt by (simp add: qPop_def qInv_def qList_def)
qed

section \<open>The scheduler\<close>

record DoTaskResult =
  Ok :: bool
  TaskIdx :: int
  ResWorker :: string \<comment> \<open>\<open>Worker\<close>\<close>

record Job = \<comment> \<open>the arguments of \<open>schedule\<close>\<close>
  sJob :: string
  mapFiles :: "string list"
  sReduce :: int
  sPhase :: jobPhase

record Sched =
  doneMap :: "int list" \<comment> \<open>the keys of the map\<close>
  doneN :: int
  taskQ :: "int SliceQueue" \<comment> \<open>\<open>taskQu\<close>, \<open>taskHead\<close>\<close>
  idleQ :: "string SliceQueue" \<comment> \<open>\<open>idleWorkers\<close>, \<open>idleHead\<close>\<close>
  finished :: bool
  calls :: "(string \<times> DoTaskArgs \<times> bool) list" \<comment> \<open>worker, argument, task executed\<close>
  results :: "DoTaskResult list"
  sfs :: FS
  registered :: "string list"
  issued :: nat
  failed :: nat

definition ntasks :: "Job \<Rightarrow> int" where
  "ntasks J = (case sPhase J of mapPhase \<Rightarrow> len (mapFiles J) | reducePhase \<Rightarrow> sReduce J)"

definition n_other :: "Job \<Rightarrow> int" where
  "n_other J = (case sPhase J of mapPhase \<Rightarrow> sReduce J | reducePhase \<Rightarrow> len (mapFiles J))"

text \<open>Lines 41--50. \<open>make\<close> panics on a negative length.\<close>

definition schedStart :: "Job \<Rightarrow> FS \<Rightarrow> Sched res" where
  "schedStart J fs =
     (if ntasks J < 0 then Inl (Panicked ''makeslice: len out of range'')
      else Inr \<lparr>doneMap = [], doneN = 0, taskQ = \<lparr>qslice = map int [0..<nat (ntasks J)], qhead = 0\<rparr>,
        idleQ = \<lparr>qslice = [], qhead = 0\<rparr>, finished = False, calls = [], results = [], sfs = fs,
        registered = [], issued = 0, failed = 0\<rparr>)"

text \<open>Lines 88--97.\<close>

definition taskArgs :: "Job \<Rightarrow> int \<Rightarrow> DoTaskArgs res" where
  "taskArgs J taskIdx =
     (let arg = \<lparr>JobName = sJob J, File = '''', Phase = sPhase J, TaskNumber = taskIdx, NumOtherPhase = n_other J\<rparr>
      in if sPhase J = mapPhase
         then bindR (idx (mapFiles J) taskIdx) (\<lambda>f. Inr (arg\<lparr>File := f\<rparr>))
         else Inr arg)"

text \<open>
  Lines 80--107, for the worker that left the inner loop: it gets the next task and a goroutine calls
  it, or it becomes idle. An empty name goes back to the \<open>select\<close> (line 57).
\<close>

definition offer :: "Job \<Rightarrow> string \<Rightarrow> Sched \<Rightarrow> Sched res" where
  "offer J worker s =
     (if worker = '''' then Inr s
      else if \<not> qEmpty (taskQ s) then
        bindR (qPop (taskQ s)) (\<lambda>(taskIdx, tq).
        bindR (taskArgs J taskIdx) (\<lambda>arg.
          Inr (s\<lparr>taskQ := tq, calls := calls s @ [(worker, arg, False)], issued := issued s + 1\<rparr>)))
      else Inr (s\<lparr>idleQ := qPush worker (idleQ s)\<rparr>))"

definition recvRegister :: "Job \<Rightarrow> string \<Rightarrow> Sched \<Rightarrow> Sched res" where
  "recvRegister J w s = offer J w s"

definition recvResult :: "Job \<Rightarrow> DoTaskResult \<Rightarrow> Sched \<Rightarrow> Sched res" where
  "recvResult J result s =
     (if Ok result then
        (if TaskIdx result \<notin> set (doneMap s) then
           (let s = s\<lparr>doneN := doneN s + 1\<rparr>;
                s = s\<lparr>doneMap := TaskIdx result # doneMap s\<rparr>
            in if doneN s = ntasks J then Inr (s\<lparr>finished := True\<rparr>)
               else offer J (ResWorker result) s)
         else offer J (ResWorker result) s)
      else
        (let s = s\<lparr>taskQ := qPush (TaskIdx result) (taskQ s), failed := failed s + 1\<rparr>
         in if \<not> qEmpty (idleQ s)
            then bindR (qPop (idleQ s)) (\<lambda>(worker, iq). offer J worker (s\<lparr>idleQ := iq\<rparr>))
            else Inr s))"

datatype sched_event =
    Registers string
  | Executes nat
  | Returns nat bool
  | Receives nat

definition schedExec ::
  "Job \<Rightarrow> (DoTaskArgs \<Rightarrow> FS \<Rightarrow> FS res) \<Rightarrow> sched_event \<Rightarrow> Sched \<Rightarrow> Sched res option" where
  "schedExec J task e s =
     (case e of
        Registers w \<Rightarrow> if finished s then None else Some (recvRegister J w (s\<lparr>registered := registered s @ [w]\<rparr>))
      | Executes k \<Rightarrow>
          if k < length (calls s) then
            (let (w, arg, ex) = calls s ! k in
             if ex then None
             else case task arg (sfs s) of
               Inl _ \<Rightarrow> None
             | Inr fs \<Rightarrow> Some (Inr (s\<lparr>sfs := fs, calls := (calls s)[k := (w, arg, True)]\<rparr>)))
          else None
      | Returns k ok \<Rightarrow>
          if k < length (calls s) then
            (let (w, arg, ex) = calls s ! k in
             if ok \<and> \<not> ex then None
             else Some (Inr (s\<lparr>calls := removeAt k (calls s),
               results := results s @ [\<lparr>Ok = ok, TaskIdx = TaskNumber arg, ResWorker = w\<rparr>]\<rparr>)))
          else None
      | Receives k \<Rightarrow>
          if \<not> finished s \<and> k < length (results s)
          then Some (recvResult J (results s ! k) (s\<lparr>results := removeAt k (results s)\<rparr>))
          else None)"

text \<open>Every worker registers once, under a name of its own.\<close>

definition schedStep :: "Job \<Rightarrow> (DoTaskArgs \<Rightarrow> FS \<Rightarrow> FS res) \<Rightarrow> Sched \<Rightarrow> Sched \<Rightarrow> bool" where
  "schedStep J task s t \<longleftrightarrow>
     (\<exists>e. schedExec J task e s = Some (Inr t) \<and> (\<forall>w. e = Registers w \<longrightarrow> w \<notin> set (registered s)))"

abbreviation schedReach :: "Job \<Rightarrow> (DoTaskArgs \<Rightarrow> FS \<Rightarrow> FS res) \<Rightarrow> FS \<Rightarrow> Sched \<Rightarrow> bool" where
  "schedReach J task fs \<equiv> reach (\<lambda>s. schedStart J fs = Inr s) (schedStep J task)"

fun schedRun :: "Job \<Rightarrow> (DoTaskArgs \<Rightarrow> FS \<Rightarrow> FS res) \<Rightarrow> sched_event list \<Rightarrow> Sched \<Rightarrow> Sched res option" where
  "schedRun J task [] s = Some (Inr s)"
| "schedRun J task (e # es) s =
     (case schedExec J task e s of Some (Inr t) \<Rightarrow> schedRun J task es t | r \<Rightarrow> r)"

end
