(* ===== verification/MR_Schedule_Inv.thy ===== *)
theory MR_Schedule_Inv
  imports MR_Schedule
begin

text \<open>
  The invariant of the scheduler: every task is in exactly one place (queued, called, reported or
  done), every worker is in at most one place (idle, called, reported), and no worker is idle while
  a task waits. It gives that no event panics, that no worker gets two calls at a time, and that
  nothing is outstanding when the scheduler returns.
\<close>

section \<open>The invariant\<close>

definition callTask :: "string \<times> DoTaskArgs \<times> bool \<Rightarrow> int" where
  "callTask c = TaskNumber (fst (snd c))"

definition taskBag :: "Sched \<Rightarrow> int multiset" where
  "taskBag s = mset (qList (taskQ s)) + mset (map callTask (calls s)) + mset (map TaskIdx (results s)) + mset (doneMap s)"

definition busyWorkers :: "Sched \<Rightarrow> string multiset" where
  "busyWorkers s = mset (qList (idleQ s)) + mset (map fst (calls s)) + mset (map ResWorker (results s))"

text \<open>The part that holds also while the scheduler has a worker in hand.\<close>

definition sbase :: "Job \<Rightarrow> string multiset \<Rightarrow> Sched \<Rightarrow> bool" where
  "sbase J W s \<longleftrightarrow>
     qInv (taskQ s) \<and> qInv (idleQ s) \<and> 0 \<le> ntasks J \<and>
     taskBag s = mset (map int [0..<nat (ntasks J)]) \<and> doneN s = len (doneMap s) \<and>
     (\<forall>w. count (W + busyWorkers s) w \<le> (if w \<in> set (registered s) \<and> w \<noteq> '''' then 1 else 0)) \<and>
     issued s = length (calls s) + length (results s) + length (doneMap s) + failed s \<and>
     (\<forall>(w, arg, ex) \<in> set (calls s). taskArgs J (TaskNumber arg) = Inr arg)"

definition sinv :: "Job \<Rightarrow> Sched \<Rightarrow> bool" where
  "sinv J s \<longleftrightarrow> sbase J {#} s \<and>
     (qList (idleQ s) \<noteq> [] \<longrightarrow> qList (taskQ s) = []) \<and>
     (if finished s then 0 < ntasks J \<and> doneN s = ntasks J else ntasks J = 0 \<or> doneN s < ntasks J)"

lemma taskArgs_total:
  assumes "0 \<le> t" "t < ntasks J"
  shows "\<exists>arg. taskArgs J t = Inr arg \<and> TaskNumber arg = t"
  using assms by (auto simp: taskArgs_def ntasks_def Let_def split: jobPhase.splits)

lemma taskArgs_number: "taskArgs J t = Inr arg \<Longrightarrow> TaskNumber arg = t"
  by (auto simp: taskArgs_def Let_def bindR_eq_Inr split: if_splits)

lemma task_range:
  assumes "sbase J W s" "t \<in># taskBag s"
  shows "0 \<le> t" "t < ntasks J"
  using assms by (auto simp: sbase_def)

section \<open>Handing a worker a task\<close>

lemma offer_base:
  assumes b: "sbase J {#w#} s" and i: "qList (idleQ s) \<noteq> [] \<longrightarrow> length (qList (taskQ s)) \<le> 1"
  obtains t where "offer J w s = Inr t" "sbase J {#} t" "qList (idleQ t) \<noteq> [] \<longrightarrow> qList (taskQ t) = []"
    "finished t = finished s" "doneN t = doneN s" "doneMap t = doneMap s" "sfs t = sfs s" "results t = results s"
    "\<And>c. c \<in> set (calls t) \<Longrightarrow> c \<in> set (calls s) \<or> (\<exists>w arg. c = (w, arg, False))"
proof -
  have q: "qInv (taskQ s)" "qInv (idleQ s)" using b by (simp_all add: sbase_def)
  have cw: "count (add_mset w (busyWorkers s)) v \<le> (if v \<in> set (registered s) \<and> v \<noteq> '''' then 1 else 0)" for v
    using b by (simp add: sbase_def)
  then have w: "w \<noteq> ''''" using cw[of w] by (auto split: if_splits)
  show thesis
  proof (cases "qEmpty (taskQ s)")
    case True
    let ?t = "s\<lparr>idleQ := qPush w (idleQ s)\<rparr>"
    have e: "qList (taskQ s) = []" using slice_queue.isEmpty_elems[OF q(1)] True by simp
    have "busyWorkers ?t = add_mset w (busyWorkers s)"
      by (simp add: busyWorkers_def slice_queue.push_elems[OF q(2)])
    then have "sbase J {#} ?t"
      using b slice_queue.push_inv[OF q(2)] by (simp add: sbase_def taskBag_def)
    then show thesis using that[of ?t] True w e by (simp add: offer_def)
  next
    case False
    obtain tq where tq: "qPop (taskQ s) = Inr (hd (qList (taskQ s)), tq)" "qInv tq"
      "qList (taskQ s) = hd (qList (taskQ s)) # qList tq"
      using slice_queue.pop_nonempty[OF q(1) False] .
    let ?x = "hd (qList (taskQ s))"
    have "?x \<in># taskBag s" unfolding taskBag_def by (subst tq(3)) simp
    then obtain arg where arg: "taskArgs J ?x = Inr arg" "TaskNumber arg = ?x"
      using task_range[OF b] taskArgs_total by blast
    let ?t = "s\<lparr>taskQ := tq, calls := calls s @ [(w, arg, False)], issued := issued s + 1\<rparr>"
    have "mset (qList (taskQ s)) = add_mset ?x (mset (qList tq))" by (subst tq(3)) simp
    then have tb: "taskBag ?t = taskBag s" using arg by (simp add: taskBag_def callTask_def)
    have "busyWorkers ?t = add_mset w (busyWorkers s)" by (simp add: busyWorkers_def)
    then have "sbase J {#} ?t" using b tq(2) tb arg by (auto simp: sbase_def)
    moreover have "qList tq = []" if "qList (idleQ s) \<noteq> []"
      using i that tq(3) by (metis One_nat_def Suc_le_mono le_zero_eq length_0_conv length_Cons)
    ultimately show thesis using that[of ?t] False w tq(1) arg by (auto simp: offer_def)
  qed
qed

lemma sbase_weaken:
  assumes "sbase J (W + V) s"
  shows "sbase J W s"
proof -
  have "count (W + busyWorkers s) w \<le> (if w \<in> set (registered s) \<and> w \<noteq> '''' then 1 else 0)" for w
  proof -
    have "count (W + busyWorkers s) w \<le> count (W + V + busyWorkers s) w" by simp
    also have "\<dots> \<le> (if w \<in> set (registered s) \<and> w \<noteq> '''' then 1 else 0)"
      using assms unfolding sbase_def by blast
    finally show ?thesis .
  qed
  then show ?thesis using assms unfolding sbase_def by blast
qed

lemma taskBag_distinct:
  assumes "sbase J W s"
  shows "count (taskBag s) t \<le> 1"
proof -
  have "distinct (map int [0..<nat (ntasks J)])" by (simp add: distinct_map)
  then have "count (mset (map int [0..<nat (ntasks J)])) t \<le> 1" by (simp only: distinct_count_atmost_1) simp
  then show ?thesis using assms unfolding sbase_def by metis
qed

section \<open>Receiving a result\<close>

text \<open>What changes when the result at position \<open>k\<close> is taken from its goroutine.\<close>

lemma take_result:
  assumes "sbase J {#} s" "k < length (results s)"
  defines "r \<equiv> results s ! k" and "s1 \<equiv> s\<lparr>results := removeAt k (results s)\<rparr>"
  shows "taskBag s = add_mset (TaskIdx r) (taskBag s1)" "busyWorkers s = add_mset (ResWorker r) (busyWorkers s1)"
    "length (results s) = Suc (length (results s1))"
proof -
  have m: "mset (results s) = add_mset r (mset (results s1))"
    using mset_removeAt[OF assms(2)] by (simp add: r_def s1_def)
  then show "taskBag s = add_mset (TaskIdx r) (taskBag s1)" "busyWorkers s = add_mset (ResWorker r) (busyWorkers s1)"
    by (simp_all add: taskBag_def busyWorkers_def s1_def)
  show "length (results s) = Suc (length (results s1))" using arg_cong[OF m, of size] by simp
qed

lemma recvResult_inv:
  assumes inv: "sinv J s" and nf: "\<not> finished s" and k: "k < length (results s)"
  obtains t where "recvResult J (results s ! k) (s\<lparr>results := removeAt k (results s)\<rparr>) = Inr t" "sinv J t" "sfs t = sfs s"
    "\<And>c. c \<in> set (calls t) \<Longrightarrow> c \<in> set (calls s) \<or> (\<exists>w arg. c = (w, arg, False))"
    "set (doneMap t) = set (doneMap s) \<union> (if Ok (results s ! k) then {TaskIdx (results s ! k)} else {})"
    "results t = removeAt k (results s)"
proof -
  let ?r = "results s ! k" and ?s1 = "s\<lparr>results := removeAt k (results s)\<rparr>"
  have b: "sbase J {#} s" and idle: "qList (idleQ s) \<noteq> [] \<longrightarrow> qList (taskQ s) = []"
    and dn: "ntasks J = 0 \<or> doneN s < ntasks J"
    using inv nf by (auto simp: sinv_def)
  note tr = take_result[OF b k]
  have "TaskIdx ?r \<in># taskBag s" by (simp add: tr(1))
  then have pos: "0 < ntasks J" using task_range[OF b] by fastforce
  show thesis
  proof (cases "Ok ?r")
    case True
    have new: "TaskIdx ?r \<notin> set (doneMap s)"
    proof
      assume "TaskIdx ?r \<in> set (doneMap s)"
      then have "TaskIdx ?r \<in># taskBag ?s1" by (simp add: taskBag_def)
      then have "1 < count (taskBag s) (TaskIdx ?r)" by (simp add: tr(1))
      then show False using taskBag_distinct[OF b] by (meson not_le)
    qed
    let ?s2 = "?s1\<lparr>doneN := doneN s + 1, doneMap := TaskIdx ?r # doneMap s\<rparr>"
    have "taskBag ?s2 = taskBag s" "busyWorkers ?s2 = busyWorkers ?s1"
      unfolding tr(1) by (simp_all add: taskBag_def busyWorkers_def)
    then have b2: "sbase J {#ResWorker ?r#} ?s2" using b tr(2,3) by (simp add: sbase_def)
    have b3: "sbase J {#} ?s2" using sbase_weaken[of J "{#}" "{#ResWorker ?r#}"] b2 by simp
    show thesis
    proof (cases "doneN s + 1 = ntasks J")
      case fin: True
      have "sinv J (?s2\<lparr>finished := True\<rparr>)"
        using b3 idle fin pos by (simp add: sinv_def sbase_def taskBag_def busyWorkers_def)
      then show thesis using that[of "?s2\<lparr>finished := True\<rparr>"] True new fin by (auto simp: recvResult_def)
    next
      case False
      obtain t where t: "offer J (ResWorker ?r) ?s2 = Inr t" "sbase J {#} t"
        "qList (idleQ t) \<noteq> [] \<longrightarrow> qList (taskQ t) = []" "finished t = finished ?s2" "doneN t = doneN ?s2"
        "doneMap t = doneMap ?s2" "sfs t = sfs ?s2" "results t = results ?s2"
        "\<And>c. c \<in> set (calls t) \<Longrightarrow> c \<in> set (calls ?s2) \<or> (\<exists>w arg. c = (w, arg, False))"
        using offer_base[OF b2] idle by auto
      have "sinv J t" using t nf dn False pos by (simp add: sinv_def)
      then show thesis using that[of t] t True new False by (auto simp: recvResult_def)
    qed
  next
    case fail: False
    let ?s2 = "?s1\<lparr>taskQ := qPush (TaskIdx ?r) (taskQ s), failed := failed s + 1\<rparr>"
    have q: "qInv (taskQ s)" "qInv (idleQ s)" using b by (simp_all add: sbase_def)
    have "taskBag ?s2 = taskBag s" "busyWorkers ?s2 = busyWorkers ?s1"
      unfolding tr(1) by (simp_all add: taskBag_def busyWorkers_def slice_queue.push_elems[OF q(1)])
    then have "sbase J {#ResWorker ?r#} ?s2"
      using b tr(2,3) slice_queue.push_inv[OF q(1)] by (simp add: sbase_def)
    then have b2: "sbase J {#} ?s2" using sbase_weaken[of J "{#}" "{#ResWorker ?r#}"] by simp
    show thesis
    proof (cases "qEmpty (idleQ s)")
      case True
      then have "qList (idleQ s) = []" using slice_queue.isEmpty_elems[OF q(2)] by simp
      then have "sinv J ?s2" using b2 nf dn by (simp add: sinv_def)
      then show thesis using that[of ?s2] fail True by (auto simp: recvResult_def)
    next
      case False
      obtain iq where iq: "qPop (idleQ s) = Inr (hd (qList (idleQ s)), iq)" "qInv iq"
        "qList (idleQ s) = hd (qList (idleQ s)) # qList iq"
        using slice_queue.pop_nonempty[OF q(2) False] .
      let ?w = "hd (qList (idleQ s))" and ?s3 = "?s2\<lparr>idleQ := iq\<rparr>"
      have "mset (qList (idleQ s)) = add_mset ?w (mset (qList iq))" by (subst iq(3)) simp
      then have "busyWorkers ?s2 = add_mset ?w (busyWorkers ?s3)" by (simp add: busyWorkers_def)
      then have b3: "sbase J {#?w#} ?s3" using b2 iq(2) by (simp add: sbase_def taskBag_def)
      have "qList (idleQ s) \<noteq> []" using iq(3) by (metis list.distinct(1))
      then have "length (qList (taskQ ?s3)) \<le> 1" using idle slice_queue.push_elems[OF q(1)] by simp
      then obtain t where t: "offer J ?w ?s3 = Inr t" "sbase J {#} t"
        "qList (idleQ t) \<noteq> [] \<longrightarrow> qList (taskQ t) = []" "finished t = finished ?s3" "doneN t = doneN ?s3"
        "doneMap t = doneMap ?s3" "sfs t = sfs ?s3" "results t = results ?s3"
        "\<And>c. c \<in> set (calls t) \<Longrightarrow> c \<in> set (calls ?s3) \<or> (\<exists>w arg. c = (w, arg, False))"
        using offer_base[OF b3] by auto
      have "sinv J t" using t nf dn by (simp add: sinv_def)
      then show thesis using that[of t] t fail False iq(1) by (auto simp: recvResult_def)
    qed
  qed
qed

section \<open>Every event keeps the invariant and none panics\<close>

lemma sinv_start:
  assumes "schedStart J fs = Inr s"
  shows "sinv J s" "sfs s = fs" "calls s = []" "results s = []" "doneMap s = []"
  using assms
  by (auto simp: schedStart_def sinv_def sbase_def taskBag_def busyWorkers_def qInv_def qList_def split: if_splits)

lemma sinv_register:
  assumes inv: "sinv J s" and nf: "\<not> finished s" and new: "w \<notin> set (registered s)"
  obtains t where "recvRegister J w (s\<lparr>registered := registered s @ [w]\<rparr>) = Inr t" "sinv J t" "sfs t = sfs s"
    "doneMap t = doneMap s" "results t = results s"
    "\<And>c. c \<in> set (calls t) \<Longrightarrow> c \<in> set (calls s) \<or> (\<exists>w arg. c = (w, arg, False))"
proof -
  let ?s = "s\<lparr>registered := registered s @ [w]\<rparr>"
  have b: "sbase J {#} s" and idle: "qList (idleQ s) \<noteq> [] \<longrightarrow> qList (taskQ s) = []"
    and dn: "ntasks J = 0 \<or> doneN s < ntasks J"
    using inv nf by (auto simp: sinv_def)
  have cnt: "count (busyWorkers s) v \<le> (if v \<in> set (registered s) \<and> v \<noteq> '''' then 1 else 0)" for v
    using b by (simp add: sbase_def)
  have same: "taskBag ?s = taskBag s" "busyWorkers ?s = busyWorkers s" by (simp_all add: taskBag_def busyWorkers_def)
  show thesis
  proof (cases "w = ''''")
    case True
    have "count (busyWorkers s) v \<le> (if (v = w \<or> v \<in> set (registered s)) \<and> v \<noteq> '''' then 1 else 0)" for v
      using cnt[of v] by (auto split: if_splits)
    then have "sbase J {#} ?s" using b same by (simp add: sbase_def)
    then have "sinv J ?s" using idle nf dn by (simp add: sinv_def)
    then show thesis using that[of ?s] True by (simp add: recvRegister_def offer_def)
  next
    case False
    have "count (add_mset w (busyWorkers s)) v \<le> (if (v = w \<or> v \<in> set (registered s)) \<and> v \<noteq> '''' then 1 else 0)" for v
      using cnt[of v] cnt[of w] new False by (auto split: if_splits)
    then have "sbase J {#w#} ?s" using b same by (simp add: sbase_def)
    from offer_base[OF this] idle obtain t where t: "offer J w ?s = Inr t" "sbase J {#} t"
      "qList (idleQ t) \<noteq> [] \<longrightarrow> qList (taskQ t) = []" "finished t = finished ?s" "doneN t = doneN ?s"
      "doneMap t = doneMap ?s" "sfs t = sfs ?s" "results t = results ?s"
      "\<And>c. c \<in> set (calls t) \<Longrightarrow> c \<in> set (calls ?s) \<or> (\<exists>w arg. c = (w, arg, False))"
      by auto
    have "sinv J t" using t nf dn by (simp add: sinv_def)
    then show thesis using that[of t] t by (simp add: recvRegister_def)
  qed
qed

lemma sinv_execute:
  assumes "sinv J s" "k < length (calls s)" "calls s ! k = (w, arg, ex)"
  shows "sinv J (s\<lparr>sfs := fs, calls := (calls s)[k := (w, arg, ex')]\<rparr>)"
proof -
  let ?cs = "(calls s)[k := (w, arg, ex')]"
  have "map callTask ?cs = map callTask (calls s)" "map fst ?cs = map fst (calls s)"
    using assms(2,3) by (auto intro!: nth_equalityI simp: nth_list_update callTask_def)
  then have m: "taskBag (s\<lparr>sfs := fs, calls := ?cs\<rparr>) = taskBag s" "busyWorkers (s\<lparr>sfs := fs, calls := ?cs\<rparr>) = busyWorkers s"
    by (simp_all add: taskBag_def busyWorkers_def)
  have "(w, arg, ex) \<in> set (calls s)" using assms(2,3) by (metis nth_mem)
  then have "taskArgs J (TaskNumber arg) = Inr arg" "\<forall>(w, arg, ex) \<in> set (calls s). taskArgs J (TaskNumber arg) = Inr arg"
    using assms(1) by (auto simp: sinv_def sbase_def)
  then have "\<forall>(w, arg, ex) \<in> set ?cs. taskArgs J (TaskNumber arg) = Inr arg"
    using set_update_subset_insert[of "calls s" k "(w, arg, ex')"] by auto
  then have "sbase J {#} (s\<lparr>sfs := fs, calls := ?cs\<rparr>)" using assms(1) m by (simp add: sinv_def sbase_def)
  then show ?thesis using assms(1) by (simp add: sinv_def)
qed

lemma sinv_return:
  assumes "sinv J s" "k < length (calls s)" "calls s ! k = (w, arg, ex)"
  shows "sinv J (s\<lparr>calls := removeAt k (calls s), results := results s @ [\<lparr>Ok = ok, TaskIdx = TaskNumber arg, ResWorker = w\<rparr>]\<rparr>)"
    (is "sinv J ?t")
proof -
  have m: "mset (calls s) = add_mset (w, arg, ex) (mset (removeAt k (calls s)))"
    using mset_removeAt[OF assms(2)] assms(3) by simp
  then have "taskBag ?t = taskBag s" "busyWorkers ?t = busyWorkers s"
    by (simp_all add: taskBag_def busyWorkers_def callTask_def)
  moreover have "length (calls s) = Suc (length (removeAt k (calls s)))" using arg_cong[OF m, of size] by simp
  ultimately show ?thesis
    using assms(1) set_removeAt[of _ k "calls s"] by (auto simp: sinv_def sbase_def)
qed

lemma schedExec_cases:
  assumes inv: "sinv J s" and e: "schedExec J task e s = Some r" and fresh: "\<And>w. e = Registers w \<Longrightarrow> w \<notin> set (registered s)"
  obtains t where "r = Inr t" "sinv J t"
proof (cases e)
  case (Registers w)
  then have "\<not> finished s" "r = recvRegister J w (s\<lparr>registered := registered s @ [w]\<rparr>)"
    using e by (auto simp: schedExec_def split: if_splits)
  then show thesis using sinv_register[OF inv _ fresh[OF Registers]] that by metis
next
  case (Executes k)
  then show thesis
    using e that sinv_execute[OF inv, of k]
    by (auto simp: schedExec_def Let_def split: if_splits sum.splits prod.splits)
next
  case (Returns k ok)
  then show thesis
    using e that sinv_return[OF inv, of k] by (auto simp: schedExec_def Let_def split: if_splits prod.splits)
next
  case (Receives k)
  then have "\<not> finished s" "k < length (results s)" "r = recvResult J (results s ! k) (s\<lparr>results := removeAt k (results s)\<rparr>)"
    using e by (auto simp: schedExec_def split: if_splits)
  then show thesis using recvResult_inv[OF inv] that by metis
qed

interpretation sched_inv: invariant "\<lambda>s. schedStart J fs = Inr s" "schedStep J task" "sinv J" for J fs task
proof
  show "sinv J s" if "schedStart J fs = Inr s" for s using that by (rule sinv_start(1))
  show "sinv J t" if s: "sinv J s" and st: "schedStep J task s t" for s t
  proof -
    obtain e where e: "schedExec J task e s = Some (Inr t)" "\<And>w. e = Registers w \<Longrightarrow> w \<notin> set (registered s)"
      using st by (auto simp: schedStep_def)
    show ?thesis by (rule schedExec_cases[OF s e]) auto
  qed
qed

section \<open>What the invariant says of a state\<close>

lemma distinct_countI: "(\<And>x. count (mset xs) x \<le> 1) \<Longrightarrow> distinct xs"
proof (induction xs)
  case (Cons y ys)
  have "count (mset ys) x \<le> count (mset (y # ys)) x" for x by simp
  then have "count (mset ys) x \<le> 1" for x using Cons.prems[of x] order_trans by blast
  moreover have "count (mset ys) y = 0" using Cons.prems[of y] by simp
  ultimately show ?case using Cons.IH by (simp add: count_eq_zero_iff)
qed simp

lemma sinv_workers:
  assumes "sinv J s"
  shows "distinct (qList (idleQ s) @ map fst (calls s) @ map ResWorker (results s))"
proof (rule distinct_countI)
  fix w
  have "sbase J {#} s" using assms by (simp add: sinv_def)
  then have "count ({#} + busyWorkers s) w \<le> (if w \<in> set (registered s) \<and> w \<noteq> '''' then 1 else 0)"
    unfolding sbase_def by blast
  also have "\<dots> \<le> 1" by simp
  finally show "count (mset (qList (idleQ s) @ map fst (calls s) @ map ResWorker (results s))) w \<le> 1"
    by (simp add: busyWorkers_def)
qed

lemma sinv_tasks:
  assumes "sinv J s"
  shows "distinct (qList (taskQ s) @ map callTask (calls s) @ map TaskIdx (results s) @ doneMap s)"
    "set (qList (taskQ s) @ map callTask (calls s) @ map TaskIdx (results s) @ doneMap s) = {0..<ntasks J}"
proof -
  let ?l = "qList (taskQ s) @ map callTask (calls s) @ map TaskIdx (results s) @ doneMap s"
  have b: "sbase J {#} s" using assms by (simp add: sinv_def)
  have m: "mset ?l = taskBag s" by (simp add: taskBag_def)
  show "distinct ?l" by (rule distinct_countI) (use m taskBag_distinct[OF b] in simp)
  have "set ?l = set_mset (taskBag s)" using m by (metis set_mset_mset)
  also have "\<dots> = int ` {0..<nat (ntasks J)}" using b by (simp add: sbase_def)
  also have "\<dots> = {0..<ntasks J}" by (auto simp: image_iff intro!: bexI[of _ "nat _"])
  finally show "set ?l = {0..<ntasks J}" .
qed

lemma sinv_issued:
  assumes "sinv J s"
  shows "int (length (qList (taskQ s)) + issued s) = ntasks J + int (failed s)"
proof -
  have "size (taskBag s) = nat (ntasks J)" "0 \<le> ntasks J"
    "issued s = length (calls s) + length (results s) + length (doneMap s) + failed s"
    using assms by (auto simp: sinv_def sbase_def)
  then show ?thesis by (simp add: taskBag_def)
qed

lemma sinv_finished:
  assumes "sinv J s" "finished s"
  shows "qList (taskQ s) = []" "calls s = []" "results s = []" "set (doneMap s) = {0..<ntasks J}"
proof -
  have "size (taskBag s) = length (doneMap s)" using assms by (auto simp: sinv_def sbase_def)
  then show "qList (taskQ s) = []" "calls s = []" "results s = []" by (simp_all add: taskBag_def)
  then show "set (doneMap s) = {0..<ntasks J}" using sinv_tasks(2)[OF assms(1)] by simp
qed

lemma sinv_waiting:
  assumes "sinv J s" "\<not> finished s" "0 < ntasks J" "calls s = []" "results s = []"
  shows "qList (taskQ s) \<noteq> []" "qList (idleQ s) = []"
proof -
  have "length (doneMap s) < size (taskBag s)" using assms by (auto simp: sinv_def sbase_def)
  then show "qList (taskQ s) \<noteq> []" using assms by (auto simp: taskBag_def)
  then show "qList (idleQ s) = []" using assms by (auto simp: sinv_def)
qed

lemma waiting_register:
  assumes "sinv J s" "\<not> finished s" "0 < ntasks J" "calls s = []" "results s = []" "w \<noteq> ''''"
  shows "\<exists>t arg. schedExec J task (Registers w) s = Some (Inr t) \<and> calls t = [(w, arg, False)] \<and> \<not> finished t"
proof -
  have b: "sbase J {#} s" and q: "qInv (taskQ s)" using assms by (auto simp: sinv_def sbase_def)
  have "\<not> qEmpty (taskQ s)" using sinv_waiting(1)[OF assms(1-5)] slice_queue.isEmpty_elems[OF q] by simp
  then obtain tq where tq: "qPop (taskQ s) = Inr (hd (qList (taskQ s)), tq)" using slice_queue.pop_nonempty[OF q] by metis
  have "hd (qList (taskQ s)) \<in># taskBag s" using sinv_waiting(1)[OF assms(1-5)] by (simp add: taskBag_def)
  then obtain arg where "taskArgs J (hd (qList (taskQ s))) = Inr arg"
    using task_range[OF b] taskArgs_total by blast
  then show ?thesis using assms(2,4,6) tq \<open>\<not> qEmpty (taskQ s)\<close> by (simp add: schedExec_def recvRegister_def offer_def)
qed

section \<open>How many events a phase takes\<close>

text \<open>The events that the outstanding calls and results are still due.\<close>

definition due :: "Sched \<Rightarrow> nat" where
  "due s = sum_list (map (\<lambda>c. if snd (snd c) then 2 else 3) (calls s)) + length (results s)"

lemma offer_due:
  assumes "offer J w s = Inr t"
  shows "due t + 3 * issued s = due s + 3 * issued t \<and> registered t = registered s"
  using assms by (auto simp: offer_def due_def bindR_eq_Inr split: if_splits)

lemma due_removeAt:
  fixes f :: "'a \<Rightarrow> nat"
  assumes "k < length cs"
  shows "sum_list (map f cs) = f (cs ! k) + sum_list (map f (removeAt k cs))"
  using arg_cong[OF mset_removeAt[OF assms], of "\<lambda>m. sum_mset (image_mset f m)"]
  by (simp flip: mset_map add: sum_mset_sum_list)

lemma recvResult_due:
  assumes "recvResult J r s = Inr t"
  shows "due t + 3 * issued s = due s + 3 * issued t \<and> registered t = registered s"
  using assms
  by (auto simp: recvResult_def Let_def bindR_eq_Inr split: if_splits dest!: offer_due) (simp_all add: due_def)

lemma schedExec_due:
  assumes "schedExec J task e s = Some (Inr t)"
  shows "Suc (due t) + length (registered s) + 3 * issued s \<le> due s + length (registered t) + 3 * issued t"
proof (cases e)
  case (Registers w)
  then have "offer J w (s\<lparr>registered := registered s @ [w]\<rparr>) = Inr t"
    using assms by (auto simp: schedExec_def recvRegister_def split: if_splits)
  from offer_due[OF this] show ?thesis by (simp add: due_def)
next
  case (Executes k)
  then obtain w arg fs where k: "k < length (calls s)" "calls s ! k = (w, arg, False)"
    and t: "t = s\<lparr>sfs := fs, calls := (calls s)[k := (w, arg, True)]\<rparr>"
    using assms by (auto simp: schedExec_def Let_def split: if_splits sum.splits prod.splits)
  let ?f = "\<lambda>c :: string \<times> DoTaskArgs \<times> bool. if snd (snd c) then 2 else (3::nat)"
  have "removeAt k ((calls s)[k := (w, arg, True)]) = removeAt k (calls s)" by (simp add: removeAt_def)
  then show ?thesis
    using due_removeAt[OF k(1), of ?f] due_removeAt[of k "(calls s)[k := (w, arg, True)]" ?f] k by (simp add: due_def t)
next
  case (Returns k ok)
  then obtain w arg ex where k: "k < length (calls s)" "calls s ! k = (w, arg, ex)"
    and t: "t = s\<lparr>calls := removeAt k (calls s), results := results s @ [\<lparr>Ok = ok, TaskIdx = TaskNumber arg, ResWorker = w\<rparr>]\<rparr>"
    using assms by (auto simp: schedExec_def Let_def split: if_splits prod.splits)
  show ?thesis using due_removeAt[OF k(1), of "\<lambda>c. if snd (snd c) then 2 else 3"] k(2) by (simp add: due_def t)
next
  case (Receives k)
  then have k: "k < length (results s)"
    and t: "recvResult J (results s ! k) (s\<lparr>results := removeAt k (results s)\<rparr>) = Inr t"
    using assms by (auto simp: schedExec_def split: if_splits)
  have "length (results s) = Suc (length (removeAt k (results s)))" using k by (simp add: removeAt_def)
  then show ?thesis using recvResult_due[OF t] by (simp add: due_def)
qed

lemma schedRun_due:
  assumes "schedRun J task es s = Some (Inr t)"
  shows "length es + due t + length (registered s) + 3 * issued s \<le> due s + length (registered t) + 3 * issued t"
  using assms
proof (induction es arbitrary: s)
  case (Cons e es)
  then obtain u where "schedExec J task e s = Some (Inr u)" "schedRun J task es u = Some (Inr t)"
    by (auto split: option.splits sum.splits)
  with Cons.IH[OF this(2)] schedExec_due[OF this(1)] show ?case by simp
qed simp

end
