(* ===== verification/MR_Distributed.thy ===== *)
theory MR_Distributed
  imports MR_Schedule_Inv
begin

text \<open>
  The distributed master (\<open>master.go\<close>): the two phases are scheduled on workers that share the file
  system. Whatever the workers do -- fail, repeat a task, run in any order -- a phase that finishes
  leaves the files the sequential phase leaves, so the final output is the same.
\<close>

section \<open>Tasks that can be repeated in any order\<close>

text \<open>
  The contract between the scheduler and the tasks of a phase: \<open>G\<close> is what every task needs and
  keeps, \<open>Q i\<close> what task \<open>i\<close> achieves and no task destroys.
\<close>

definition works :: "Job \<Rightarrow> (FS \<Rightarrow> bool) \<Rightarrow> (int \<Rightarrow> FS \<Rightarrow> bool) \<Rightarrow> Sched \<Rightarrow> bool" where
  "works J G Q s \<longleftrightarrow> sinv J s \<and> G (sfs s) \<and> (\<forall>i \<in> set (doneMap s). Q i (sfs s)) \<and>
     (\<forall>c \<in> set (calls s). snd (snd c) \<longrightarrow> Q (callTask c) (sfs s)) \<and>
     (\<forall>r \<in> set (results s). Ok r \<longrightarrow> Q (TaskIdx r) (sfs s))"

locale repeatable_tasks =
  fixes J :: Job
    and task :: "DoTaskArgs \<Rightarrow> FS \<Rightarrow> FS res"
    and G :: "FS \<Rightarrow> bool"
    and Q :: "int \<Rightarrow> FS \<Rightarrow> bool"
  assumes task_ok: "taskArgs J i = Inr arg \<Longrightarrow> 0 \<le> i \<Longrightarrow> i < ntasks J \<Longrightarrow> G fs \<Longrightarrow>
      \<exists>fs'. task arg fs = Inr fs' \<and> G fs' \<and> Q i fs' \<and> (\<forall>j. 0 \<le> j \<and> j < ntasks J \<and> Q j fs \<longrightarrow> Q j fs')"
begin

lemma works_execute:
  assumes w: "works J G Q s" and k: "k < length (calls s)" "calls s ! k = (v, arg, ex)" and t: "task arg (sfs s) = Inr fs'"
  shows "works J G Q (s\<lparr>sfs := fs', calls := (calls s)[k := (v, arg, True)]\<rparr>)" (is "works J G Q ?t")
proof -
  have inv: "sinv J s" using w by (simp add: works_def)
  then have b: "sbase J {#} s" by (simp add: sinv_def)
  have c: "(v, arg, ex) \<in> set (calls s)" using k by (metis nth_mem)
  then have a: "taskArgs J (TaskNumber arg) = Inr arg" using b by (auto simp: sbase_def)
  have range: "0 \<le> callTask d \<and> callTask d < ntasks J" if "d \<in> set (calls s)" for d
    using task_range[OF b, of "callTask d"] that by (simp add: taskBag_def)
  have ranges: "0 \<le> i \<and> i < ntasks J" if "i \<in> set (doneMap s) \<union> TaskIdx ` set (results s)" for i
    using task_range[OF b, of i] that by (auto simp: taskBag_def)
  have n: "0 \<le> TaskNumber arg" "TaskNumber arg < ntasks J" using range[OF c] by (simp_all add: callTask_def)
  have g: "G fs'" "Q (TaskNumber arg) fs'" and keep: "\<And>j. 0 \<le> j \<Longrightarrow> j < ntasks J \<Longrightarrow> Q j (sfs s) \<Longrightarrow> Q j fs'"
    using task_ok[OF a n, of "sfs s"] w t by (auto simp: works_def)
  have "Q (callTask d) fs'" if "d \<in> set (calls ?t)" "snd (snd d)" for d
  proof (cases "d \<in> set (calls s)")
    case True
    then show ?thesis using keep[of "callTask d"] range[OF True] w that by (auto simp: works_def)
  next
    case False
    then have "d = (v, arg, True)" using that(1) set_update_subset_insert[of "calls s" k "(v, arg, True)"] by auto
    then show ?thesis using g(2) by (simp add: callTask_def)
  qed
  moreover have "Q i fs'" if "i \<in> set (doneMap s)" for i
    using keep[of i] ranges[of i] w that by (auto simp: works_def)
  moreover have "Q (TaskIdx r) fs'" if "r \<in> set (results s)" "Ok r" for r
    using keep[of "TaskIdx r"] ranges[of "TaskIdx r"] w that by (auto simp: works_def)
  ultimately show ?thesis using sinv_execute[OF inv k] g(1) by (simp add: works_def)
qed

lemma works_exec:
  assumes w: "works J G Q s" and e: "schedExec J task e s = Some (Inr t)"
    and fresh: "\<And>w. e = Registers w \<Longrightarrow> w \<notin> set (registered s)"
  shows "works J G Q t"
proof -
  have inv: "sinv J s" using w by (simp add: works_def)
  show ?thesis
  proof (cases e)
    case (Registers v)
    then have nf: "\<not> finished s" and t: "recvRegister J v (s\<lparr>registered := registered s @ [v]\<rparr>) = Inr t"
      using e by (auto simp: schedExec_def split: if_splits)
    show ?thesis
      by (rule sinv_register[OF inv nf fresh[OF Registers]]) (use w t in \<open>fastforce simp: works_def\<close>)
  next
    case (Executes k)
    then show ?thesis
      using e works_execute[OF w, of k]
      by (auto simp: schedExec_def Let_def split: if_splits sum.splits prod.splits)
  next
    case (Returns k ok)
    then obtain v arg ex where k: "k < length (calls s)" "calls s ! k = (v, arg, ex)" and ok: "ok \<longrightarrow> ex"
      and t: "t = s\<lparr>calls := removeAt k (calls s), results := results s @ [\<lparr>Ok = ok, TaskIdx = TaskNumber arg, ResWorker = v\<rparr>]\<rparr>"
      using e by (auto simp: schedExec_def Let_def split: if_splits prod.splits)
    have "(v, arg, ex) \<in> set (calls s)" using k by (metis nth_mem)
    then have "ok \<longrightarrow> Q (TaskNumber arg) (sfs s)" using w ok by (auto simp: works_def callTask_def)
    then show ?thesis
      using w sinv_return[OF inv k, of ok] set_removeAt[of _ k "calls s"] by (auto simp: works_def t)
  next
    case (Receives k)
    then have k: "\<not> finished s" "k < length (results s)"
      and t: "recvResult J (results s ! k) (s\<lparr>results := removeAt k (results s)\<rparr>) = Inr t"
      using e by (auto simp: schedExec_def split: if_splits)
    have "results s ! k \<in> set (results s)" using k by simp
    then have d: "Ok (results s ! k) \<longrightarrow> Q (TaskIdx (results s ! k)) (sfs s)" using w by (auto simp: works_def)
    have rem: "r \<in> set (results s)" if "r \<in> set (removeAt k (results s))" for r using set_removeAt[OF that] .
    show ?thesis
      by (rule recvResult_inv[OF inv k]) (use w t d rem in \<open>fastforce simp: works_def split: if_splits\<close>)
  qed
qed

lemma finished_all:
  assumes r: "schedReach J task fs s" and g: "G fs" and f: "finished s"
  shows "G (sfs s)" "0 \<le> i \<Longrightarrow> i < ntasks J \<Longrightarrow> Q i (sfs s)"
proof -
  have w: "works J G Q s"
    using r
  proof (induction rule: reach.induct)
    case (reach_init s)
    then show ?case using sinv_start[OF reach_init] g by (simp add: works_def)
  next
    case (reach_step s t)
    then show ?case using works_exec by (auto simp: schedStep_def)
  qed
  then show "G (sfs s)" by (simp add: works_def)
  have b: "sbase J {#} s" "doneN s = ntasks J" using w f by (auto simp: works_def sinv_def)
  assume i: "0 \<le> i" "i < ntasks J"
  have "length (doneMap s) = size (taskBag s)" using b by (simp add: sbase_def)
  then have "taskBag s = mset (doneMap s)" by (simp add: taskBag_def)
  moreover have "i \<in># taskBag s"
    using b(1) i by (auto simp: sbase_def image_iff intro!: bexI[of _ "nat i"])
  ultimately have "i \<in> set (doneMap s)" by simp
  then show "Q i (sfs s)" using w by (simp add: works_def)
qed

end

section \<open>Map tasks and reduce tasks\<close>

definition mapG :: "Job \<Rightarrow> FS \<Rightarrow> FS \<Rightarrow> bool" where
  "mapG J fs0 fs \<longleftrightarrow> sPhase J = mapPhase \<and> job_ok fs (mapFiles J) (sReduce J) \<and>
     (\<forall>f \<in> set (mapFiles J). files fs f = files fs0 f) \<and>
     (\<forall>r. files fs (mergeName (sJob J) r) = files fs0 (mergeName (sJob J) r))"

definition mapQ :: "Job \<Rightarrow> (string \<Rightarrow> string \<Rightarrow> KeyValue list) \<Rightarrow> FS \<Rightarrow> int \<Rightarrow> FS \<Rightarrow> bool" where
  "mapQ J mapF fs0 i fs \<longleftrightarrow> (\<forall>r. 0 \<le> r \<and> r < sReduce J \<longrightarrow>
     files fs (reduceName (sJob J) i r) = Some (jsonText (bucket (sReduce J) r (emitted mapF fs0 (mapFiles J ! nat i)))))"

interpretation map_tasks: repeatable_tasks J "DoTask_run srt wk" "mapG J fs0" "mapQ J (MapF wk) fs0" for J srt wk fs0
proof
  fix i arg fs
  assume a: "taskArgs J i = Inr arg" and i: "0 \<le> i" "i < ntasks J" and g: "mapG J fs0 fs"
  have ph: "sPhase J = mapPhase" and ok: "job_ok fs (mapFiles J) (sReduce J)"
    and inp: "\<And>f. f \<in> set (mapFiles J) \<Longrightarrow> files fs f = files fs0 f"
    and mrg: "\<And>r. files fs (mergeName (sJob J) r) = files fs0 (mergeName (sJob J) r)"
    using g by (auto simp: mapG_def)
  let ?f = "mapFiles J ! nat i" and ?n = "sReduce J"
  have lt: "i < len (mapFiles J)" using i(2) ph by (simp add: ntasks_def)
  have arg: "arg = \<lparr>JobName = sJob J, File = ?f, Phase = mapPhase, TaskNumber = i, NumOtherPhase = ?n\<rparr>"
    using a i(1) lt ph by (simp add: taskArgs_def n_other_def)
  have f: "?f \<in> set (mapFiles J)" using i(1) lt by simp
  then obtain c where c: "files fs ?f = Some c" using ok by (auto simp: job_ok_def)
  have n: "0 < ?n" and lk: "\<not> locked fs x" for x using ok by (auto simp: job_ok_def)
  obtain fs' where fs': "doMap (sJob J) i ?f ?n (MapF wk) fs = Inr fs'" "locked fs' = locked fs"
    "\<forall>r. 0 \<le> r \<and> r < ?n \<longrightarrow> files fs' (reduceName (sJob J) i r) = Some (jsonText (bucket ?n r (MapF wk ?f c)))"
    "\<forall>x. (\<forall>r. 0 \<le> r \<and> r < ?n \<longrightarrow> x \<noteq> reduceName (sJob J) i r) \<longrightarrow> files fs' x = files fs x"
    using doMap_ok[OF n i(1) c, of "sJob J" "MapF wk"] lk by blast
  have keep: "files fs' g = files fs g" if "g \<in> set (mapFiles J)" for g
    using fs'(4) ok that by (simp add: job_ok_def)
  have "job_ok fs' (mapFiles J) ?n" using ok keep fs'(2) by (simp add: job_ok_def)
  then have "mapG J fs0 fs'" using ph keep inp mrg fs'(4) i(1) by (simp add: mapG_def)
  moreover have "mapQ J (MapF wk) fs0 i fs'" using fs'(3) c inp[OF f] by (simp add: mapQ_def emitted_def)
  moreover have "mapQ J (MapF wk) fs0 j fs'" if "0 \<le> j \<and> j < ntasks J \<and> mapQ J (MapF wk) fs0 j fs" for j
  proof (cases "j = i")
    case True
    then show ?thesis using \<open>mapQ J (MapF wk) fs0 i fs'\<close> by simp
  next
    case False
    then show ?thesis using that fs'(4) i(1) by (simp add: mapQ_def)
  qed
  moreover have "DoTask_run srt wk arg fs = Inr fs'" using fs'(1) by (simp add: DoTask_run_def arg)
  ultimately show "\<exists>fs'. DoTask_run srt wk arg fs = Inr fs' \<and> mapG J fs0 fs' \<and> mapQ J (MapF wk) fs0 i fs' \<and>
      (\<forall>j. 0 \<le> j \<and> j < ntasks J \<and> mapQ J (MapF wk) fs0 j fs \<longrightarrow> mapQ J (MapF wk) fs0 j fs')"
    by blast
qed

definition redG :: "Job \<Rightarrow> (KeyValue list \<Rightarrow> KeyValue list) \<Rightarrow> (string \<Rightarrow> string \<Rightarrow> KeyValue list) \<Rightarrow> FS \<Rightarrow> FS \<Rightarrow> bool" where
  "redG J srt mapF fs0 fs \<longleftrightarrow> key_sort srt \<and> sPhase J = reducePhase \<and> (\<forall>x. \<not> locked fs x) \<and>
     (\<forall>i < length (mapFiles J). \<forall>r. 0 \<le> r \<and> r < sReduce J \<longrightarrow>
        files fs (reduceName (sJob J) (int i) r) = Some (jsonText (bucket (sReduce J) r (emitted mapF fs0 (mapFiles J ! i))))) \<and>
     (\<forall>r. taskPairs mapF fs0 (mapFiles J) (sReduce J) r = [] \<longrightarrow>
        files fs (mergeName (sJob J) r) = files fs0 (mergeName (sJob J) r))"

definition redQ ::
  "Job \<Rightarrow> (KeyValue list \<Rightarrow> KeyValue list) \<Rightarrow> (string \<Rightarrow> string \<Rightarrow> KeyValue list) \<Rightarrow> (string \<Rightarrow> string list \<Rightarrow> string) \<Rightarrow>
   FS \<Rightarrow> int \<Rightarrow> FS \<Rightarrow> bool" where
  "redQ J srt mapF reduceF fs0 r fs \<longleftrightarrow>
     (let A = taskPairs mapF fs0 (mapFiles J) (sReduce J) r in
      A \<noteq> [] \<longrightarrow> files fs (mergeName (sJob J) r) = Some (jsonText (grouped reduceF (srt A))))"

interpretation reduce_tasks: repeatable_tasks J "DoTask_run srt wk" "redG J srt (MapF wk) fs0"
    "redQ J srt (MapF wk) (ReduceF wk) fs0" for J srt wk fs0
proof
  fix i arg fs
  assume a: "taskArgs J i = Inr arg" and i: "0 \<le> i" "i < ntasks J" and g: "redG J srt (MapF wk) fs0 fs"
  let ?n = "sReduce J" and ?A = "taskPairs (MapF wk) fs0 (mapFiles J) (sReduce J)"
  have ks: "key_sort srt" and ph: "sPhase J = reducePhase" and lk: "\<And>x. \<not> locked fs x"
    and inp: "\<And>k r. k < length (mapFiles J) \<Longrightarrow> 0 \<le> r \<Longrightarrow> r < ?n \<Longrightarrow>
      files fs (reduceName (sJob J) (int k) r) = Some (jsonText (bucket ?n r (emitted (MapF wk) fs0 (mapFiles J ! k))))"
    using g by (auto simp: redG_def)
  have lt: "i < ?n" using i(2) ph by (simp add: ntasks_def)
  have arg: "arg = \<lparr>JobName = sJob J, File = '''', Phase = reducePhase, TaskNumber = i, NumOtherPhase = len (mapFiles J)\<rparr>"
    using a ph by (simp add: taskArgs_def n_other_def)
  obtain fs' where fs': "doReduce srt (sJob J) i (mergeName (sJob J) i) (len (mapFiles J)) (ReduceF wk) fs = Inr fs'"
    "locked fs' = locked fs"
    "\<forall>x. files fs' x = (if x = mergeName (sJob J) i \<and> ?A i \<noteq> [] then Some (jsonText (grouped (ReduceF wk) (srt (?A i)))) else files fs x)"
    using key_sort.doReduce_ok[OF ks inp[OF _ i(1) lt] lk taskPairs_nth] by blast
  have "redG J srt (MapF wk) fs0 fs'" using g fs'(2,3) by (auto simp: redG_def)
  moreover have q: "redQ J srt (MapF wk) (ReduceF wk) fs0 j fs'" if "j = i \<or> redQ J srt (MapF wk) (ReduceF wk) fs0 j fs" for j
    using that fs'(3) by (auto simp: redQ_def Let_def)
  moreover have "DoTask_run srt wk arg fs = Inr fs'" using fs'(1) by (simp add: DoTask_run_def arg)
  ultimately show "\<exists>fs'. DoTask_run srt wk arg fs = Inr fs' \<and> redG J srt (MapF wk) fs0 fs' \<and>
      redQ J srt (MapF wk) (ReduceF wk) fs0 i fs' \<and>
      (\<forall>j. 0 \<le> j \<and> j < ntasks J \<and> redQ J srt (MapF wk) (ReduceF wk) fs0 j fs \<longrightarrow> redQ J srt (MapF wk) (ReduceF wk) fs0 j fs')"
    by blast
qed

section \<open>The distributed master\<close>

text \<open>
  \<open>Distributed\<close>, given the file systems the two scheduled phases end with, the workers that have
  registered until then and what their Shutdown RPCs return.
\<close>

definition Distributed ::
  "string \<Rightarrow> string list \<Rightarrow> int \<Rightarrow> string \<Rightarrow> FS \<Rightarrow> FS \<Rightarrow> string list \<Rightarrow> (string \<Rightarrow> int option) \<Rightarrow> FS \<Rightarrow> (Master \<times> FS) res" where
  "Distributed job inputs nreduce master fsMap fsReduce ws reply fs =
     run job inputs nreduce
       (\<lambda>mr phase _. Inr (case phase of mapPhase \<Rightarrow> fsMap | reducePhase \<Rightarrow> fsReduce))
       (\<lambda>mr. let mr = foldl (\<lambda>mr w. Register w mr) mr ws; mr = mr\<lparr>stats := killWorkers reply mr\<rparr>
             in mr\<lparr>shutdown := True\<rparr>)
       (newMaster master) fs"

abbreviation phaseJob :: "string \<Rightarrow> string list \<Rightarrow> int \<Rightarrow> jobPhase \<Rightarrow> Job" where
  "phaseJob job inputs n ph \<equiv> \<lparr>sJob = job, mapFiles = inputs, sReduce = n, sPhase = ph\<rparr>"

lemma Register_fields [simp]:
  "jobName (foldl (\<lambda>mr w. Register w mr) mr ws) = jobName mr"
  "nReduce (foldl (\<lambda>mr w. Register w mr) mr ws) = nReduce mr"
  "workers (foldl (\<lambda>mr w. Register w mr) mr ws) = workers mr @ ws"
  by (induction ws arbitrary: mr) (simp_all add: Register_def)

lemma distributed_files:
  assumes ks: "key_sort srt" and ok: "job_ok fs inputs n"
    and m: "schedReach (phaseJob job inputs n mapPhase) (DoTask_run srt wk) fs s1" "finished s1"
    and r: "schedReach (phaseJob job inputs n reducePhase) (DoTask_run srt wk) (sfs s1) s2" "finished s2"
  shows "\<not> locked (sfs s2) x"
    and "0 \<le> i \<Longrightarrow> i < n \<Longrightarrow> taskPairs (MapF wk) fs inputs n i \<noteq> [] \<Longrightarrow>
      files (sfs s2) (mergeName job i) = Some (jsonText (grouped (ReduceF wk) (srt (taskPairs (MapF wk) fs inputs n i))))"
proof -
  let ?M = "phaseJob job inputs n mapPhase" and ?R = "phaseJob job inputs n reducePhase"
  have "mapG ?M fs fs" using ok by (simp add: mapG_def)
  note g1 = map_tasks.finished_all[OF m(1) this m(2)]
  have "files (sfs s1) (reduceName job (int k) q) = Some (jsonText (bucket n q (emitted (MapF wk) fs (inputs ! k))))"
    if "k < length inputs" "0 \<le> q" "q < n" for k q
    using g1(2)[of "int k"] that by (simp add: mapQ_def ntasks_def)
  moreover have "\<not> locked (sfs s1) x" for x using g1(1) by (simp add: mapG_def job_ok_def)
  ultimately have "redG ?R srt (MapF wk) fs (sfs s1)"
    using ks g1(1) by (simp add: redG_def mapG_def)
  note g2 = reduce_tasks.finished_all[OF r(1) this r(2)]
  show "\<not> locked (sfs s2) x" using g2(1) by (simp add: redG_def)
  show "files (sfs s2) (mergeName job i) = Some (jsonText (grouped (ReduceF wk) (srt (taskPairs (MapF wk) fs inputs n i))))"
    if "0 \<le> i" "i < n" "taskPairs (MapF wk) fs inputs n i \<noteq> []"
    using g2(2)[of i] that by (simp add: redQ_def ntasks_def)
qed

lemma Distributed_ok:
  assumes ks: "key_sort srt" and ok: "job_ok fs inputs n"
    and full: "\<And>r. 0 \<le> r \<Longrightarrow> r < n \<Longrightarrow> taskPairs (MapF wk) fs inputs n r \<noteq> []"
    and m: "schedReach (phaseJob job inputs n mapPhase) (DoTask_run srt wk) fs s1" "finished s1"
    and r: "schedReach (phaseJob job inputs n reducePhase) (DoTask_run srt wk) (sfs s1) s2" "finished s2"
  shows "\<exists>mr fs'. Distributed job inputs n master (sfs s1) (sfs s2) ws reply fs = Inr (mr, fs') \<and>
    stats mr = List.map_filter reply ws \<and>
    files fs' (outName job) = Some (jobOutput srt (MapF wk) (ReduceF wk) fs inputs n)"
proof -
  have n: "0 < n" using ok by (simp add: job_ok_def)
  let ?mr = "let mr = foldl (\<lambda>mr w. Register w mr) ((newMaster master)\<lparr>jobName := job, mrFiles := inputs, nReduce := n\<rparr>) ws;
      mr = mr\<lparr>stats := killWorkers reply mr\<rparr> in mr\<lparr>shutdown := True\<rparr>"
  have f: "jobName ?mr = job" "nReduce ?mr = n" "stats ?mr = List.map_filter reply ws"
    by (simp_all add: Let_def newMaster_def killWorkers_eq)
  obtain fs' where "merge ?mr (sfs s2) = Inr fs'" "files fs' (outName job) = Some (jobOutput srt (MapF wk) (ReduceF wk) fs inputs n)"
    using key_sort.merge_output[OF ks n f(1,2) distributed_files(1)[OF ks ok m r], of "ReduceF wk" "MapF wk" fs inputs]
      distributed_files(2)[OF ks ok m r] full by auto
  then show ?thesis using f(3) by (simp add: Distributed_def run_def Let_def)
qed

end
