(* ===== verification/MR_Properties.thy ===== *)
theory MR_Properties
  imports MR_Apps MR_Distributed
begin

text \<open>
  What the MapReduce library guarantees: the files round-trip, a sequential job computes what its
  map and reduce functions say, the two applications count and index words, the scheduler assigns
  every task until it is done and never two tasks to one worker, and a distributed job gives the
  output of the sequential one. And where it fails: an empty reduce task, and a phase without tasks.
\<close>

section \<open>Runs of the scheduler\<close>

fun regsOf :: "sched_event list \<Rightarrow> string list" where
  "regsOf [] = []"
| "regsOf (Registers w # es) = w # regsOf es"
| "regsOf (e # es) = regsOf es"

lemma schedExec_registered:
  assumes "schedExec J task e s = Some (Inr t)"
  shows "registered t = registered s @ regsOf [e]"
proof (cases e)
  case (Registers w)
  then show ?thesis
    using assms offer_due[of J w _ t] by (auto simp: schedExec_def recvRegister_def split: if_splits)
next
  case (Receives k)
  then have "recvResult J (results s ! k) (s\<lparr>results := removeAt k (results s)\<rparr>) = Inr t"
    using assms by (simp add: schedExec_def split: if_splits)
  from recvResult_due[OF this] show ?thesis using Receives by simp
qed (use assms in \<open>auto simp: schedExec_def Let_def split: if_splits sum.splits prod.splits\<close>)

lemma regsOf_Cons: "regsOf (e # es) = regsOf [e] @ regsOf es"
  by (cases e) simp_all

lemma schedRun_reach:
  assumes "schedReach J task fs s" "schedRun J task es s = Some (Inr t)" "distinct (registered s @ regsOf es)"
  shows "schedReach J task fs t"
  using assms
proof (induction es arbitrary: s)
  case (Cons e es)
  then obtain u where u: "schedExec J task e s = Some (Inr u)" "schedRun J task es u = Some (Inr t)"
    by (auto split: option.splits sum.splits)
  have "w \<notin> set (registered s)" if "e = Registers w" for w using Cons.prems(3) that by auto
  then have "schedStep J task s u" using u(1) unfolding schedStep_def by blast
  with Cons.prems(1) have "schedReach J task fs u" by (rule reach_step)
  moreover have "distinct (registered u @ regsOf es)"
    using Cons.prems(3) schedExec_registered[OF u(1)] by (simp add: regsOf_Cons[of e es])
  ultimately show ?case using Cons.IH u(2) by blast
qed simp

lemma schedRun_registered:
  assumes "schedRun J task es s = Some (Inr t)"
  shows "registered t = registered s @ regsOf es"
  using assms
proof (induction es arbitrary: s)
  case (Cons e es)
  then obtain u where u: "schedExec J task e s = Some (Inr u)" "schedRun J task es u = Some (Inr t)"
    by (auto split: option.splits sum.splits)
  show ?case using Cons.IH[OF u(2)] schedExec_registered[OF u(1)] by (simp add: regsOf_Cons[of e es])
qed simp

definition schedTo :: "Job \<Rightarrow> (DoTaskArgs \<Rightarrow> FS \<Rightarrow> FS res) \<Rightarrow> FS \<Rightarrow> sched_event list \<Rightarrow> Sched option" where
  "schedTo J task fs es =
     (case schedStart J fs of Inl _ \<Rightarrow> None
      | Inr s \<Rightarrow> (case schedRun J task es s of Some (Inr t) \<Rightarrow> Some t | _ \<Rightarrow> None))"

lemma schedTo_reach:
  assumes "schedTo J task fs es = Some t" "distinct (regsOf es)"
  shows "schedReach J task fs t"
proof -
  obtain s where s: "schedStart J fs = Inr s" "schedRun J task es s = Some (Inr t)"
    using assms(1) by (auto simp: schedTo_def split: sum.splits option.splits)
  have "schedReach J task fs s" using s(1) by (rule reach_init)
  moreover have "registered s = []" using s(1) by (auto simp: schedStart_def split: if_splits)
  ultimately show ?thesis using schedRun_reach[OF _ s(2)] assms(2) by simp
qed

section \<open>An example\<close>

definition demoFS :: FS where
  "demoFS = \<lparr>files = [''a.txt'' \<mapsto> ''the cat'', ''b.txt'' \<mapsto> ''the dog''], locked = (\<lambda>_. False)\<rparr>"

definition demoInputs :: "string list" where
  "demoInputs = [''a.txt'', ''b.txt'']"

definition demoWorker :: Worker where
  "demoWorker = RunWorker ''w1'' (wcMapF rev) wcReduceF 100 False"

text \<open>Two workers; the first call of \<open>w1\<close> fails although the task was executed.\<close>

definition demoMapRun :: "sched_event list" where
  "demoMapRun = [Registers ''w1'', Registers ''w2'', Executes 0, Returns 0 False, Receives 0,
     Executes 0, Returns 0 True, Receives 0, Executes 0, Returns 0 True, Receives 0]"

definition demoReduceRun :: "sched_event list" where
  "demoReduceRun = [Registers ''w2'', Executes 0, Returns 0 True, Receives 0]"

lemma demo_ok: "job_ok demoFS demoInputs 1"
proof -
  have "list_all (\<lambda>f. inputName f \<and> files demoFS f \<noteq> None) demoInputs" by code_simp
  then show ?thesis by (auto simp: job_ok_def list_all_iff demoFS_def)
qed

lemma demo_pairs:
  assumes "0 \<le> r" "r < 1"
  shows "taskPairs (wcMapF rev) demoFS demoInputs 1 r \<noteq> []" "taskPairs (iiMapF rev) demoFS demoInputs 1 r \<noteq> []"
proof -
  have "r = 0" using assms by simp
  moreover have "allPairs (wcMapF rev) demoFS demoInputs \<noteq> []" "allPairs (iiMapF rev) demoFS demoInputs \<noteq> []" by code_simp+
  ultimately show "taskPairs (wcMapF rev) demoFS demoInputs 1 r \<noteq> []" "taskPairs (iiMapF rev) demoFS demoInputs 1 r \<noteq> []"
    by (simp_all add: taskPairs_def bucket_def allPairs_def)
qed

lemma demo_sched:
  "case schedTo (phaseJob ''wc'' demoInputs 1 mapPhase) (DoTask_run sortSlice demoWorker) demoFS demoMapRun of
     None \<Rightarrow> False
   | Some s1 \<Rightarrow>
       (case schedTo (phaseJob ''wc'' demoInputs 1 reducePhase) (DoTask_run sortSlice demoWorker) (sfs s1) demoReduceRun of
          None \<Rightarrow> False
        | Some s2 \<Rightarrow> finished s1 \<and> finished s2 \<and> failed s1 = 1 \<and> issued s1 = 3)"
  by code_simp

lemma demo_runs:
  obtains s1 s2 where
    "schedReach (phaseJob ''wc'' demoInputs 1 mapPhase) (DoTask_run sortSlice demoWorker) demoFS s1"
    "schedReach (phaseJob ''wc'' demoInputs 1 reducePhase) (DoTask_run sortSlice demoWorker) (sfs s1) s2"
    "finished s1" "finished s2" "failed s1 = 1"
proof -
  have "distinct (regsOf demoMapRun)" "distinct (regsOf demoReduceRun)" by code_simp+
  then show thesis
    using demo_sched that schedTo_reach by (fastforce split: option.splits)
qed

section \<open>Properties: files and tasks\<close>

text \<open>
  Round trip of the intermediate files: decoding what the JSON encoder wrote gives back the
  key/value pairs, in order, for keys and values of any ASCII text (quotes, newlines, control
  characters and angle brackets included).
\<close>

theorem json_roundtrip:
  assumes "\<And>kv c. kv \<in> set kvs \<Longrightarrow> c \<in> set (Key kv) \<union> set (Value kv) \<Longrightarrow> of_char c < (128 :: nat)"
  shows "decodeAll (concat (map marshal kvs)) = kvs"
  by (rule decodeAll_marshal)

theorem json_roundtrip_witness:
  "decodeAll (concat (map marshal [\<lparr>Key = ''a<b'', Value = [CHR 0x22, CHR 0x0A]\<rparr>, \<lparr>Key = '''', Value = ''&''\<rparr>])) =
     [\<lparr>Key = ''a<b'', Value = [CHR 0x22, CHR 0x0A]\<rparr>, \<lparr>Key = '''', Value = ''&''\<rparr>]"
  by (rule json_roundtrip) auto

text \<open>
  The partition of the keys: \<open>ihash\<close> is a 31-bit number, so every key is sent to exactly one of
  the \<open>nReduce\<close> reduce tasks.
\<close>

theorem ihash_partition:
  assumes "0 < n"
  shows "0 \<le> ihash k \<and> ihash k < 2 ^ 31 \<and> 0 \<le> ihash k mod n \<and> ihash k mod n < n"
  using ihash_bounds[of k] assms by simp

theorem ihash_partition_witness: "0 \<le> ihash ''word'' mod 3 \<and> ihash ''word'' mod 3 < 3"
  using ihash_partition[of 3 "''word''"] by simp

text \<open>
  A map task writes, for every reduce task, the pairs of that task in the order the map function
  returned them, and changes no other file.
\<close>

theorem doMap_partitions:
  assumes "0 < n" "0 \<le> m" "files fs inFile = Some contents" "\<And>r. \<not> locked fs (reduceName job m r)"
  shows "\<exists>fs'. doMap job m inFile n mapF fs = Inr fs' \<and>
    (\<forall>r. 0 \<le> r \<and> r < n \<longrightarrow> map_option decodeAll (files fs' (reduceName job m r)) =
       Some (filter (\<lambda>kv. ihash (Key kv) mod n = r) (mapF inFile contents))) \<and>
    (\<forall>x. (\<forall>r. 0 \<le> r \<and> r < n \<longrightarrow> x \<noteq> reduceName job m r) \<longrightarrow> files fs' x = files fs x)"
  using doMap_ok[OF assms(1-3), of job mapF] assms(4) by (force simp: bucket_def)

theorem doMap_partitions_witness:
  "\<exists>fs'. doMap ''wc'' 0 ''a.txt'' 1 (wcMapF rev) demoFS = Inr fs' \<and>
     map_option decodeAll (files fs' ''mrtmp.wc-0-0'') =
       Some [\<lparr>Key = ''cat'', Value = ''1''\<rparr>, \<lparr>Key = ''the'', Value = ''1''\<rparr>] \<and> files fs' ''b.txt'' = Some ''the dog''"
proof -
  have c: "files demoFS ''a.txt'' = Some ''the cat''" "files demoFS ''b.txt'' = Some ''the dog''" by code_simp+
  have l: "\<not> locked demoFS (reduceName ''wc'' 0 r)" for r by (simp add: demoFS_def)
  have n: "reduceName ''wc'' 0 0 = ''mrtmp.wc-0-0''" by code_simp
  have i: "inputName ''b.txt''" by code_simp
  have w: "filter (\<lambda>kv. ihash (Key kv) mod 1 = 0) (wcMapF rev ''a.txt'' ''the cat'') =
      [\<lparr>Key = ''cat'', Value = ''1''\<rparr>, \<lparr>Key = ''the'', Value = ''1''\<rparr>]"
    by (simp only: mod_by_1) code_simp
  obtain fs' where fs': "doMap ''wc'' 0 ''a.txt'' 1 (wcMapF rev) demoFS = Inr fs'"
    "\<forall>r. 0 \<le> r \<and> r < 1 \<longrightarrow> map_option decodeAll (files fs' (reduceName ''wc'' 0 r)) =
       Some (filter (\<lambda>kv. ihash (Key kv) mod 1 = r) (wcMapF rev ''a.txt'' ''the cat''))"
    "\<forall>x. (\<forall>r. 0 \<le> r \<and> r < 1 \<longrightarrow> x \<noteq> reduceName ''wc'' 0 r) \<longrightarrow> files fs' x = files demoFS x"
    using doMap_partitions[of 1 0 demoFS "''a.txt''" "''the cat''" "''wc''" "wcMapF rev"] c(1) l by auto
  then show ?thesis using fs'(2)[rule_format, of 0] fs'(3)[rule_format, of "''b.txt''"] n w c(2) i by simp
qed

section \<open>Properties: sequential jobs\<close>





text \<open>
  Inverted index: the output of the sequential job has a line per distinct word, in increasing
  order, with the number of input files that contain it and their names, sorted and separated by
  commas.
\<close>

theorem inverted_index:
  assumes "key_sort srt" "map_range rng" "job_ok fs inputs n"
    and "\<And>r. 0 \<le> r \<Longrightarrow> r < n \<Longrightarrow> taskPairs (iiMapF rng) fs inputs n r \<noteq> []"
  shows "\<exists>mr fs'. Sequential srt job inputs n (iiMapF rng) iiReduceF fs = Inr (mr, fs') \<and>
    files fs' (outName job) =
      Some (concat (map (\<lambda>w. let docs = sort (docsWith fs inputs w) in
          outLine w (Itoa (len docs) @ '' '' @ joinStrings '','' docs)) (sorted_list_of_set (set (inputWords fs inputs)))))"
proof -
  have "iiReduceF k (map Value (filter (\<lambda>kv. Key kv = k) (srt (taskPairs (iiMapF rng) fs inputs n (ihash k mod n))))) =
      iiReduceF k (docsWith fs inputs k)" for k
    using iiReduceF_mset[OF key_sort.vals_mset[OF assms(1)]] ii_docs[OF assms(2)] by metis
  then have "jobOutput srt (iiMapF rng) iiReduceF fs inputs n =
      concat (map (\<lambda>w. let docs = sort (docsWith fs inputs w) in
          outLine w (Itoa (len docs) @ '' '' @ joinStrings '','' docs)) (sorted_list_of_set (set (inputWords fs inputs))))"
    by (simp add: jobOutput_def ii_allPairs_keys[OF assms(2)] iiReduceF_def Let_def)
  then show ?thesis using key_sort.Sequential_ok[OF assms(1,3,4), of job iiReduceF] by auto
qed

theorem inverted_index_witness:
  "\<exists>mr fs'. Sequential sortSlice ''ii'' demoInputs 1 (iiMapF rev) iiReduceF demoFS = Inr (mr, fs') \<and>
     files fs' (outName ''ii'') =
       Some (''cat: 1 a.txt'' @ CHR 0x0A # ''dog: 1 b.txt'' @ CHR 0x0A # ''the: 2 a.txt,b.txt'' @ [CHR 0x0A])"
proof -
  have t: "concat (map (\<lambda>w. let docs = sort (docsWith demoFS demoInputs w) in
          outLine w (Itoa (len docs) @ '' '' @ joinStrings '','' docs)) (sorted_list_of_set (set (inputWords demoFS demoInputs)))) =
      ''cat: 1 a.txt'' @ CHR 0x0A # ''dog: 1 b.txt'' @ CHR 0x0A # ''the: 2 a.txt,b.txt'' @ [CHR 0x0A]" by code_simp
  show ?thesis
    using inverted_index[OF stable_sort.key_sort_axioms reverse_order.map_range_axioms demo_ok demo_pairs(2), of "''ii''"]
    unfolding t .
qed

text \<open>
  C25. A reduce task without pairs ends the whole program: it returns before it creates its output
  file, so unless an earlier run left that file behind, \<open>merge\<close> calls \<open>log.Fatal\<close>.
\<close>

theorem empty_reduce_task_fatal:
  assumes "key_sort srt" "job_ok fs inputs n" "0 \<le> r" "r < n" "taskPairs mapF fs inputs n r = []"
    and "files fs (mergeName job r) = None"
  shows "Sequential srt job inputs n mapF reduceF fs = Inl (LogFatal ''Merge: '')"
  by (rule key_sort.Sequential_fatal[OF assms])

theorem empty_reduce_task_fatal_witness:
  "Sequential sortSlice ''wc'' demoInputs 1 (\<lambda>f c. []) wcReduceF demoFS = Inl (LogFatal ''Merge: '')"
proof -
  have "files demoFS (mergeName ''wc'' 0) = None" by code_simp
  moreover have "taskPairs (\<lambda>f c. []) demoFS demoInputs 1 0 = []" by code_simp
  ultimately show ?thesis
    using empty_reduce_task_fatal[OF stable_sort.key_sort_axioms demo_ok, of 0 "\<lambda>f c. []" "''wc''" wcReduceF] by simp
qed

section \<open>Properties: the scheduler\<close>

text \<open>
  C20. No task is lost or duplicated: in every reachable state each task is in exactly one place --
  queued, called, reported or done. When the scheduler returns every task is done and nothing is
  outstanding, and it has issued one call per task plus one per failed call. The workers that are called,
  idle or about to report are pairwise different, so that no worker has two calls at a time.
\<close>

theorem every_task_accounted:
  assumes "schedReach J task fs s"
  shows "distinct (qList (taskQ s) @ map callTask (calls s) @ map TaskIdx (results s) @ doneMap s) \<and>
    set (qList (taskQ s) @ map callTask (calls s) @ map TaskIdx (results s) @ doneMap s) = {0..<ntasks J} \<and>
    (finished s \<longrightarrow> set (doneMap s) = {0..<ntasks J} \<and> calls s = [] \<and> results s = [] \<and>
      int (issued s) = ntasks J + int (failed s)) \<and>
    distinct (qList (idleQ s) @ map fst (calls s) @ map ResWorker (results s))"
proof (intro conjI impI)
  have inv: "sinv J s" by (rule sched_inv.inv_reach[OF assms])
  show "distinct (qList (idleQ s) @ map fst (calls s) @ map ResWorker (results s))" by (rule sinv_workers[OF inv])
  show "distinct (qList (taskQ s) @ map callTask (calls s) @ map TaskIdx (results s) @ doneMap s)"
    "set (qList (taskQ s) @ map callTask (calls s) @ map TaskIdx (results s) @ doneMap s) = {0..<ntasks J}"
    by (rule sinv_tasks[OF inv])+
  assume f: "finished s"
  show "set (doneMap s) = {0..<ntasks J}" "calls s = []" "results s = []" by (rule sinv_finished[OF inv f])+
  show "int (issued s) = ntasks J + int (failed s)" using sinv_issued[OF inv] sinv_finished(1)[OF inv f] by simp
qed

theorem every_task_accounted_witness:
  "\<exists>s. schedReach (phaseJob ''wc'' demoInputs 1 mapPhase) (DoTask_run sortSlice demoWorker) demoFS s \<and>
     finished s \<and> set (doneMap s) = {0..<ntasks (phaseJob ''wc'' demoInputs 1 mapPhase)} \<and> calls s = []"
proof -
  obtain s1 where "schedReach (phaseJob ''wc'' demoInputs 1 mapPhase) (DoTask_run sortSlice demoWorker) demoFS s1" "finished s1"
    by (rule demo_runs)
  with every_task_accounted[OF this(1)] show ?thesis by blast
qed

text \<open>
  C21. The scheduler does not panic: whatever worker registers, call returns or result arrives in a
  reachable state, no slice is indexed out of its range.
\<close>

theorem scheduler_never_panics:
  assumes "schedReach J task fs s" "schedExec J task e s = Some r" "\<And>w. e = Registers w \<Longrightarrow> w \<notin> set (registered s)"
  shows "\<exists>t. r = Inr t"
  by (rule schedExec_cases[OF sched_inv.inv_reach[OF assms(1)] assms(2,3)]) auto

theorem scheduler_never_panics_witness:
  "\<exists>s r. schedReach (phaseJob ''wc'' demoInputs 1 mapPhase) (DoTask_run sortSlice demoWorker) demoFS s \<and>
     schedExec (phaseJob ''wc'' demoInputs 1 mapPhase) (DoTask_run sortSlice demoWorker) (Registers ''w1'') s = Some r \<and>
     (\<exists>t. r = Inr t)"
proof -
  let ?J = "phaseJob ''wc'' demoInputs 1 mapPhase" and ?f = "DoTask_run sortSlice demoWorker"
  obtain s where s: "schedStart ?J demoFS = Inr s" "registered s = []" "\<not> finished s"
    by (simp add: schedStart_def ntasks_def)
  then have "schedReach ?J ?f demoFS s" by (simp add: reach_init)
  moreover obtain r where r: "schedExec ?J ?f (Registers ''w1'') s = Some r" using s by (simp add: schedExec_def)
  ultimately show ?thesis using scheduler_never_panics[of ?J demoFS ?f s "Registers ''w1''" r] s(2) by fastforce
qed

text \<open>
  C22. The scheduler is never stuck: while a phase with tasks is unfinished, either a call is
  outstanding, or a result is ready and receiving it succeeds, or no worker is idle and the next one
  that registers is called at once.
\<close>

theorem scheduler_progress:
  assumes "schedReach J task fs s" "\<not> finished s" "0 < ntasks J" "w \<notin> set (registered s)" "w \<noteq> ''''"
  shows "calls s \<noteq> [] \<or> (\<exists>t. schedExec J task (Receives 0) s = Some (Inr t)) \<or>
    (\<exists>t arg. schedExec J task (Registers w) s = Some (Inr t) \<and> calls t = [(w, arg, False)])"
proof (cases "results s = []")
  case True
  then show ?thesis using waiting_register[OF sched_inv.inv_reach[OF assms(1)] assms(2,3) _ True assms(5)] by blast
next
  case False
  then have "schedExec J task (Receives 0) s = Some (recvResult J (results s ! 0) (s\<lparr>results := removeAt 0 (results s)\<rparr>))"
    using assms(2) by (simp add: schedExec_def)
  then show ?thesis by (metis schedExec_cases[OF sched_inv.inv_reach[OF assms(1)]] sched_event.distinct(5))
qed

theorem scheduler_progress_witness:
  "\<exists>s. schedStart (phaseJob ''wc'' demoInputs 1 mapPhase) demoFS = Inr s \<and>
     (\<exists>t arg. schedExec (phaseJob ''wc'' demoInputs 1 mapPhase) (DoTask_run sortSlice demoWorker) (Registers ''w1'') s = Some (Inr t) \<and>
        calls t = [(''w1'', arg, False)])"
proof -
  let ?J = "phaseJob ''wc'' demoInputs 1 mapPhase" and ?f = "DoTask_run sortSlice demoWorker"
  obtain s where s: "schedStart ?J demoFS = Inr s" "registered s = []" "\<not> finished s" "calls s = []" "results s = []"
    by (simp add: schedStart_def ntasks_def)
  then have "schedReach ?J ?f demoFS s" by (simp add: reach_init)
  moreover have "0 < ntasks ?J" by (simp add: ntasks_def demoInputs_def)
  ultimately show ?thesis using scheduler_progress[of ?J demoFS ?f s "''w1''"] s by (auto simp: schedExec_def)
qed

text \<open>
  C23. A phase ends: a run of the scheduler in which \<open>f\<close> calls fail and \<open>w\<close> workers register has at
  most \<open>w + 3 (ntasks + f)\<close> events, so that a run goes on forever only if calls fail forever.
\<close>

theorem scheduler_terminates:
  assumes "schedStart J fs = Inr s0" "schedRun J task es s0 = Some (Inr s)" "distinct (regsOf es)"
  shows "int (length es) \<le> len (regsOf es) + 3 * (ntasks J + int (failed s))"
proof -
  have s0: "registered s0 = []" "due s0 = 0" "issued s0 = 0"
    using assms(1) by (auto simp: schedStart_def due_def split: if_splits)
  have reach: "schedReach J task fs s"
    using schedTo_reach[of J task fs es s] assms by (simp add: schedTo_def)
  have "registered s = regsOf es" using schedRun_registered[OF assms(2)] s0(1) by simp
  then have "length es \<le> length (regsOf es) + 3 * issued s" using schedRun_due[OF assms(2)] s0 by simp
  moreover have "int (issued s) \<le> ntasks J + int (failed s)"
    using sinv_issued[OF sched_inv.inv_reach[OF reach]] by simp
  ultimately show ?thesis by simp
qed

theorem scheduler_terminates_witness:
  "\<exists>s0 s. schedStart (phaseJob ''wc'' demoInputs 1 mapPhase) demoFS = Inr s0 \<and>
     schedRun (phaseJob ''wc'' demoInputs 1 mapPhase) (DoTask_run sortSlice demoWorker) demoMapRun s0 = Some (Inr s) \<and>
     int (length demoMapRun) \<le> 2 + 3 * (2 + int (failed s))"
proof -
  let ?J = "phaseJob ''wc'' demoInputs 1 mapPhase" and ?f = "DoTask_run sortSlice demoWorker"
  have d: "distinct (regsOf demoMapRun)" "regsOf demoMapRun = [''w1'', ''w2'']" "ntasks ?J = 2" by code_simp+
  obtain s where "schedTo ?J ?f demoFS demoMapRun = Some s"
    using demo_sched by (auto split: option.splits)
  then obtain s0 where "schedStart ?J demoFS = Inr s0" "schedRun ?J ?f demoMapRun s0 = Some (Inr s)"
    by (auto simp: schedTo_def split: sum.splits option.splits)
  with scheduler_terminates[OF this d(1)] d(2,3) show ?thesis by auto
qed

text \<open>
  C24. A phase without tasks never returns: the scheduler only checks whether all tasks are done
  after a task has succeeded.
\<close>

theorem no_tasks_never_returns:
  assumes "schedReach J task fs s" "ntasks J = 0"
  shows "\<not> finished s \<and> calls s = []"
proof -
  have inv: "sinv J s" by (rule sched_inv.inv_reach[OF assms(1)])
  then show ?thesis using sinv_tasks(2)[OF inv] assms(2) by (simp add: sinv_def split: if_splits)
qed

theorem no_tasks_never_returns_witness:
  "\<exists>s. schedReach (phaseJob ''wc'' [] 1 mapPhase) (DoTask_run sortSlice demoWorker) demoFS s \<and> \<not> finished s"
proof -
  obtain s where "schedStart (phaseJob ''wc'' [] 1 mapPhase) demoFS = Inr s" by (simp add: schedStart_def ntasks_def)
  then have "schedReach (phaseJob ''wc'' [] 1 mapPhase) (DoTask_run sortSlice demoWorker) demoFS s" by (simp add: reach_init)
  with no_tasks_never_returns[OF this] show ?thesis by (auto simp: ntasks_def)
qed



end
