(* ===== verification/Lin_Bitset.thy ===== *)
theory Lin_Bitset
  imports Go_Prelude "HOL-Library.Word"
begin

unbundle bit_operations_syntax

text \<open>
  \<open>linearizability/bitset.go\<close>: sets of small numbers as a slice of 64-bit words. The locale
  \<open>number_set\<close> is what the checker relies on; the population count, computed with masks and one
  multiplication, is shown to count the elements.
\<close>

section \<open>The code\<close>

type_synonym bitset = "64 word list"

definition newBitset :: "nat \<Rightarrow> bitset" where
  "newBitset bits =
     (let extra = (if bits mod 64 \<noteq> 0 then 1 else 0);
          chunks = bits div 64 + extra
      in replicate chunks 0)"

definition clone :: "bitset \<Rightarrow> bitset" where
  "clone b = copy_slice (replicate (length b) 0) b"

definition bitsetIndex :: "nat \<Rightarrow> nat \<times> nat" where
  "bitsetIndex pos = (pos div 64, pos mod 64)"

definition bset :: "bitset \<Rightarrow> nat \<Rightarrow> bitset res" where
  "bset b pos =
     (let (major, minor) = bitsetIndex pos
      in bindR (idx b (int major)) (\<lambda>w. upd b (int major) (w OR push_bit minor 1)))"

definition bclear :: "bitset \<Rightarrow> nat \<Rightarrow> bitset res" where
  "bclear b pos =
     (let (major, minor) = bitsetIndex pos
      in bindR (idx b (int major)) (\<lambda>w. upd b (int major) (w AND NOT (push_bit minor 1))))"

definition bget :: "bitset \<Rightarrow> nat \<Rightarrow> bool res" where
  "bget b pos =
     (let (major, minor) = bitsetIndex pos
      in bindR (idx b (int major)) (\<lambda>w. Inr (w AND push_bit minor 1 \<noteq> 0)))"

definition popWord :: "64 word \<Rightarrow> 64 word" where
  "popWord v =
     (let v = (v AND 0x5555555555555555) + drop_bit 1 (v AND 0xAAAAAAAAAAAAAAAA);
          v = (v AND 0x3333333333333333) + drop_bit 2 (v AND 0xCCCCCCCCCCCCCCCC);
          v = (v AND 0x0F0F0F0F0F0F0F0F) + drop_bit 4 (v AND 0xF0F0F0F0F0F0F0F0);
          v = v * 0x0101010101010101
      in drop_bit 56 v AND 0xFF)"

definition popcnt :: "bitset \<Rightarrow> 64 word" where
  "popcnt b = foldl (\<lambda>total v. total + popWord v) 0 b"

definition hash :: "bitset \<Rightarrow> 64 word" where
  "hash b = foldl (\<lambda>h v. h XOR v) (popcnt b) b"

fun equalsFrom :: "bitset \<Rightarrow> bitset \<Rightarrow> bool" where
  "equalsFrom (x # b) (y # b2) = (if x \<noteq> y then False else equalsFrom b b2)"
| "equalsFrom b b2 = True"

definition equals :: "bitset \<Rightarrow> bitset \<Rightarrow> bool" where
  "equals b b2 = (if length b \<noteq> length b2 then False else equalsFrom b b2)"

section \<open>The set a bit set stands for\<close>

definition bits :: "bitset \<Rightarrow> nat set" where
  "bits b = {i. i < 64 * length b \<and> bit (b ! (i div 64)) (i mod 64)}"

lemma clone_eq [simp]: "clone b = b"
  by (simp add: clone_def)

lemma equals_iff [simp]: "equals b b2 \<longleftrightarrow> b = b2"
proof -
  have "equalsFrom b b2 \<longleftrightarrow> b = b2" if "length b = length b2"
    using that by (induction b b2 rule: list_induct2) auto
  then show ?thesis by (auto simp: equals_def)
qed

lemma bits_inj:
  assumes "length b = length b2" "bits b = bits b2"
  shows "b = b2"
proof (rule nth_equalityI[OF assms(1)])
  fix k
  assume k: "k < length b"
  show "b ! k = b2 ! k"
  proof (rule bit_word_eqI)
    fix n :: nat
    assume n: "n < LENGTH(64)"
    then have i: "(64 * k + n) div 64 = k" "(64 * k + n) mod 64 = n" "64 * k + n < 64 * length b" using k by auto
    have "64 * k + n \<in> bits b \<longleftrightarrow> 64 * k + n \<in> bits b2" using assms(2) by simp
    then show "bit (b ! k) n \<longleftrightarrow> bit (b2 ! k) n" using i assms(1) by (simp add: bits_def)
  qed
qed

lemma bit_one_word: "bit (2 ^ m :: 64 word) n \<longleftrightarrow> n = m \<and> n < 64"
  by (auto simp: bit_exp_iff)

lemma divmod_eq: "i div 64 = j div 64 \<Longrightarrow> i mod 64 = j mod 64 \<Longrightarrow> i = (j :: nat)"
  by (metis div_mult_mod_eq)

lemma bits_update:
  assumes "i < 64 * length b" "\<And>n. n < 64 \<Longrightarrow> bit w n \<longleftrightarrow> (if n = i mod 64 then v else bit (b ! (i div 64)) n)"
  shows "bits (b[i div 64 := w]) = (if v then insert i (bits b) else bits b - {i})"
proof -
  have d: "i div 64 < length b" using assms(1) by auto
  have "j \<in> bits (b[i div 64 := w]) \<longleftrightarrow> (if j = i then v else j \<in> bits b)" for j
  proof (cases "j div 64 = i div 64")
    case True
    have w: "bit w (j mod 64) \<longleftrightarrow> (if j mod 64 = i mod 64 then v else bit (b ! (i div 64)) (j mod 64))"
      by (rule assms(2)) simp
    have "j div 64 < length b" using True d by (simp only:)
    then have "j < 64 * length b" by (simp add: div_less_iff_less_mult mult.commute)
    then have "j \<in> bits (b[i div 64 := w]) \<longleftrightarrow> bit w (j mod 64)" "j \<in> bits b \<longleftrightarrow> bit (b ! (i div 64)) (j mod 64)"
      using True d by (simp_all add: bits_def)
    moreover have "j mod 64 = i mod 64 \<longleftrightarrow> j = i" using divmod_eq[OF True] by blast
    ultimately show ?thesis using w by simp
  next
    case False
    then have "j \<noteq> i" by blast
    then show ?thesis using False by (simp add: bits_def)
  qed
  then show ?thesis by (intro set_eqI) simp
qed

text \<open>
  The interface of the bit sets for their client: numbers below a capacity can be added, removed and
  tested, and a set determines its representation.
\<close>

locale number_set =
  fixes new :: "nat \<Rightarrow> 'b"
    and add :: "'b \<Rightarrow> nat \<Rightarrow> 'b res"
    and remove :: "'b \<Rightarrow> nat \<Rightarrow> 'b res"
    and member :: "'b \<Rightarrow> nat \<Rightarrow> bool res"
    and elems :: "'b \<Rightarrow> nat set"
    and cap :: "'b \<Rightarrow> nat"
  assumes new_elems: "elems (new n) = {}"
    and new_cap: "n \<le> cap (new n)"
    and add_elems: "i < cap b \<Longrightarrow> \<exists>b'. add b i = Inr b' \<and> elems b' = insert i (elems b) \<and> cap b' = cap b"
    and remove_elems: "i < cap b \<Longrightarrow> \<exists>b'. remove b i = Inr b' \<and> elems b' = elems b - {i} \<and> cap b' = cap b"
    and member_elems: "i < cap b \<Longrightarrow> member b i = Inr (i \<in> elems b)"
    and elems_inj: "cap b = cap b' \<Longrightarrow> elems b = elems b' \<Longrightarrow> b = b'"
begin

lemma remove_add:
  assumes "i < cap b" "i \<notin> elems b" "add b i = Inr b'"
  shows "remove b' i = Inr b"
proof -
  have b': "elems b' = insert i (elems b)" "cap b' = cap b" using add_elems[OF assms(1)] assms(3) by auto
  then obtain b2 where "remove b' i = Inr b2" "elems b2 = elems b" "cap b2 = cap b"
    using remove_elems[of i b'] assms(1,2) by auto
  then show ?thesis using elems_inj[of b2 b] by simp
qed

end

interpretation bit_set: number_set newBitset bset bclear bget bits "\<lambda>b. 64 * length b"
proof
  show "bits (newBitset n) = {}" "n \<le> 64 * length (newBitset n)" for n
    by (auto simp: bits_def newBitset_def Let_def)
  fix i and b b' :: bitset
  show "b = b'" if "64 * length b = 64 * length b'" "bits b = bits b'" using bits_inj that by simp
  assume i: "i < 64 * length b"
  then have d: "i div 64 < length b" by auto
  show "bget b i = Inr (i \<in> bits b)"
  proof -
    have "b ! (i div 64) AND push_bit (i mod 64) 1 \<noteq> 0 \<longleftrightarrow> bit (b ! (i div 64)) (i mod 64)"
      by (simp add: and_exp_eq_0_iff_not_bit)
    then show ?thesis using d i by (simp add: bget_def bitsetIndex_def bits_def)
  qed
  have "bits (b[i div 64 := b ! (i div 64) OR push_bit (i mod 64) 1]) = insert i (bits b)"
    using bits_update[OF i, of "b ! (i div 64) OR push_bit (i mod 64) 1" True] by (auto simp: bit_or_iff bit_one_word)
  then show "\<exists>b'. bset b i = Inr b' \<and> bits b' = insert i (bits b) \<and> 64 * length b' = 64 * length b"
    using d by (simp add: bset_def bitsetIndex_def)
  have "bits (b[i div 64 := b ! (i div 64) AND NOT (push_bit (i mod 64) 1)]) = bits b - {i}"
    using bits_update[OF i, of "b ! (i div 64) AND NOT (push_bit (i mod 64) 1)" False]
    by (auto simp: bit_and_iff bit_not_iff bit_one_word)
  then show "\<exists>b'. bclear b i = Inr b' \<and> bits b' = bits b - {i} \<and> 64 * length b' = 64 * length b"
    using d by (simp add: bclear_def bitsetIndex_def)
qed

section \<open>The population count\<close>

text \<open>
  The sum of the lowest \<open>n\<close> digits of a number in base \<open>2 ^ w\<close>, the mask of every second digit, and
  the number whose digits in base \<open>2 ^ (2 * w)\<close> are the sums of two neighbouring digits.
\<close>

fun digitSum :: "nat \<Rightarrow> nat \<Rightarrow> nat \<Rightarrow> nat" where
  "digitSum w 0 v = 0"
| "digitSum w (Suc n) v = v mod 2 ^ w + digitSum w n (v div 2 ^ w)"

fun everySecond :: "nat \<Rightarrow> nat \<Rightarrow> nat" where
  "everySecond w 0 = 0"
| "everySecond w (Suc n) = (2 ^ w - 1) + 2 ^ (2 * w) * everySecond w n"

fun pairUp :: "nat \<Rightarrow> nat \<Rightarrow> nat \<Rightarrow> nat" where
  "pairUp w 0 v = 0"
| "pairUp w (Suc n) v = v mod 2 ^ w + v div 2 ^ w mod 2 ^ w + 2 ^ (2 * w) * pairUp w n (v div 2 ^ (2 * w))"

lemma and_split:
  fixes a :: nat
  assumes "m < 2 ^ k"
  shows "a AND (m + 2 ^ k * c) = (a AND m) + 2 ^ k * (a div 2 ^ k AND c)"
proof -
  have e: "x = y" if "take_bit k x = take_bit k y" "drop_bit k x = drop_bit k y" for x y :: nat
    using that bits_ident[of k] by metis
  have m: "take_bit k m = m" using assms by (simp add: take_bit_nat_eq_self)
  have am: "take_bit k (a AND m) = a AND m"
    using m by (metis and.assoc take_bit_eq_mask)
  then have lt: "a AND m < 2 ^ k" by (metis take_bit_nat_less_exp)
  show ?thesis
  proof (rule e)
    have "take_bit k (m + 2 ^ k * c) = take_bit k m" by (simp add: take_bit_eq_mod)
    then have "take_bit k (a AND (m + 2 ^ k * c)) = take_bit k (a AND m)" by (simp add: take_bit_and)
    also have "\<dots> = take_bit k ((a AND m) + 2 ^ k * (a div 2 ^ k AND c))" by (simp add: take_bit_eq_mod)
    finally show "take_bit k (a AND (m + 2 ^ k * c)) = take_bit k ((a AND m) + 2 ^ k * (a div 2 ^ k AND c))" .
    show "drop_bit k (a AND (m + 2 ^ k * c)) = drop_bit k ((a AND m) + 2 ^ k * (a div 2 ^ k AND c))"
      using assms lt by (simp add: drop_bit_and) (simp add: drop_bit_eq_div)
  qed
qed

lemma everySecond_numeral:
  "everySecond w (numeral k) = (2 ^ w - 1) + 2 ^ (2 * w) * everySecond w (pred_numeral k)"
  by (simp add: numeral_eq_Suc)

lemma and_everySecond:
  "a AND everySecond w (Suc n) = a mod 2 ^ w + 2 ^ (2 * w) * (a div 2 ^ (2 * w) AND everySecond w n)"
proof -
  have "(2::nat) ^ w \<le> 2 ^ (2 * w)" "0 < (2::nat) ^ w" by (simp_all add: power_increasing)
  then have "(2::nat) ^ w - 1 < 2 ^ (2 * w)" by linarith
  moreover have "a AND (2 ^ w - 1) = a mod 2 ^ w" by (metis take_bit_eq_mask take_bit_eq_mod mask_eq_exp_minus_1)
  ultimately show ?thesis using and_split[of "2 ^ w - 1" "2 * w" a "everySecond w n"] by simp
qed

lemma pairUp_masks: "pairUp w n v = (v AND everySecond w n) + (v div 2 ^ w AND everySecond w n)"
proof (induction n arbitrary: v)
  case (Suc n)
  have "v div 2 ^ w div 2 ^ (2 * w) = v div 2 ^ (2 * w) div 2 ^ w" by (simp add: div_mult2_eq[symmetric] mult.commute)
  then show ?case using Suc.IH[of "v div 2 ^ (2 * w)"] by (simp only: and_everySecond pairUp.simps) (simp add: algebra_simps)
qed simp

lemma pair_bound: "0 < w \<Longrightarrow> a mod 2 ^ w + b mod 2 ^ w < (2::nat) ^ (2 * w)"
proof -
  assume "0 < w"
  then have "(2::nat) \<le> 2 ^ w" by (metis One_nat_def Suc_leI one_le_numeral power_increasing power_one_right)
  moreover have "a mod 2 ^ w < 2 ^ w" "b mod 2 ^ w < 2 ^ w" by simp_all
  ultimately have "a mod 2 ^ w + b mod 2 ^ w < 2 * 2 ^ w" "2 * 2 ^ w \<le> (2::nat) ^ w * 2 ^ w"
    by (linarith, simp)
  then show ?thesis by (simp add: mult_2 power_add)
qed

lemma digitSum_pairUp:
  assumes "0 < w"
  shows "digitSum (2 * w) n (pairUp w n v) = digitSum w (2 * n) v"
proof (induction n arbitrary: v)
  case (Suc n)
  let ?a = "v mod 2 ^ w + v div 2 ^ w mod 2 ^ w"
  have a: "?a < 2 ^ (2 * w)" using pair_bound[OF assms] .
  have "(?a + 2 ^ (2 * w) * r) mod 2 ^ (2 * w) = ?a" "(?a + 2 ^ (2 * w) * r) div 2 ^ (2 * w) = r" for r
    using a by simp_all
  moreover have "v div 2 ^ w div 2 ^ w = v div 2 ^ (2 * w)" by (simp add: div_mult2_eq[symmetric] mult_2 power_add)
  ultimately show ?case using Suc.IH[of "v div 2 ^ (2 * w)"] by simp
qed simp

lemma pairUp_bound: "0 < w \<Longrightarrow> pairUp w n v < 2 ^ (2 * w * n)"
proof (induction n arbitrary: v)
  case (Suc n)
  let ?B = "(2::nat) ^ (2 * w)" and ?r = "pairUp w n (v div 2 ^ (2 * w))"
  have "v mod 2 ^ w + v div 2 ^ w mod 2 ^ w < ?B" using pair_bound[OF Suc.prems] .
  moreover have "Suc ?r \<le> 2 ^ (2 * w * n)" using Suc.IH[OF Suc.prems] by (simp add: Suc_leI)
  then have "?B * Suc ?r \<le> ?B * 2 ^ (2 * w * n)" by (rule mult_le_mono2)
  ultimately show ?case by (simp add: power_add)
qed simp

lemma digitSum_count: "digitSum 1 n v = card {i. i < n \<and> bit v i}"
proof (induction n arbitrary: v)
  case (Suc n)
  have "{i. i < Suc n \<and> bit v i} = (if odd v then {0} else {}) \<union> Suc ` {i. i < n \<and> bit (v div 2) i}"
  proof (rule set_eqI)
    fix i
    show "i \<in> {i. i < Suc n \<and> bit v i} \<longleftrightarrow>
        i \<in> (if odd v then {0} else {}) \<union> Suc ` {i. i < n \<and> bit (v div 2) i}"
      by (cases i) (simp_all add: bit_0 bit_Suc image_iff)
  qed
  moreover have "card (Suc ` {i. i < n \<and> bit (v div 2) i}) = card {i. i < n \<and> bit (v div 2) i}"
    by (simp add: card_image)
  ultimately show ?case using Suc.IH[of "v div 2"] by (auto simp: mod2_eq_if card_insert_if)
qed simp

lemma digitSum_le: "digitSum w n v \<le> n * (2 ^ w - 1)"
proof (induction n arbitrary: v)
  case (Suc n)
  have "v mod 2 ^ w < 2 ^ w" by simp
  then have "v mod 2 ^ w \<le> 2 ^ w - 1" by linarith
  then show ?case using Suc.IH[of "v div 2 ^ w"] by simp
qed simp

text \<open>
  Multiplying by \<open>0x0101010101010101\<close> adds up the bytes in the highest one, as long as the sum
  fits into a byte.
\<close>

lemma top_byte:
  fixes r s q :: nat
  assumes "r < 2 ^ 56" "s < 256"
  shows "(r + 2 ^ 56 * s + 2 ^ 64 * q) mod 2 ^ 64 div 2 ^ 56 = s"
proof -
  have "(r + 2 ^ 56 * s + 2 ^ 64 * q) mod 2 ^ 64 = r + 2 ^ 56 * s" using assms by simp
  then show ?thesis using assms(1) by simp
qed

lemma byte_below: "x < 256 \<Longrightarrow> y < n \<Longrightarrow> x + 256 * y < 256 * (n :: nat)"
  by linarith

lemma sum_bytes:
  fixes a b c d e f g h :: nat
  assumes "a + b + c + d + e + f + g + h < 256"
  shows "(a + 256 * (b + 256 * (c + 256 * (d + 256 * (e + 256 * (f + 256 * (g + 256 * h)))))))
      * 0x0101010101010101 mod 2 ^ 64 div 2 ^ 56 = a + b + c + d + e + f + g + h"
    (is "?v * ?m mod _ div _ = ?s")
proof -
  let ?r = "a + 256 * ((a + b) + 256 * ((a + b + c) + 256 * ((a + b + c + d) + 256 * ((a + b + c + d + e)
    + 256 * ((a + b + c + d + e + f) + 256 * (a + b + c + d + e + f + g))))))"
  let ?q = "(b + c + d + e + f + g + h) + 256 * ((c + d + e + f + g + h) + 256 * ((d + e + f + g + h)
    + 256 * ((e + f + g + h) + 256 * ((f + g + h) + 256 * ((g + h) + 256 * h)))))"
  have "?v * ?m = ?r + 2 ^ 56 * ?s + 2 ^ 64 * ?q" by (simp add: distrib_left distrib_right)
  moreover have "?r < 256 * (256 * (256 * (256 * (256 * (256 * 256)))))"
    by (intro byte_below) (use assms in linarith)+
  then have "?r < 2 ^ 56" by simp
  ultimately show ?thesis using top_byte[of ?r ?s ?q] assms by (simp only:)
qed

lemma bytes_of:
  assumes "v < 2 ^ 64" "digitSum 8 8 v < 256"
  shows "v * 0x0101010101010101 mod 2 ^ 64 div 2 ^ 56 = digitSum 8 8 v"
proof -
  define x where "x k = v div 256 ^ k" for k
  define a where "a k = x k mod 256" for k
  have nxt: "x (Suc k) = x k div 256" for k by (simp add: x_def div_mult2_eq[symmetric] mult.commute)
  have d: "x k = a k + 256 * x (Suc k)" for k by (simp add: a_def nxt)
  have z: "x 8 = 0" "x 0 = v" using assms(1) by (simp_all add: x_def)
  have v: "v = a 0 + 256 * (a 1 + 256 * (a 2 + 256 * (a 3 + 256 * (a 4 + 256 * (a 5 + 256 * (a 6 + 256 * a 7))))))"
    using d[of 0] d[of 1] d[of 2] d[of 3] d[of 4] d[of 5] d[of 6] d[of 7] z
    by (simp flip: numeral_2_eq_2)
  have sum: "digitSum 8 n (x k) = sum_list (map a [k..<k + n])" for n k
    by (induction n arbitrary: k) (simp_all add: a_def nxt[symmetric] upt_conv_Cons del: upt_Suc)
  have l: "[0..<8] = [0, 1, 2, 3, 4, 5, 6, 7]" by code_simp
  have "digitSum 8 8 v = sum_list (map a [0..<8])" using sum[of 8 0] by (simp add: z(2))
  then have s: "digitSum 8 8 v = a 0 + a 1 + a 2 + a 3 + a 4 + a 5 + a 6 + a 7" unfolding l by simp
  show ?thesis using sum_bytes[of "a 0" "a 1" "a 2" "a 3" "a 4" "a 5" "a 6" "a 7"] assms(2) unfolding s v[symmetric] .
qed

lemma pairUp_word:
  fixes x :: "64 word"
  assumes "unat m = everySecond w n" "unat m' = 2 ^ w * everySecond w n" "2 * w * n = 64" "0 < w"
  shows "unat ((x AND m) + drop_bit w (x AND m')) = pairUp w n (unat x)"
proof -
  have "unat (drop_bit w (x AND m')) = drop_bit w (unat x AND unat m')"
    by (simp add: unat_drop_bit_eq unsigned_and_eq)
  also have "\<dots> = unat x div 2 ^ w AND everySecond w n" by (simp add: drop_bit_and assms(2)) (simp add: drop_bit_eq_div)
  finally have "unat (x AND m) + unat (drop_bit w (x AND m')) = pairUp w n (unat x)"
    by (simp add: pairUp_masks unsigned_and_eq assms(1))
  moreover have "pairUp w n (unat x) < 2 ^ 64" using pairUp_bound[OF assms(4), of n] assms(3) by metis
  ultimately show ?thesis by (simp add: unat_word_ariths)
qed

lemma unat_popWord: "unat (popWord v) = card {i. i < 64 \<and> bit v i}"
proof -
  define v1 where "v1 = (v AND 0x5555555555555555) + drop_bit 1 (v AND 0xAAAAAAAAAAAAAAAA)"
  define v2 where "v2 = (v1 AND 0x3333333333333333) + drop_bit 2 (v1 AND 0xCCCCCCCCCCCCCCCC)"
  define v3 where "v3 = (v2 AND 0x0F0F0F0F0F0F0F0F) + drop_bit 4 (v2 AND 0xF0F0F0F0F0F0F0F0)"
  have m: "everySecond 1 32 = 0x5555555555555555" "everySecond 2 16 = 0x3333333333333333" "everySecond 4 8 = 0x0F0F0F0F0F0F0F0F"
    by (simp_all add: everySecond_numeral)
  have u1: "unat v1 = pairUp 1 32 (unat v)"
    unfolding v1_def by (rule pairUp_word) (unfold m, simp_all)
  have u2: "unat v2 = pairUp 2 16 (unat v1)"
    unfolding v2_def by (rule pairUp_word) (unfold m, simp_all)
  have u3: "unat v3 = pairUp 4 8 (unat v2)"
    unfolding v3_def by (rule pairUp_word) (unfold m, simp_all)
  have "digitSum 8 8 (unat v3) = digitSum 4 16 (unat v2)" using digitSum_pairUp[of 4 8 "unat v2"] by (simp add: u3)
  also have "\<dots> = digitSum 2 32 (unat v1)" using digitSum_pairUp[of 2 16 "unat v1"] by (simp add: u2)
  also have "\<dots> = digitSum 1 64 (unat v)" using digitSum_pairUp[of 1 32 "unat v"] by (simp add: u1)
  finally have d: "digitSum 8 8 (unat v3) = digitSum 1 64 (unat v)" .
  then have lt: "digitSum 8 8 (unat v3) < 256" using digitSum_le[of 1 64 "unat v"] by simp
  have "unat v3 < 2 ^ 64" using unsigned_less[of v3] by simp
  from bytes_of[OF this lt] have "unat v3 * 0x0101010101010101 mod 2 ^ 64 div 2 ^ 56 = digitSum 8 8 (unat v3)" .
  moreover have "popWord v = drop_bit 56 (v3 * 0x0101010101010101) AND 0xFF"
    by (simp add: popWord_def v1_def v2_def v3_def Let_def)
  then have "unat (popWord v) = unat (drop_bit 56 (v3 * 0x0101010101010101)) AND mask 8"
    by (simp add: unsigned_and_eq mask_eq_exp_minus_1)
  then have "unat (popWord v) = unat (v3 * 0x0101010101010101) div 2 ^ 56 mod 256"
    unfolding take_bit_eq_mask[symmetric] unat_drop_bit_eq by (simp only: drop_bit_eq_div take_bit_eq_mod) simp
  then have "unat (popWord v) = unat v3 * 0x0101010101010101 mod 2 ^ 64 div 2 ^ 56 mod 256"
    by (simp only: unat_word_ariths) simp
  ultimately have "unat (popWord v) = digitSum 1 64 (unat v)" using d lt by simp
  then show ?thesis unfolding digitSum_count by (simp add: bit_unsigned_iff cong: conj_cong)
qed

lemma bits_Cons: "bits (w # b) = {i. i < 64 \<and> bit w i} \<union> (\<lambda>i. 64 + i) ` bits b"
proof (rule set_eqI)
  fix i
  show "i \<in> bits (w # b) \<longleftrightarrow> i \<in> {i. i < 64 \<and> bit w i} \<union> (\<lambda>i. 64 + i) ` bits b"
  proof (cases "i < 64")
    case True
    then show ?thesis by (auto simp: bits_def)
  next
    case False
    then obtain j where j: "i = 64 + j" using le_Suc_ex not_less by blast
    then have "i div 64 = Suc (j div 64)" "i mod 64 = j mod 64" by simp_all
    then show ?thesis using False j by (auto simp: bits_def)
  qed
qed

lemma finite_bits [simp]: "finite (bits b)"
  by (rule finite_subset[of _ "{..<64 * length b}"]) (auto simp: bits_def)

lemma card_bits: "card (bits b) = (\<Sum>w\<leftarrow>b. unat (popWord w))"
proof (induction b)
  case Nil
  then show ?case by (simp add: bits_def)
next
  case (Cons w b)
  have "card (bits (w # b)) = card {i. i < 64 \<and> bit w i} + card ((\<lambda>i. 64 + i) ` bits b)"
    unfolding bits_Cons by (rule card_Un_disjoint) auto
  then show ?case using Cons.IH by (simp add: card_image unat_popWord)
qed

lemma popcnt_card: "popcnt b = of_nat (card (bits b))"
proof -
  have "foldl (\<lambda>total v. total + popWord v) t b = t + of_nat (card (bits b))" for t
    by (induction b arbitrary: t) (simp_all add: card_bits add.assoc)
  then show ?thesis by (simp add: popcnt_def)
qed

lemma unat_popcnt:
  assumes "64 * length b < 2 ^ 64"
  shows "unat (popcnt b) = card (bits b)"
proof -
  have "card (bits b) \<le> 64 * length b"
    using card_mono[of "{..<64 * length b}" "bits b"] by (auto simp: bits_def)
  then show ?thesis using assms by (simp add: popcnt_card unat_of_nat)
qed

end
