(* ===== verification/Lin_Model.thy ===== *)
theory Lin_Model
  imports Go_Prelude "HOL-Library.AList" "HOL-Library.Word"
begin

text \<open>
  \<open>linearizability/model.go\<close>, \<open>models.go\<close> and the part of \<open>linearizability.go\<close> that turns a history
  into a list of call and return entries. The type \<open>'v\<close> is Go's \<open>interface{}\<close> as far as a model uses
  it; a type assertion that fails is a panic. Timestamps (\<open>int64\<close>) are \<^typ>\<open>int\<close>, identifiers
  (\<open>uint\<close>, counted up from zero) are \<^typ>\<open>nat\<close>.

  \<open>sort.Sort\<close> is not stable, so it is an argument (\<open>srt\<close>) of \<open>makeEntries\<close>; the locale \<open>time_sort\<close>
  states what its documentation promises. The order in which Go ranges over a map is the argument
  \<open>rng\<close> of \<open>KvModel\<close>, with the locale \<open>map_range\<close> of the prelude.
\<close>

section \<open>Histories and models\<close>

record 'v Operation =
  Input :: 'v
  Call :: int
  Output :: 'v
  Return :: int

datatype EventKind = CallEvent | ReturnEvent

record 'v Event =
  Kind :: EventKind
  EvValue :: 'v \<comment> \<open>\<open>Value\<close>\<close>
  Id :: nat

record ('s, 'v) Model =
  Partition :: "('v Operation list \<Rightarrow> 'v Operation list list res) option"
  PartitionEvent :: "('v Event list \<Rightarrow> 'v Event list list res) option"
  Init :: 's
  Step :: "'s \<Rightarrow> 'v \<Rightarrow> 'v \<Rightarrow> (bool \<times> 's) res"
  Equal :: "('s \<Rightarrow> 's \<Rightarrow> bool) option"

definition NoPartition :: "'v Operation list \<Rightarrow> 'v Operation list list res" where
  "NoPartition history = Inr [history]"

definition NoPartitionEvent :: "'v Event list \<Rightarrow> 'v Event list list res" where
  "NoPartitionEvent history = Inr [history]"

definition ShallowEqual :: "'s \<Rightarrow> 's \<Rightarrow> bool" where
  "ShallowEqual state1 state2 \<longleftrightarrow> state1 = state2"

definition fillDefault :: "('s, 'v) Model \<Rightarrow> ('s, 'v) Model" where
  "fillDefault model =
     (let model = (if Option.is_none (Partition model) then model\<lparr>Partition := Some NoPartition\<rparr> else model);
          model = (if Option.is_none (PartitionEvent model) then model\<lparr>PartitionEvent := Some NoPartitionEvent\<rparr> else model);
          model = (if Option.is_none (Equal model) then model\<lparr>Equal := Some ShallowEqual\<rparr> else model)
      in model)"

text \<open>Calling a function that is \<open>nil\<close> panics.\<close>

definition callFn :: "('a \<Rightarrow> 'b res) option \<Rightarrow> 'a \<Rightarrow> 'b res" where
  "callFn f x = (case f of None \<Rightarrow> Inl NilDereference | Some g \<Rightarrow> g x)"

section \<open>The key/value model\<close>

record KvInput =
  Op :: "8 word"
  KvKey :: string
  KvValue :: string

record KvOutput =
  OutValue :: string

datatype kv_value = KvIn KvInput | KvOut KvOutput

fun asKvInput :: "kv_value \<Rightarrow> KvInput res" where
  "asKvInput (KvIn i) = Inr i"
| "asKvInput (KvOut _) = Inl (Panicked ''interface conversion'')"

fun asKvOutput :: "kv_value \<Rightarrow> KvOutput res" where
  "asKvOutput (KvOut o') = Inr o'"
| "asKvOutput (KvIn _) = Inl (Panicked ''interface conversion'')"

definition addOp ::
  "kv_value Operation \<Rightarrow> (string \<times> kv_value Operation list) list \<Rightarrow> (string \<times> kv_value Operation list) list res" where
  "addOp v m =
     bindR (asKvInput (Input v)) (\<lambda>i.
       let key = KvKey i; old = (case map_of m key of None \<Rightarrow> [] | Some ops \<Rightarrow> ops)
       in Inr (AList.update key (old @ [v]) m))"

definition KvPartition ::
  "((string \<times> kv_value Operation list) list \<Rightarrow> (string \<times> kv_value Operation list) list) \<Rightarrow>
   kv_value Operation list \<Rightarrow> kv_value Operation list list res" where
  "KvPartition rng history =
     bindR (foldR addOp history []) (\<lambda>m. Inr (foldl (\<lambda>ret (k, v). ret @ [v]) [] (rng m)))"

definition KvStep :: "string \<Rightarrow> kv_value \<Rightarrow> kv_value \<Rightarrow> (bool \<times> string) res" where
  "KvStep st input output =
     bindR (asKvInput input) (\<lambda>inp.
     bindR (asKvOutput output) (\<lambda>out.
       if Op inp = 0 then Inr (OutValue out = st, st)
       else if Op inp = 1 then Inr (True, KvValue inp)
       else Inr (True, st @ KvValue inp)))"

definition KvModel ::
  "((string \<times> kv_value Operation list) list \<Rightarrow> (string \<times> kv_value Operation list) list) \<Rightarrow> (string, kv_value) Model" where
  "KvModel rng =
     \<lparr>Partition = Some (KvPartition rng), PartitionEvent = None, Init = '''', Step = KvStep, Equal = Some ShallowEqual\<rparr>"

section \<open>Entries\<close>

datatype entryKind = callEntry | returnEntry

record 'v entry =
  kind :: entryKind
  evalue :: 'v \<comment> \<open>\<open>value\<close>\<close>
  eid :: nat \<comment> \<open>\<open>id\<close>\<close>
  etime :: int \<comment> \<open>\<open>time\<close>\<close>

fun entriesFrom :: "nat \<Rightarrow> 'v Operation list \<Rightarrow> 'v entry list" where
  "entriesFrom k [] = []"
| "entriesFrom k (elem # history) =
     \<lparr>kind = callEntry, evalue = Input elem, eid = k, etime = Call elem\<rparr> #
     \<lparr>kind = returnEntry, evalue = Output elem, eid = k, etime = Return elem\<rparr> # entriesFrom (k + 1) history"

definition makeEntries :: "('v entry list \<Rightarrow> 'v entry list) \<Rightarrow> 'v Operation list \<Rightarrow> 'v entry list" where
  "makeEntries srt history = srt (entriesFrom 0 history)"

fun renumberFrom :: "(nat \<rightharpoonup> nat) \<Rightarrow> nat \<Rightarrow> 'v Event list \<Rightarrow> 'v Event list" where
  "renumberFrom m k [] = []"
| "renumberFrom m k (v # events) =
     (case m (Id v) of
        Some r \<Rightarrow> \<lparr>Kind = Kind v, EvValue = EvValue v, Id = r\<rparr> # renumberFrom m k events
      | None \<Rightarrow> \<lparr>Kind = Kind v, EvValue = EvValue v, Id = k\<rparr> # renumberFrom (m(Id v \<mapsto> k)) (k + 1) events)"

definition renumber :: "'v Event list \<Rightarrow> 'v Event list" where
  "renumber events = renumberFrom Map.empty 0 events"

definition convertEntries :: "'v Event list \<Rightarrow> 'v entry list" where
  "convertEntries events =
     map (\<lambda>elem. \<lparr>kind = (if Kind elem = ReturnEvent then returnEntry else callEntry),
       evalue = EvValue elem, eid = Id elem, etime = -1\<rparr>) events"

end
