(* ===== verification/Lin_List.thy ===== *)
theory Lin_List
  imports Lin_Model
begin

text \<open>
  The doubly linked list of entries that the checker works on (\<open>linearizability.go\<close>, \<open>node\<close> to
  \<open>makeLinkedEntries\<close>, \<open>lift\<close>, \<open>unlift\<close>). The nodes live in a store: a list in which the position of a
  node is its address, so that allocating a node appends to it. A pointer is \<open>None\<close> for \<open>nil\<close>, and
  following \<open>nil\<close> is the error \<^const>\<open>NilDereference\<close>. The field \<open>value\<close> is \<open>None\<close> only in the node
  that the checker puts in front of the list.
\<close>

section \<open>The code\<close>

record 'v node =
  nvalue :: "'v option" \<comment> \<open>\<open>value\<close>\<close>
  nmatch :: "nat option" \<comment> \<open>\<open>match\<close>\<close>
  nid :: nat \<comment> \<open>\<open>id\<close>\<close>
  nnext :: "nat option" \<comment> \<open>\<open>next\<close>\<close>
  nprev :: "nat option" \<comment> \<open>\<open>prev\<close>\<close>

type_synonym 'v heap = "'v node list"

definition setNext :: "nat \<Rightarrow> nat option \<Rightarrow> 'v heap \<Rightarrow> 'v heap" where
  "setNext a p h = h[a := (h ! a)\<lparr>nnext := p\<rparr>]"

definition setPrev :: "nat \<Rightarrow> nat option \<Rightarrow> 'v heap \<Rightarrow> 'v heap" where
  "setPrev a p h = h[a := (h ! a)\<lparr>nprev := p\<rparr>]"

definition deref :: "nat option \<Rightarrow> nat res" where
  "deref p = (case p of None \<Rightarrow> Inl NilDereference | Some a \<Rightarrow> Inr a)"

definition insertBefore :: "nat \<Rightarrow> nat option \<Rightarrow> 'v heap \<Rightarrow> 'v heap" where
  "insertBefore n mark h =
     (case mark of
        None \<Rightarrow> h
      | Some mark \<Rightarrow>
          (let beforeMark = nprev (h ! mark);
               h = setPrev mark (Some n) h;
               h = setNext n (Some mark) h
           in case beforeMark of
                None \<Rightarrow> h
              | Some b \<Rightarrow>
                  (let h = setPrev n (Some b) h
                   in setNext b (Some n) h)))"

text \<open>The loop of \<open>length\<close> need not end if the list is cyclic.\<close>

partial_function (option) lengthLoop :: "'v heap \<Rightarrow> nat option \<Rightarrow> nat \<Rightarrow> nat option" where
  "lengthLoop h n l = (case n of None \<Rightarrow> Some l | Some a \<Rightarrow> lengthLoop h (nnext (h ! a)) (l + 1))"

declare lengthLoop.simps [code]

definition listLength :: "'v heap \<Rightarrow> nat option \<Rightarrow> nat option" where
  "listLength h n = lengthLoop h n 0"

definition linkEntry ::
  "'v heap \<times> nat option \<times> (nat \<rightharpoonup> nat) \<Rightarrow> 'v entry \<Rightarrow> 'v heap \<times> nat option \<times> (nat \<rightharpoonup> nat)" where
  "linkEntry = (\<lambda>(h, root, m) elem.
     let a = length h in
     if kind elem = returnEntry then
       (let h = h @ [\<lparr>nvalue = Some (evalue elem), nmatch = None, nid = eid elem, nnext = None, nprev = None\<rparr>];
            m = m(eid elem \<mapsto> a);
            h = insertBefore a root h
        in (h, Some a, m))
     else
       (let h = h @ [\<lparr>nvalue = Some (evalue elem), nmatch = m (eid elem), nid = eid elem, nnext = None, nprev = None\<rparr>];
            h = insertBefore a root h
        in (h, Some a, m)))"

definition makeLinkedEntries :: "'v entry list \<Rightarrow> 'v heap \<times> nat option" where
  "makeLinkedEntries entries = (let (h, root, m) = foldl linkEntry ([], None, Map.empty) (rev entries) in (h, root))"

definition lift :: "nat \<Rightarrow> 'v heap \<Rightarrow> 'v heap res" where
  "lift entry h =
     bindR (deref (nprev (h ! entry))) (\<lambda>p. let h = setNext p (nnext (h ! entry)) h in
     bindR (deref (nnext (h ! entry))) (\<lambda>n. let h = setPrev n (nprev (h ! entry)) h in
     bindR (deref (nmatch (h ! entry))) (\<lambda>m.
     bindR (deref (nprev (h ! m))) (\<lambda>mp. let h = setNext mp (nnext (h ! m)) h in
     case nnext (h ! m) of
       None \<Rightarrow> Inr h
     | Some mn \<Rightarrow> Inr (setPrev mn (nprev (h ! m)) h)))))"

definition unlift :: "nat \<Rightarrow> 'v heap \<Rightarrow> 'v heap res" where
  "unlift entry h =
     bindR (deref (nmatch (h ! entry))) (\<lambda>m.
     bindR (deref (nprev (h ! m))) (\<lambda>mp. let h = setNext mp (Some m) h;
       h = (case nnext (h ! m) of None \<Rightarrow> h | Some mn \<Rightarrow> setPrev mn (Some m) h) in
     bindR (deref (nprev (h ! entry))) (\<lambda>p. let h = setNext p (Some entry) h in
     bindR (deref (nnext (h ! entry))) (\<lambda>n. Inr (setPrev n (Some entry) h)))))"

lemma deref_Some [simp]: "deref (Some a) = Inr a"
  by (simp add: deref_def)

section \<open>Lists in the store\<close>

text \<open>\<open>dll h a xs\<close>: from the node \<open>a\<close> on, the nodes \<open>xs\<close> follow, linked in both directions, up to the end.\<close>

fun dll :: "'v heap \<Rightarrow> nat \<Rightarrow> nat list \<Rightarrow> bool" where
  "dll h a [] \<longleftrightarrow> nnext (h ! a) = None"
| "dll h a (b # xs) \<longleftrightarrow> nnext (h ! a) = Some b \<and> nprev (h ! b) = Some a \<and> dll h b xs"

definition inStore :: "'v heap \<Rightarrow> nat list \<Rightarrow> bool" where
  "inStore h xs \<longleftrightarrow> distinct xs \<and> set xs \<subseteq> {..<length h}"

lemma setNext_nth [simp]: "setNext a p h ! b = (if a = b \<and> a < length h then (h ! a)\<lparr>nnext := p\<rparr> else h ! b)"
  by (cases "a < length h") (auto simp: setNext_def list_update_beyond)

lemma setPrev_nth [simp]: "setPrev a p h ! b = (if a = b \<and> a < length h then (h ! a)\<lparr>nprev := p\<rparr> else h ! b)"
  by (cases "a < length h") (auto simp: setPrev_def list_update_beyond)

lemma set_length [simp]: "length (setNext a p h) = length h" "length (setPrev a p h) = length h"
  by (simp_all add: setNext_def setPrev_def)

lemma dll_cong:
  assumes "\<And>b. b \<in> set (a # xs) \<Longrightarrow> nnext (h' ! b) = nnext (h ! b)" "\<And>b. b \<in> set xs \<Longrightarrow> nprev (h' ! b) = nprev (h ! b)"
  shows "dll h' a xs = dll h a xs"
  using assms by (induction xs arbitrary: a) auto

lemma dll_append:
  assumes "inStore h (a # us @ e # ws)"
  shows "dll h a (us @ e # ws) \<longleftrightarrow> dll (setNext (last (a # us)) None h) a us \<and> nnext (h ! last (a # us)) = Some e \<and>
     nprev (h ! e) = Some (last (a # us)) \<and> dll h e ws"
  using assms
proof (induction us arbitrary: a)
  case Nil
  then show ?case by (auto simp: inStore_def)
next
  case (Cons b us)
  have "last (b # us) \<in> set (b # us)" by (rule last_in_set) simp
  then have "a \<noteq> last (b # us)" using Cons.prems by (auto simp: inStore_def)
  then have "setNext (last (b # us)) None h ! a = h ! a" by (simp del: last.simps)
  moreover have "nprev (setNext (last (b # us)) None h ! b) = nprev (h ! b)" by simp
  moreover have "inStore h (b # us @ e # ws)" using Cons.prems by (simp add: inStore_def)
  ultimately show ?case using Cons.IH by simp
qed

text \<open>Taking one node out of a list, and putting it back where its own pointers say.\<close>

definition unlink :: "nat \<Rightarrow> 'v heap \<Rightarrow> 'v heap" where
  "unlink e h =
     (let p = the (nprev (h ! e)); h' = setNext p (nnext (h ! e)) h
      in case nnext (h ! e) of None \<Rightarrow> h' | Some n \<Rightarrow> setPrev n (Some p) h')"

definition relink :: "nat \<Rightarrow> 'v heap \<Rightarrow> 'v heap" where
  "relink e h =
     (let h' = setNext (the (nprev (h ! e))) (Some e) h
      in case nnext (h ! e) of None \<Rightarrow> h' | Some n \<Rightarrow> setPrev n (Some e) h')"

lemma unlink_fields [simp]:
  "length (unlink e h) = length h"
  "nvalue (unlink e h ! b) = nvalue (h ! b)" "nmatch (unlink e h ! b) = nmatch (h ! b)" "nid (unlink e h ! b) = nid (h ! b)"
  by (auto simp: unlink_def Let_def split: option.splits)

lemma unlink_other:
  assumes "nprev (h ! e) = Some p" "b \<noteq> p" "nnext (h ! e) \<noteq> Some b"
  shows "unlink e h ! b = h ! b"
  using assms by (auto simp: unlink_def Let_def split: option.splits)

text \<open>The node at the beginning of \<open>ws\<close>, if any, follows \<open>e\<close>.\<close>

lemma dll_next: "dll h e ws \<Longrightarrow> nnext (h ! e) = (case ws of [] \<Rightarrow> None | n # _ \<Rightarrow> Some n)"
  by (cases ws) simp_all

lemma unlink_nodes:
  assumes "dll h a (us @ e # ws)" "inStore h (a # us @ e # ws)"
  shows "\<And>b. b \<notin> set (a # us @ ws) \<Longrightarrow> unlink e h ! b = h ! b"
    and "dll (unlink e h) a (us @ ws)"
proof -
  let ?p = "last (a # us)"
  have p: "?p \<in> set (a # us)" by (rule last_in_set) simp
  have d: "dll (setNext ?p None h) a us" "nnext (h ! ?p) = Some e" "nprev (h ! e) = Some ?p" "dll h e ws"
    using dll_append[OF assms(2)] assms(1) by auto
  note n = dll_next[OF d(4)]
  show "unlink e h ! b = h ! b" if "b \<notin> set (a # us @ ws)" for b
  proof (rule unlink_other[OF d(3)])
    show "b \<noteq> ?p" using p that by (auto simp del: last.simps)
    show "nnext (h ! e) \<noteq> Some b" using that n by (cases ws) auto
  qed
  have st: "inStore h (a # us @ ws)" using assms(2) by (auto simp: inStore_def)
  show "dll (unlink e h) a (us @ ws)"
  proof (cases ws)
    case Nil
    then have "unlink e h = setNext ?p None h" using n d(3) by (simp add: unlink_def)
    then show ?thesis using d(1) Nil by simp
  next
    case (Cons w ws')
    then have u: "unlink e h = setPrev w (Some ?p) (setNext ?p (Some w) h)" using n d(3) by (simp add: unlink_def Let_def)
    have w: "w \<notin> set (a # us)" "w < length h" "?p < length h" "w \<notin> set ws'" "?p \<noteq> w" "\<And>b. b \<in> set ws' \<Longrightarrow> b \<noteq> ?p"
      using assms(2) p unfolding Cons inStore_def by auto
    have "inStore (unlink e h) (a # us @ w # ws')" using st by (simp add: inStore_def Cons)
    note app = dll_append[OF this]
    have "dll (setNext ?p None (unlink e h)) a us = dll (setNext ?p None h) a us"
      by (rule dll_cong) (use w in \<open>auto simp: u simp del: last.simps\<close>)
    moreover have "dll (unlink e h) w ws' = dll h w ws'"
      by (rule dll_cong) (use w in \<open>auto simp: u simp del: last.simps\<close>)
    ultimately show ?thesis unfolding Cons app using d(1,4) w unfolding Cons by (simp add: u del: last.simps)
  qed
qed

lemma node_same: "nnext n = p \<Longrightarrow> n\<lparr>nnext := p\<rparr> = n" "nprev n = p \<Longrightarrow> n\<lparr>nprev := p\<rparr> = n"
  by auto

lemma relink_unlink:
  assumes "dll h a (us @ e # ws)" "inStore h (a # us @ e # ws)"
  shows "relink e (unlink e h) = h"
proof -
  let ?p = "last (a # us)"
  have p: "?p \<in> set (a # us)" by (rule last_in_set) simp
  have d: "nnext (h ! ?p) = Some e" "nprev (h ! e) = Some ?p" "dll h e ws"
    using dll_append[OF assms(2)] assms(1) by auto
  have e: "unlink e h ! e = h ! e" by (rule unlink_nodes(1)[OF assms]) (use assms(2) in \<open>auto simp: inStore_def\<close>)
  note n = dll_next[OF d(3)]
  have pe: "?p \<noteq> e" using assms(2) p by (auto simp: inStore_def simp del: last.simps)
  show ?thesis
  proof (rule nth_equalityI)
    show "length (relink e (unlink e h)) = length h" by (simp add: relink_def Let_def split: option.splits)
    fix b
    assume "b < length (relink e (unlink e h))"
    then have b: "b < length h" by (simp add: relink_def Let_def split: option.splits)
    show "relink e (unlink e h) ! b = h ! b"
    proof (cases ws)
      case Nil
      then show ?thesis using d n b e pe by (auto simp: relink_def unlink_def Let_def node_same simp del: last.simps)
    next
      case (Cons w ws')
      then have "?p \<noteq> w" "nprev (h ! w) = Some e" using assms(2) p d(3) by (auto simp: inStore_def simp del: last.simps)
      then show ?thesis using d n b e pe Cons by (auto simp: relink_def unlink_def Let_def node_same simp del: last.simps)
    qed
  qed
qed

section \<open>Lifting an operation out of the list\<close>

lemma lift_unlink:
  assumes "nprev (h ! e) = Some p" "nnext (h ! e) = Some n" "p \<noteq> e" "n \<noteq> e" "nmatch (h ! e) = Some r"
    "nprev (unlink e h ! r) = Some mp" "mp \<noteq> r"
  shows "lift e h = Inr (unlink r (unlink e h))"
proof -
  have u: "unlink e h = setPrev n (Some p) (setNext p (Some n) h)" using assms(1,2) by (simp add: unlink_def Let_def)
  have f: "nnext (setNext p (Some n) h ! e) = Some n" "nprev (setNext p (Some n) h ! e) = Some p"
    "nmatch (setPrev n (Some p) (setNext p (Some n) h) ! e) = Some r"
    using assms by simp_all
  have "lift e h = bindR (deref (nprev (unlink e h ! r))) (\<lambda>mp. let h = setNext mp (nnext (unlink e h ! r)) (unlink e h) in
     case nnext (h ! r) of None \<Rightarrow> Inr h | Some mn \<Rightarrow> Inr (setPrev mn (nprev (h ! r)) h))"
    by (simp only: lift_def assms(1,2) deref_Some bindR_simps Let_def f u)
  also have "\<dots> = Inr (unlink r (unlink e h))"
    using assms(6,7) by (simp add: deref_def unlink_def[of r] Let_def split: option.split)
  finally show ?thesis .
qed

lemma unlift_relink:
  assumes "nmatch (h ! e) = Some r" "nprev (h ! r) = Some mp" "mp \<noteq> r"
    "nprev (relink r h ! e) = Some p" "nnext (relink r h ! e) = Some n" "p \<noteq> e"
  shows "unlift e h = Inr (relink e (relink r h))"
proof -
  have rel: "relink r h = (case nnext (setNext mp (Some r) h ! r) of
      None \<Rightarrow> setNext mp (Some r) h | Some mn \<Rightarrow> setPrev mn (Some r) (setNext mp (Some r) h))"
    using assms(2,3) by (simp add: relink_def split: option.split)
  have "unlift e h = bindR (deref (nprev (relink r h ! e))) (\<lambda>p. let h = setNext p (Some e) (relink r h) in
     bindR (deref (nnext (h ! e))) (\<lambda>n. Inr (setPrev n (Some e) h)))"
    by (simp only: unlift_def assms(1,2) deref_Some bindR_simps Let_def rel)
  also have "\<dots> = Inr (relink e (relink r h))"
    using assms(4-6) by (simp add: deref_def relink_def[of e] Let_def)
  finally show ?thesis .
qed

text \<open>\<open>lift\<close> takes the call and the return out of the list, and \<open>unlift\<close> restores the store exactly.\<close>

lemma lift_ok:
  assumes d: "dll h a (us @ e # vs @ r # ws)" and st: "inStore h (a # us @ e # vs @ r # ws)" and m: "nmatch (h ! e) = Some r"
  obtains h' where "lift e h = Inr h'" "dll h' a (us @ vs @ ws)" "unlift e h' = Inr h" "length h' = length h"
    "\<And>b. nvalue (h' ! b) = nvalue (h ! b)" "\<And>b. nmatch (h' ! b) = nmatch (h ! b)" "\<And>b. nid (h' ! b) = nid (h ! b)"
proof -
  let ?h1 = "unlink e h" and ?h2 = "unlink r (unlink e h)"
  let ?p = "last (a # us)" and ?mp = "last (a # us @ vs)"
  note d1 = unlink_nodes[OF d st]
  have st1: "inStore ?h1 (a # (us @ vs) @ r # ws)" using st by (auto simp: inStore_def)
  have dd1: "dll ?h1 a ((us @ vs) @ r # ws)" using d1(2) by simp
  note d2 = unlink_nodes[OF dd1 st1]
  have p: "?p \<in> set (a # us)" "?mp \<in> set (a # us @ vs)" by (rule last_in_set, simp)+
  have e: "nprev (h ! e) = Some ?p" "dll h e (vs @ r # ws)" using dll_append[OF st] d by auto
  then obtain n where n: "nnext (h ! e) = Some n" "n \<in> set (vs @ [r])" by (cases vs) auto
  have r: "nprev (?h1 ! r) = Some ?mp" using dll_append[OF st1] dd1 by auto
  have ne: "?p \<noteq> e" "?mp \<noteq> r" "n \<noteq> e" using p n(2) st by (auto simp: inStore_def simp del: last.simps)
  have he: "?h1 ! e = h ! e" by (rule d1(1)) (use st in \<open>auto simp: inStore_def\<close>)
  have hr: "?h2 ! r = ?h1 ! r" by (rule d2(1)) (use st in \<open>auto simp: inStore_def\<close>)
  have rest: "relink r ?h2 = ?h1" "relink e ?h1 = h" using relink_unlink[OF dd1 st1] relink_unlink[OF d st] by auto
  have "lift e h = Inr ?h2" by (rule lift_unlink[OF e(1) n(1) ne(1,3) m r ne(2)])
  moreover have "unlift e ?h2 = Inr (relink e (relink r ?h2))"
    by (rule unlift_relink[where mp = "?mp" and p = "?p" and n = n]) (use m r hr he e(1) n(1) ne in \<open>simp_all add: rest del: last.simps\<close>)
  ultimately show thesis using that[of ?h2] d2(2) by (simp add: rest)
qed

section \<open>Building the list\<close>

text \<open>The map from operations to the addresses of their returns, as it is when the entries \<open>es\<close> have been
  added (from the last one to the first).\<close>

fun retAddr :: "'v entry list \<Rightarrow> nat \<rightharpoonup> nat" where
  "retAddr [] = Map.empty"
| "retAddr (e # es) = (if kind e = returnEntry then (retAddr es)(eid e \<mapsto> length es) else retAddr es)"

text \<open>The node at address \<open>a\<close> holds the entry that has \<open>a\<close> entries after it.\<close>

definition holds :: "'v heap \<Rightarrow> 'v entry list \<Rightarrow> nat \<Rightarrow> bool" where
  "holds h es a \<longleftrightarrow> (let e = rev es ! a in nvalue (h ! a) = Some (evalue e) \<and> nid (h ! a) = eid e \<and>
     nmatch (h ! a) = (if kind e = returnEntry then None else retAddr (drop (length es - a) es) (eid e)))"

definition built :: "'v entry list \<Rightarrow> 'v heap \<Rightarrow> nat option \<Rightarrow> bool" where
  "built es h root \<longleftrightarrow> length h = length es \<and> (\<forall>a < length es. holds h es a) \<and>
     (case es of [] \<Rightarrow> root = None
      | _ # es' \<Rightarrow> root = Some (length es') \<and> dll h (length es') (rev [0..<length es']) \<and> nprev (h ! length es') = None)"

lemma insertBefore_fields [simp]:
  "length (insertBefore n mark h) = length h"
  "nvalue (insertBefore n mark h ! b) = nvalue (h ! b)" "nid (insertBefore n mark h ! b) = nid (h ! b)"
  "nmatch (insertBefore n mark h ! b) = nmatch (h ! b)"
  by (auto simp: insertBefore_def Let_def split: option.splits)

lemma insertBefore_front:
  assumes "nprev (h ! r) = None" "r < length h" "dll h r xs" "set xs \<subseteq> {..<length h}" "r \<notin> set xs"
    and "nnext node = None" "nprev node = None"
  shows "dll (insertBefore (length h) (Some r) (h @ [node])) (length h) (r # xs)"
    "nprev (insertBefore (length h) (Some r) (h @ [node]) ! length h) = None"
proof -
  let ?h = "insertBefore (length h) (Some r) (h @ [node])"
  have i: "?h = setNext (length h) (Some r) (setPrev r (Some (length h)) (h @ [node]))"
    using assms(1,2) by (simp add: insertBefore_def Let_def nth_append)
  have "dll ?h r xs = dll h r xs"
    by (rule dll_cong) (use assms(2,4,5) in \<open>auto simp: i nth_append\<close>)
  then show "dll ?h (length h) (r # xs)" "nprev (?h ! length h) = None"
    using assms by (simp_all add: i nth_append)
qed

lemma linkEntry_built:
  assumes "built es h root" "linkEntry (h, root, retAddr es) e = (h', root', m')"
  shows "built (e # es) h' root' \<and> m' = retAddr (e # es)"
proof -
  let ?node = "\<lparr>nvalue = Some (evalue e), nmatch = (if kind e = returnEntry then None else retAddr es (eid e)),
    nid = eid e, nnext = None, nprev = None\<rparr>"
  have len: "length h = length es" using assms(1) by (simp add: built_def)
  have h': "h' = insertBefore (length h) root (h @ [?node])" "root' = Some (length h)" "m' = retAddr (e # es)"
    using assms(2) len by (auto simp: linkEntry_def Let_def split: if_splits)
  have "holds h' (e # es) a" if a: "a < length (e # es)" for a
  proof (cases "a = length es")
    case True
    then show ?thesis using len by (simp add: holds_def h'(1) nth_append)
  next
    case False
    then have "a < length es" using a by simp
    moreover from this have "holds h es a" using assms(1) by (simp add: built_def)
    moreover from \<open>a < length es\<close> have "Suc (length es) - a = Suc (length es - a)" by simp
    ultimately show ?thesis using len by (simp add: holds_def h'(1) nth_append Let_def split: if_splits)
  qed
  moreover have "dll h' (length es) (rev [0..<length es]) \<and> nprev (h' ! length es) = None"
  proof (cases es)
    case Nil
    then have "root = None" using assms(1) by (simp add: built_def)
    then show ?thesis using len Nil by (simp add: h'(1) insertBefore_def nth_append)
  next
    case (Cons e' es')
    then have r: "root = Some (length es')" "dll h (length es') (rev [0..<length es'])" "nprev (h ! length es') = None"
      using assms(1) by (auto simp: built_def)
    have rev: "rev [0..<length es] = length es' # rev [0..<length es']" by (simp add: Cons)
    have st: "length es' < length h" "set (rev [0..<length es']) \<subseteq> {..<length h}" "length es' \<notin> set (rev [0..<length es'])"
      using len Cons by auto
    show ?thesis
      using insertBefore_front[OF r(3) st(1) r(2) st(2,3), of ?node] unfolding h'(1) r(1) rev len by simp
  qed
  ultimately show ?thesis using h' len by (simp add: built_def)
qed

lemma makeLinkedEntries_built: "case makeLinkedEntries es of (h, root) \<Rightarrow> built es h root"
proof -
  have "\<exists>h root. foldl linkEntry ([], None, Map.empty) (rev es) = (h, root, retAddr es) \<and> built es h root"
  proof (induction es)
    case Nil
    then show ?case by (simp add: built_def)
  next
    case (Cons e es)
    then obtain h root where IH: "foldl linkEntry ([], None, Map.empty) (rev es) = (h, root, retAddr es)" "built es h root" by blast
    obtain h' root' m' where l: "linkEntry (h, root, retAddr es) e = (h', root', m')" by (metis prod_cases3)
    show ?case using linkEntry_built[OF IH(2) l] IH(1) l by (auto simp del: retAddr.simps)
  qed
  then show ?thesis by (auto simp: makeLinkedEntries_def)
qed

lemma lengthLoop_dll: "dll h a xs \<Longrightarrow> lengthLoop h (nnext (h ! a)) l = Some (l + length xs)"
proof (induction xs arbitrary: a l)
  case Nil
  then show ?case by (simp add: lengthLoop.simps)
next
  case (Cons b xs)
  then show ?case by (simp add: lengthLoop.simps[of h "Some b"])
qed

lemma listLength_built:
  assumes "built es h root"
  shows "listLength h root = Some (length es)"
proof (cases es)
  case Nil
  then show ?thesis using assms by (simp add: built_def listLength_def lengthLoop.simps)
next
  case (Cons e es')
  then have "dll h (length es') (rev [0..<length es'])" "root = Some (length es')" using assms by (simp_all add: built_def)
  then show ?thesis
    using lengthLoop_dll[of h "length es'"] Cons by (simp add: listLength_def lengthLoop.simps[of h "Some (length es')"])
qed

end
