(* ===== verification/Lin_Check.thy ===== *)
theory Lin_Check
  imports Lin_Bitset Lin_List
begin

text \<open>
  The search of \<open>linearizability.go\<close> (\<open>cacheContains\<close>, \<open>checkSingle\<close>) and its drivers
  (\<open>CheckOperations\<close>, \<open>CheckEvents\<close> and their variants with a timeout).

  One turn of the loop of \<open>checkSingle\<close> is the function \<open>checkStep\<close> on a record of its variables; the
  loop itself is a partial function, so that not returning is the value \<open>None\<close>. \<open>kill k\<close> is what
  reading the shared flag gives in turn \<open>k\<close>.

  The drivers start a goroutine per partition and collect the results as they arrive. The schedule is
  an argument: \<open>Some i\<close> is the result of partition \<open>i\<close>, \<open>None\<close> the timer. The flag \<open>kill\<close> is only set
  once the collecting loop has left, so the goroutines whose results are collected do not see it.
\<close>

section \<open>The cache\<close>

record 's cacheEntry =
  linearized :: bitset
  cacheState :: 's \<comment> \<open>\<open>state\<close>\<close>

type_synonym 's cache = "64 word \<Rightarrow> 's cacheEntry list"

definition modelEqual :: "('s, 'v) Model \<Rightarrow> 's \<Rightarrow> 's \<Rightarrow> bool res" where
  "modelEqual model s t = (case Equal model of None \<Rightarrow> Inl NilDereference | Some eq \<Rightarrow> Inr (eq s t))"

fun scanBucket :: "('s, 'v) Model \<Rightarrow> 's cacheEntry list \<Rightarrow> 's cacheEntry \<Rightarrow> bool res" where
  "scanBucket model [] entry = Inr False"
| "scanBucket model (elem # es) entry =
     (if equals (linearized entry) (linearized elem) then
        bindR (modelEqual model (cacheState entry) (cacheState elem)) (\<lambda>eq.
          if eq then Inr True else scanBucket model es entry)
      else scanBucket model es entry)"

definition cacheContains :: "('s, 'v) Model \<Rightarrow> 's cache \<Rightarrow> 's cacheEntry \<Rightarrow> bool res" where
  "cacheContains model cache entry = scanBucket model (cache (hash (linearized entry))) entry"

section \<open>The search\<close>

record 's callsEntry =
  callEntryAddr :: nat \<comment> \<open>\<open>entry\<close>\<close>
  callState :: 's \<comment> \<open>\<open>state\<close>\<close>

record ('s, 'v) Search =
  heap :: "'v heap"
  lin :: bitset \<comment> \<open>\<open>linearized\<close>\<close>
  cache :: "'s cache"
  stack :: "'s callsEntry list" \<comment> \<open>\<open>calls\<close>\<close>
  cur :: 's \<comment> \<open>\<open>state\<close>\<close>
  pos :: "nat option" \<comment> \<open>\<open>entry\<close>\<close>
  turn :: nat

definition callStep :: "('s, 'v) Model \<Rightarrow> 's \<Rightarrow> 'v option \<Rightarrow> 'v option \<Rightarrow> (bool \<times> 's) res" where
  "callStep model s i r =
     (case (i, r) of
        (Some i, Some r) \<Rightarrow> Step model s i r
      | _ \<Rightarrow> Inl (Panicked ''interface conversion: interface is nil''))"

text \<open>Lines 181--199: the entry is a call.\<close>

definition tryCall :: "('s, 'v) Model \<Rightarrow> nat \<Rightarrow> nat \<Rightarrow> nat \<Rightarrow> ('s, 'v) Search \<Rightarrow> ('s, 'v) Search res" where
  "tryCall model headEntry entry matching S =
     (let h = heap S in
      bindR (callStep model (cur S) (nvalue (h ! entry)) (nvalue (h ! matching))) (\<lambda>(ok, newState).
        if ok then
          bindR (bset (clone (lin S)) (nid (h ! entry))) (\<lambda>newLinearized.
            let newCacheEntry = \<lparr>linearized = newLinearized, cacheState = newState\<rparr> in
            bindR (cacheContains model (cache S) newCacheEntry) (\<lambda>found.
              if \<not> found then
                (let k = hash newLinearized;
                     S = S\<lparr>cache := (cache S)(k := cache S k @ [newCacheEntry])\<rparr>;
                     S = S\<lparr>stack := stack S @ [\<lparr>callEntryAddr = entry, callState = cur S\<rparr>]\<rparr>;
                     S = S\<lparr>cur := newState\<rparr>
                 in bindR (bset (lin S) (nid (h ! entry))) (\<lambda>b.
                    bindR (lift entry h) (\<lambda>h.
                    Inr (S\<lparr>lin := b, heap := h, pos := nnext (h ! headEntry)\<rparr>))))
              else Inr (S\<lparr>pos := nnext (h ! entry)\<rparr>)))
        else Inr (S\<lparr>pos := nnext (h ! entry)\<rparr>)))"

text \<open>Lines 204--210: the entry is a return and there is a call to take back.\<close>

definition backtrack :: "('s, 'v) Search \<Rightarrow> ('s, 'v) Search res" where
  "backtrack S =
     bindR (idx (stack S) (len (stack S) - 1)) (\<lambda>callsTop.
       let entry = callEntryAddr callsTop;
           S = S\<lparr>cur := callState callsTop\<rparr>
       in bindR (bclear (lin S) (nid (heap S ! entry))) (\<lambda>b.
          bindR (slice_to (stack S) (len (stack S) - 1)) (\<lambda>cs.
          bindR (unlift entry (heap S)) (\<lambda>h.
          Inr (S\<lparr>lin := b, stack := cs, heap := h, pos := nnext (h ! entry)\<rparr>)))))"

text \<open>Lines 176--213: \<open>Inl b\<close> returns \<open>b\<close>, \<open>Inr S\<close> goes on.\<close>

definition checkStep ::
  "('s, 'v) Model \<Rightarrow> (nat \<Rightarrow> bool) \<Rightarrow> nat \<Rightarrow> ('s, 'v) Search \<Rightarrow> (bool + ('s, 'v) Search) res" where
  "checkStep model kill headEntry S =
     (if nnext (heap S ! headEntry) \<noteq> None then
        (if kill (turn S) then Inr (Inl False)
         else
           bindR (deref (pos S)) (\<lambda>entry.
             let S = S\<lparr>turn := turn S + 1\<rparr> in
             case nmatch (heap S ! entry) of
               Some matching \<Rightarrow> bindR (tryCall model headEntry entry matching S) (\<lambda>S. Inr (Inr S))
             | None \<Rightarrow>
                 if len (stack S) = 0 then Inr (Inl False)
                 else bindR (backtrack S) (\<lambda>S. Inr (Inr S))))
      else Inr (Inl True))"

partial_function (option) checkLoop ::
  "('s, 'v) Model \<Rightarrow> (nat \<Rightarrow> bool) \<Rightarrow> nat \<Rightarrow> ('s, 'v) Search \<Rightarrow> bool res option" where
  "checkLoop model kill headEntry S =
     (case checkStep model kill headEntry S of
        Inl e \<Rightarrow> Some (Inl e)
      | Inr (Inl b) \<Rightarrow> Some (Inr b)
      | Inr (Inr S) \<Rightarrow> checkLoop model kill headEntry S)"

declare checkLoop.simps [code]

definition checkSingle ::
  "('s, 'v) Model \<Rightarrow> 'v heap \<Rightarrow> nat option \<Rightarrow> (nat \<Rightarrow> bool) \<Rightarrow> bool res option" where
  "checkSingle model h subhistory kill =
     (case listLength h subhistory of
        None \<Rightarrow> None
      | Some l \<Rightarrow>
          (let n = l div 2;
               headEntry = length h;
               h = h @ [\<lparr>nvalue = None, nmatch = None, nid = 2 ^ 64 - 1, nnext = None, nprev = None\<rparr>];
               h = insertBefore headEntry subhistory h
           in checkLoop model kill headEntry
                \<lparr>heap = h, lin = newBitset n, cache = (\<lambda>_. []), stack = [], cur = Init model,
                 pos = subhistory, turn = 0\<rparr>))"

section \<open>The drivers\<close>

fun collect :: "bool res option list \<Rightarrow> bool \<Rightarrow> nat option list \<Rightarrow> nat \<Rightarrow> bool \<Rightarrow> bool res option" where
  "collect runs timer [] cnt ok = None"
| "collect runs timer (None # sched) cnt ok =
     (if timer then Some (Inr ok) else collect runs timer sched cnt ok)"
| "collect runs timer (Some i # sched) cnt ok =
     (if i < length runs then
        (case runs ! i of
           None \<Rightarrow> collect runs timer sched cnt ok
         | Some (Inl e) \<Rightarrow> Some (Inl e)
         | Some (Inr result) \<Rightarrow>
             (let ok = (ok \<and> result) in
              if \<not> ok then Some (Inr ok)
              else
                (let cnt = cnt + 1 in
                 if cnt \<ge> length runs then Some (Inr ok) else collect runs timer sched cnt ok)))
      else collect runs timer sched cnt ok)"

definition CheckOperationsTimeout ::
  "('v entry list \<Rightarrow> 'v entry list) \<Rightarrow> nat option list \<Rightarrow> ('s, 'v) Model \<Rightarrow> 'v Operation list \<Rightarrow> int \<Rightarrow> bool res option" where
  "CheckOperationsTimeout srt sched model history timeout =
     (let model = fillDefault model in
      case callFn (Partition model) history of
        Inl e \<Rightarrow> Some (Inl e)
      | Inr partitions \<Rightarrow>
          (let runs = map (\<lambda>subhistory.
                 let (h, l) = makeLinkedEntries (makeEntries srt subhistory) in checkSingle model h l (\<lambda>_. False)) partitions
           in collect runs (timeout > 0) sched 0 True))"

definition CheckOperations ::
  "('v entry list \<Rightarrow> 'v entry list) \<Rightarrow> nat option list \<Rightarrow> ('s, 'v) Model \<Rightarrow> 'v Operation list \<Rightarrow> bool res option" where
  "CheckOperations srt sched model history = CheckOperationsTimeout srt sched model history 0"

definition CheckEventsTimeout ::
  "nat option list \<Rightarrow> ('s, 'v) Model \<Rightarrow> 'v Event list \<Rightarrow> int \<Rightarrow> bool res option" where
  "CheckEventsTimeout sched model history timeout =
     (let model = fillDefault model in
      case callFn (PartitionEvent model) history of
        Inl e \<Rightarrow> Some (Inl e)
      | Inr partitions \<Rightarrow>
          (let runs = map (\<lambda>subhistory.
                 let (h, l) = makeLinkedEntries (convertEntries (renumber subhistory)) in checkSingle model h l (\<lambda>_. False)) partitions
           in collect runs (timeout > 0) sched 0 True))"

definition CheckEvents :: "nat option list \<Rightarrow> ('s, 'v) Model \<Rightarrow> 'v Event list \<Rightarrow> bool res option" where
  "CheckEvents sched model history = CheckEventsTimeout sched model history 0"

end
