(* ===== verification/Lin_Search.thy ===== *)
theory Lin_Search
  imports Lin_Check
begin

text \<open>
  The search explores exactly the linearizations: \<open>linA\<close> says which lists of entries (by their
  addresses) can be linearized from a state, one operation after the other; the locale
  \<open>search_model\<close> is what the search relies on from the model, and its main lemma follows the loop of
  \<open>checkSingle\<close> through lifting, caching and backtracking. It shows that the loop ends, that it never
  follows a nil pointer, and that it returns whether a linearization exists.
\<close>

section \<open>Linearizations of a list of entries\<close>

text \<open>\<open>h\<close> only serves to look up the fields that the search does not change.\<close>

definition isCall :: "'v heap \<Rightarrow> nat \<Rightarrow> bool" where
  "isCall h a \<longleftrightarrow> nmatch (h ! a) \<noteq> None"

definition without :: "'v heap \<Rightarrow> nat \<Rightarrow> nat list \<Rightarrow> nat list" where
  "without h i xs = filter (\<lambda>b. nid (h ! b) \<noteq> i) xs"

inductive linA :: "('s \<Rightarrow> 'v \<Rightarrow> 'v \<Rightarrow> bool \<times> 's) \<Rightarrow> 'v heap \<Rightarrow> nat list \<Rightarrow> 's \<Rightarrow> bool"
  for step :: "'s \<Rightarrow> 'v \<Rightarrow> 'v \<Rightarrow> bool \<times> 's" and h :: "'v heap" where
  linA_Nil: "linA step h [] s"
| linA_Call: "xs = us @ a # ws \<Longrightarrow> \<forall>b \<in> set us. isCall h b \<Longrightarrow> nmatch (h ! a) = Some r \<Longrightarrow>
    step s (the (nvalue (h ! a))) (the (nvalue (h ! r))) = (True, s') \<Longrightarrow> linA step h (without h (nid (h ! a)) xs) s' \<Longrightarrow>
    linA step h xs s"

text \<open>Every call is followed by its return, and operations have different numbers.\<close>

definition wfList :: "'v heap \<Rightarrow> nat list \<Rightarrow> bool" where
  "wfList h xs \<longleftrightarrow> distinct xs \<and>
     (\<forall>a \<in> set xs. \<forall>r. nmatch (h ! a) = Some r \<longrightarrow>
        nid (h ! r) = nid (h ! a) \<and> nmatch (h ! r) = None \<and> (\<exists>us vs ws. xs = us @ a # vs @ r # ws)) \<and>
     (\<forall>a \<in> set xs. \<forall>b \<in> set xs. nid (h ! a) = nid (h ! b) \<longrightarrow>
        a = b \<or> nmatch (h ! a) = Some b \<or> nmatch (h ! b) = Some a)"

definition sameFields :: "'v heap \<Rightarrow> 'v heap \<Rightarrow> bool" where
  "sameFields h0 h \<longleftrightarrow> length h = length h0 \<and>
     (\<forall>b. nvalue (h ! b) = nvalue (h0 ! b) \<and> nmatch (h ! b) = nmatch (h0 ! b) \<and> nid (h ! b) = nid (h0 ! b))"

lemma wfList_filter:
  assumes "wfList h xs"
  shows "wfList h (filter (\<lambda>b. P (nid (h ! b))) xs)"
proof -
  let ?f = "filter (\<lambda>b. P (nid (h ! b)))"
  have "\<exists>us vs ws. ?f xs = us @ a # vs @ r # ws" if a: "a \<in> set (?f xs)" and m: "nmatch (h ! a) = Some r" for a r
  proof -
    have "a \<in> set xs" "P (nid (h ! a))" using a by auto
    then obtain us vs ws where "xs = us @ a # vs @ r # ws" "nid (h ! r) = nid (h ! a)"
      using assms m unfolding wfList_def by blast
    then have "?f xs = ?f us @ a # ?f vs @ r # ?f ws" using \<open>P (nid (h ! a))\<close> by simp
    then show ?thesis by blast
  qed
  moreover have "distinct (?f xs)" using assms by (simp add: wfList_def)
  ultimately show ?thesis using assms unfolding wfList_def by (auto simp del: filter.simps)
qed

lemma wfList_without:
  assumes "wfList h xs" "xs = us @ a # vs @ r # ws" "nmatch (h ! a) = Some r"
  shows "without h (nid (h ! a)) xs = us @ vs @ ws"
proof -
  have d: "distinct xs" "nid (h ! r) = nid (h ! a)" "nmatch (h ! r) = None"
    using assms unfolding wfList_def by auto
  have "nid (h ! b) \<noteq> nid (h ! a)" if b: "b \<in> set (us @ vs @ ws)" for b
  proof
    assume eq: "nid (h ! b) = nid (h ! a)"
    have "b \<in> set xs" "a \<in> set xs" "r \<in> set xs" using b assms(2) by auto
    then have "a = b \<or> nmatch (h ! a) = Some b \<or> nmatch (h ! b) = Some a" "r = b \<or> nmatch (h ! r) = Some b \<or> nmatch (h ! b) = Some r"
      using assms(1) eq d(2) unfolding wfList_def by metis+
    moreover have "b \<noteq> a" "b \<noteq> r" "a \<noteq> r" using d(1) b assms(2) by auto
    ultimately show False using assms(3) d(3) by auto
  qed
  then have "filter (\<lambda>b. nid (h ! b) \<noteq> nid (h ! a)) (us @ vs @ ws) = us @ vs @ ws" by (rule filter_True[rule_format])
  then show ?thesis using d(2) assms(2) by (simp add: without_def)
qed

lemma wfList_call_pos:
  assumes "wfList h xs" "xs = zs @ a # ys" "nmatch (h ! a) = Some r"
  obtains vs ws where "ys = vs @ r # ws"
proof -
  obtain us vs ws where x: "xs = us @ a # vs @ r # ws" using assms unfolding wfList_def by (metis in_set_conv_decomp)
  have "distinct xs" using assms(1) by (simp add: wfList_def)
  then have "zs = us \<and> ys = vs @ r # ws" using x assms(2) by (metis append_Cons_eq_iff distinct_append not_distinct_conv_prefix distinct.simps(2))
  then show thesis using that by blast
qed

section \<open>The cache\<close>

definition cached :: "'s cache \<Rightarrow> (bitset \<times> 's) set" where
  "cached K = {(b, t). \<exists>k. \<exists>e \<in> set (K k). linearized e = b \<and> cacheState e = t}"

lemma cached_insert:
  "cached (K(k := K k @ [\<lparr>linearized = b, cacheState = t\<rparr>])) = insert (b, t) (cached K)"
  unfolding cached_def by (auto split: if_splits)

lemma scanBucket_found:
  assumes "Equal model = Some eq" "scanBucket model es entry = Inr r"
  shows "r \<longleftrightarrow> (\<exists>e \<in> set es. linearized e = linearized entry \<and> eq (cacheState entry) (cacheState e))"
  using assms by (induction es) (auto simp: modelEqual_def split: if_splits)

lemma scanBucket_total: "Equal model = Some eq \<Longrightarrow> \<exists>r. scanBucket model es entry = Inr r"
  by (induction es) (auto simp: modelEqual_def)

section \<open>Turns of the loop\<close>

definition goes :: "('s, 'v) Model \<Rightarrow> nat \<Rightarrow> ('s, 'v) Search \<Rightarrow> ('s, 'v) Search \<Rightarrow> bool" where
  "goes model head S S' \<longleftrightarrow> checkStep model (\<lambda>_. False) head S = Inr (Inr S')"

lemma Search_update:
  "S\<lparr>cache := K, pos := p, turn := n\<rparr> =
     \<lparr>heap = heap S, lin = lin S, cache = K, stack = stack S, cur = cur S, pos = p, turn = n\<rparr>"
  by simp

lemma checkLoop_goes:
  assumes "(goes model head)\<^sup>*\<^sup>* S S'"
  shows "checkLoop model (\<lambda>_. False) head S = checkLoop model (\<lambda>_. False) head S'"
  using assms
proof (induction rule: converse_rtranclp_induct)
  case (step S T)
  then show ?case by (simp add: goes_def checkLoop.simps[of model "\<lambda>_. False" head S])
qed simp

definition goodPairs :: "('v \<Rightarrow> 'v \<Rightarrow> bool) \<Rightarrow> 'v heap \<Rightarrow> nat list \<Rightarrow> bool" where
  "goodPairs good h xs \<longleftrightarrow> (\<forall>a \<in> set xs. \<forall>r. nmatch (h ! a) = Some r \<longrightarrow>
     (\<exists>i v. nvalue (h ! a) = Some i \<and> nvalue (h ! r) = Some v \<and> good i v))"

text \<open>A cached pair from which no linearization is possible, and a part of the list none of whose first
  calls leads to one.\<close>

definition deadEnd :: "('s \<Rightarrow> 'v \<Rightarrow> 'v \<Rightarrow> bool \<times> 's) \<Rightarrow> 'v heap \<Rightarrow> nat list \<Rightarrow> bitset \<times> 's \<Rightarrow> bool" where
  "deadEnd step h full p \<longleftrightarrow> \<not> linA step h (filter (\<lambda>a. nid (h ! a) \<notin> bits (fst p)) full) (snd p)"

definition leads :: "('s \<Rightarrow> 'v \<Rightarrow> 'v \<Rightarrow> bool \<times> 's) \<Rightarrow> 'v heap \<Rightarrow> nat list \<Rightarrow> 's \<Rightarrow> nat \<Rightarrow> bool" where
  "leads step h xs s a \<longleftrightarrow> (\<exists>r s'. nmatch (h ! a) = Some r \<and>
     step s (the (nvalue (h ! a))) (the (nvalue (h ! r))) = (True, s') \<and> linA step h (without h (nid (h ! a)) xs) s')"

definition noneLeads :: "('s \<Rightarrow> 'v \<Rightarrow> 'v \<Rightarrow> bool \<times> 's) \<Rightarrow> 'v heap \<Rightarrow> nat list \<Rightarrow> nat list \<Rightarrow> 's \<Rightarrow> bool" where
  "noneLeads step h xs ys s \<longleftrightarrow> (\<forall>a \<in> set (takeWhile (isCall h) ys). \<not> leads step h xs s a)"

lemma linA_leads: "xs \<noteq> [] \<Longrightarrow> linA step h xs s \<longleftrightarrow> \<not> noneLeads step h xs xs s"
proof
  assume ne: "xs \<noteq> []" and l: "linA step h xs s"
  from l show "\<not> noneLeads step h xs xs s"
  proof (cases rule: linA.cases)
    case linA_Nil
    then show ?thesis using ne by simp
  next
    case (linA_Call us a ws r s')
    then have "isCall h a" by (simp add: isCall_def)
    then have "a \<in> set (takeWhile (isCall h) xs)" using linA_Call(1,2) by simp
    moreover have "leads step h xs s a" using linA_Call(3-5) unfolding leads_def by blast
    ultimately show ?thesis unfolding noneLeads_def by blast
  qed
next
  assume "\<not> noneLeads step h xs xs s"
  then obtain a where a: "a \<in> set (takeWhile (isCall h) xs)" "leads step h xs s a" unfolding noneLeads_def by blast
  then obtain us ws where t: "takeWhile (isCall h) xs = us @ a # ws" by (meson in_set_conv_decomp)
  have "xs = (us @ a # ws) @ dropWhile (isCall h) xs" unfolding t[symmetric] by simp
  then have "xs = us @ a # ws @ dropWhile (isCall h) xs" by simp
  moreover have "\<forall>b \<in> set us. isCall h b" using set_takeWhileD[of _ "isCall h" xs] by (simp add: t)
  ultimately show "linA step h xs s" using a(2) unfolding leads_def by (metis linA_Call)
qed

text \<open>What the checker relies on from a model: the pairs of values of the history can be stepped, and
  states that \<open>Equal\<close> identifies allow the same steps, into states that it identifies again.\<close>

locale search_model =
  fixes model :: "('s, 'v) Model"
    and step :: "'s \<Rightarrow> 'v \<Rightarrow> 'v \<Rightarrow> bool \<times> 's"
    and eq :: "'s \<Rightarrow> 's \<Rightarrow> bool"
    and good :: "'v \<Rightarrow> 'v \<Rightarrow> bool"
  assumes Step_ok: "good i v \<Longrightarrow> Step model s i v = Inr (step s i v)"
    and Equal_ok: "Equal model = Some eq"
    and eq_step: "good i v \<Longrightarrow> eq s t \<Longrightarrow> step s i v = (True, s') \<Longrightarrow> \<exists>t'. step t i v = (True, t') \<and> eq s' t'"
begin

lemma linA_eq:
  assumes "linA step h xs s" "goodPairs good h xs" "eq s t"
  shows "linA step h xs t"
  using assms
proof (induction arbitrary: t rule: linA.induct)
  case (linA_Nil s)
  then show ?case by (simp add: linA.linA_Nil)
next
  case (linA_Call xs us a ws r s s')
  obtain i v where iv: "nvalue (h ! a) = Some i" "nvalue (h ! r) = Some v" "good i v"
    using linA_Call.prems(1) linA_Call.hyps(1,3) unfolding goodPairs_def by (metis in_set_conv_decomp)
  then obtain t' where t': "step t i v = (True, t')" "eq s' t'" using eq_step linA_Call.prems(2) linA_Call.hyps(4) by fastforce
  have "goodPairs good h (without h (nid (h ! a)) xs)" using linA_Call.prems(1) by (auto simp: goodPairs_def without_def)
  then have "linA step h (without h (nid (h ! a)) xs) t'" using linA_Call.IH t'(2) by blast
  then show ?case using linA.linA_Call[OF linA_Call.hyps(1-3), of step t t'] iv t'(1) by simp
qed

lemma cacheContains_found:
  "\<exists>r. cacheContains model K e = Inr r \<and> (r \<longrightarrow> (\<exists>t. (linearized e, t) \<in> cached K \<and> eq (cacheState e) t))"
proof -
  obtain r where r: "scanBucket model (K (hash (linearized e))) e = Inr r" using scanBucket_total[OF Equal_ok] by blast
  have "\<exists>t. (linearized e, t) \<in> cached K \<and> eq (cacheState e) t" if "r"
    using scanBucket_found[OF Equal_ok r] that unfolding cached_def by blast
  then show ?thesis using r by (simp add: cacheContains_def)
qed

text \<open>A call that cannot be linearized next, or whose result is cached, is skipped.\<close>

lemma turn_skip:
  assumes "nnext (h ! head) \<noteq> None" "nmatch (h ! a) = Some r" "nvalue (h ! a) = Some i" "nvalue (h ! r) = Some v" "good i v"
    and "step s i v = (ok, s')"
    and "ok \<Longrightarrow> bset b (nid (h ! a)) = Inr b' \<and> cacheContains model K \<lparr>linearized = b', cacheState = s'\<rparr> = Inr True"
  shows "goes model head \<lparr>heap = h, lin = b, cache = K, stack = st, cur = s, pos = Some a, turn = n\<rparr>
     \<lparr>heap = h, lin = b, cache = K, stack = st, cur = s, pos = nnext (h ! a), turn = n + 1\<rparr>"
  using assms by (cases ok) (auto simp: goes_def checkStep_def tryCall_def callStep_def Step_ok Let_def)

text \<open>A call that can be linearized next is taken out of the list.\<close>

lemma turn_take:
  assumes "nnext (h ! head) \<noteq> None" "nmatch (h ! a) = Some r" "nvalue (h ! a) = Some i" "nvalue (h ! r) = Some v" "good i v"
    and "step s i v = (True, s')" "bset b (nid (h ! a)) = Inr b'"
    and "cacheContains model K \<lparr>linearized = b', cacheState = s'\<rparr> = Inr False" "lift a h = Inr h'"
  shows "goes model head \<lparr>heap = h, lin = b, cache = K, stack = st, cur = s, pos = Some a, turn = n\<rparr>
     \<lparr>heap = h', lin = b', cache = K(hash b' := K (hash b') @ [\<lparr>linearized = b', cacheState = s'\<rparr>]),
      stack = st @ [\<lparr>callEntryAddr = a, callState = s\<rparr>], cur = s', pos = nnext (h' ! head), turn = n + 1\<rparr>"
  using assms by (simp add: goes_def checkStep_def tryCall_def callStep_def Step_ok Let_def)

text \<open>At a return the last call is put back.\<close>

lemma turn_back:
  assumes "nnext (h' ! head) \<noteq> None" "nmatch (h' ! e) = None"
    and "bclear b' (nid (h' ! a)) = Inr b" "unlift a h' = Inr h"
  shows "goes model head \<lparr>heap = h', lin = b', cache = K, stack = st @ [\<lparr>callEntryAddr = a, callState = s\<rparr>], cur = s', pos = Some e, turn = n\<rparr>
     \<lparr>heap = h, lin = b, cache = K, stack = st, cur = s, pos = nnext (h ! a), turn = n + 1\<rparr>"
  using assms by (simp add: goes_def checkStep_def backtrack_def Let_def nth_append)

end

section \<open>The search\<close>

text \<open>What the search has achieved when it has looked at the part \<open>ys\<close> of the list: it has succeeded, or
  it has reached a return, with everything as before except for the cache.\<close>

definition explored ::
  "('s, 'v) Model \<Rightarrow> ('s \<Rightarrow> 'v \<Rightarrow> 'v \<Rightarrow> bool \<times> 's) \<Rightarrow> 'v heap \<Rightarrow> nat \<Rightarrow> nat list \<Rightarrow> nat list \<Rightarrow> nat list \<Rightarrow> ('s, 'v) Search \<Rightarrow> bool" where
  "explored model step h0 head full xs ys S \<longleftrightarrow>
     (\<exists>S'. (goes model head)\<^sup>*\<^sup>* S S' \<and> nnext (heap S' ! head) = None) \<and> linA step h0 xs (cur S) \<or>
     (\<exists>K e n. (goes model head)\<^sup>*\<^sup>* S (S\<lparr>cache := K, pos := Some e, turn := n\<rparr>) \<and> nmatch (h0 ! e) = None \<and>
        cached (cache S) \<subseteq> cached K \<and> (\<forall>p \<in> cached K - cached (cache S). deadEnd step h0 full p) \<and>
        noneLeads step h0 xs ys (cur S))"

lemma explored_back:
  assumes "(goes model head)\<^sup>*\<^sup>* S (S\<lparr>cache := K, pos := p, turn := n\<rparr>)"
    and "explored model step h0 head full xs ys (S\<lparr>cache := K, pos := p, turn := n\<rparr>)"
    and "cached (cache S) \<subseteq> cached K" "\<forall>p \<in> cached K - cached (cache S). deadEnd step h0 full p"
    and "\<not> leads step h0 xs (cur S) a"
  shows "explored model step h0 head full xs (a # ys) S"
proof -
  let ?T = "S\<lparr>cache := K, pos := p, turn := n\<rparr>"
  consider S' where "(goes model head)\<^sup>*\<^sup>* ?T S'" "nnext (heap S' ! head) = None" "linA step h0 xs (cur S)"
    | K' e n' where "(goes model head)\<^sup>*\<^sup>* ?T (?T\<lparr>cache := K', pos := Some e, turn := n'\<rparr>)" "nmatch (h0 ! e) = None"
      "cached K \<subseteq> cached K'" "\<forall>p \<in> cached K' - cached K. deadEnd step h0 full p" "noneLeads step h0 xs ys (cur S)"
    using assms(2) unfolding explored_def by auto
  then show ?thesis
  proof cases
    case (1 S')
    then show ?thesis using assms(1) unfolding explored_def by (meson rtranclp_trans)
  next
    case (2 K' e n')
    have "(goes model head)\<^sup>*\<^sup>* S (S\<lparr>cache := K', pos := Some e, turn := n'\<rparr>)" using rtranclp_trans[OF assms(1) 2(1)] by simp
    moreover have "noneLeads step h0 xs (a # ys) (cur S)" using 2(5) assms(5) by (auto simp: noneLeads_def)
    moreover have "\<forall>p \<in> cached K' - cached (cache S). deadEnd step h0 full p" using 2(4) assms(4) by blast
    ultimately show ?thesis using 2(2,3) assms(3) unfolding explored_def by blast
  qed
qed

lemma explored_return:
  assumes "nmatch (h0 ! a) = None" "pos S = Some a"
  shows "explored model step h0 head full xs (a # ys) S"
proof -
  have "S = S\<lparr>cache := cache S, pos := Some a, turn := turn S\<rparr>" using assms(2) by simp
  then have "(goes model head)\<^sup>*\<^sup>* S (S\<lparr>cache := cache S, pos := Some a, turn := turn S\<rparr>)" by (metis rtranclp.rtrancl_refl)
  moreover have "noneLeads step h0 xs (a # ys) (cur S)" using assms(1) by (simp add: noneLeads_def isCall_def)
  ultimately show ?thesis using assms(1) unfolding explored_def by blast
qed

text \<open>The invariant of the search: the list holds the operations that are not linearized, and every
  cached pair is a dead end or belongs to the current path.\<close>

definition searching ::
  "('s \<Rightarrow> 'v \<Rightarrow> 'v \<Rightarrow> bool \<times> 's) \<Rightarrow> 'v heap \<Rightarrow> nat \<Rightarrow> nat \<Rightarrow> nat list \<Rightarrow> nat list \<Rightarrow> ('s, 'v) Search \<Rightarrow> bool" where
  "searching step h0 head N full xs S \<longleftrightarrow>
     xs = filter (\<lambda>a. nid (h0 ! a) \<notin> bits (lin S)) full \<and> dll (heap S) head xs \<and> inStore (heap S) (head # xs) \<and>
     sameFields h0 (heap S) \<and> length (lin S) = N \<and>
     (\<forall>p \<in> cached (cache S). deadEnd step h0 full p \<or> card (bits (fst p)) \<le> card (bits (lin S)))"

context search_model
begin

text \<open>What is known when the search stands at the call \<open>a\<close> of the list.\<close>

lemma call_setup:
  assumes wf: "wfList h0 full" and gp: "goodPairs good h0 full" and cap: "\<forall>a \<in> set full. nid (h0 ! a) < 64 * N"
    and sr: "searching step h0 head N full xs S" and xs: "xs = zs @ a # ys" and r: "nmatch (h0 ! a) = Some r"
  obtains i v b' vs ws where "ys = vs @ r # ws" "nvalue (h0 ! a) = Some i" "nvalue (h0 ! r) = Some v" "good i v"
    "bset (lin S) (nid (h0 ! a)) = Inr b'" "bclear b' (nid (h0 ! a)) = Inr (lin S)" "length b' = N"
    "card (bits b') = Suc (card (bits (lin S)))" "without h0 (nid (h0 ! a)) xs = zs @ vs @ ws"
    "filter (\<lambda>a. nid (h0 ! a) \<notin> bits b') full = zs @ vs @ ws"
    "nnext (heap S ! head) \<noteq> None" "nnext (heap S ! a) = Some (hd ys)"
proof -
  let ?h = "heap S" and ?b = "lin S" and ?i = "nid (h0 ! a)"
  have full: "xs = filter (\<lambda>a. nid (h0 ! a) \<notin> bits ?b) full" and d: "dll ?h head xs" and st: "inStore ?h (head # xs)"
    and N: "length ?b = N"
    using sr by (auto simp: searching_def)
  have wfx: "wfList h0 xs" unfolding full by (rule wfList_filter[OF wf])
  obtain vs ws where ys: "ys = vs @ r # ws" using wfList_call_pos[OF wfx xs r] .
  have "a \<in> set xs" using xs by simp
  then have a: "a \<in> set full" "?i \<notin> bits ?b" using full by auto
  then have bound: "?i < 64 * length ?b" using cap N by simp
  obtain b' where b': "bset ?b ?i = Inr b'" "bits b' = insert ?i (bits ?b)" "length b' = N"
    using bit_set.add_elems[OF bound] N by auto
  have xs1: "without h0 ?i xs = zs @ vs @ ws" by (rule wfList_without[OF wfx _ r]) (simp add: xs ys)
  have fl: "filter (\<lambda>a. nid (h0 ! a) \<notin> bits b') full = zs @ vs @ ws"
    unfolding xs1[symmetric] by (simp add: without_def full b'(2)) (metis (mono_tags, lifting))
  obtain i v where iv: "nvalue (h0 ! a) = Some i" "nvalue (h0 ! r) = Some v" "good i v"
    using gp a(1) r unfolding goodPairs_def by blast
  have "nnext (?h ! head) \<noteq> None" using d xs by (cases zs) auto
  moreover have "nnext (?h ! a) = Some (hd ys)"
    using d dll_append[of ?h head zs a ys] st dll_next[of ?h a ys] unfolding xs ys by (cases vs) auto
  ultimately show thesis
    using that[OF ys iv b'(1) bit_set.remove_add[OF bound a(2) b'(1)] b'(3) _ xs1 fl] a(2) b'(2) by simp
qed

text \<open>The call is skipped when the model does not allow it or the cache knows the pair it leads to.\<close>

lemma explore_skip:
  assumes wf: "wfList h0 full" and gp: "goodPairs good h0 full" and cap: "\<forall>a \<in> set full. nid (h0 ! a) < 64 * N"
    and sr: "searching step h0 head N full xs S" and xs: "xs = zs @ a # ys" and r: "nmatch (h0 ! a) = Some r" and pos: "pos S = Some a"
    and step: "step (cur S) (the (nvalue (h0 ! a))) (the (nvalue (h0 ! r))) = (ok, s')"
    and b': "bset (lin S) (nid (h0 ! a)) = Inr b'"
    and skip: "ok \<longrightarrow> cacheContains model (cache S) \<lparr>linearized = b', cacheState = s'\<rparr> = Inr True"
  shows "goes model head S (S\<lparr>cache := cache S, pos := Some (hd ys), turn := turn S + 1\<rparr>)" "\<not> leads step h0 xs (cur S) a"
proof -
  obtain i v b'' vs ws where c: "nvalue (h0 ! a) = Some i" "nvalue (h0 ! r) = Some v" "good i v" "bset (lin S) (nid (h0 ! a)) = Inr b''"
    "card (bits b'') = Suc (card (bits (lin S)))" "without h0 (nid (h0 ! a)) xs = zs @ vs @ ws"
    "filter (\<lambda>a. nid (h0 ! a) \<notin> bits b'') full = zs @ vs @ ws" "nnext (heap S ! head) \<noteq> None" "nnext (heap S ! a) = Some (hd ys)"
    by (rule call_setup[OF wf gp cap sr xs r])
  have eqb: "b'' = b'" using c(4) b' by simp
  have sf: "sameFields h0 (heap S)" using sr by (simp add: searching_def)
  obtain h b K st s n where S: "S = \<lparr>heap = h, lin = b, cache = K, stack = st, cur = s, pos = Some a, turn = n\<rparr>"
    using pos by (metis (full_types) Search.surjective old.unit.exhaust)
  show "goes model head S (S\<lparr>cache := cache S, pos := Some (hd ys), turn := turn S + 1\<rparr>)"
    using turn_skip[of h head a r i v s ok s' b b' K st n] c(1-3,8,9) step b' skip sf r by (simp add: S sameFields_def)
  show "\<not> leads step h0 xs (cur S) a"
  proof
    assume "leads step h0 xs (cur S) a"
    then have l: "linA step h0 (zs @ vs @ ws) s'" and ok using r step by (auto simp: leads_def c(6))
    then obtain t where t: "(b', t) \<in> cached (cache S)" "eq s' t"
      using skip cacheContains_found[of "cache S" "\<lparr>linearized = b', cacheState = s'\<rparr>"] by auto
    then have "deadEnd step h0 full (b', t)" using sr c(5) unfolding searching_def eqb by fastforce
    moreover have "goodPairs good h0 (zs @ vs @ ws)" using gp unfolding c(7)[symmetric] by (auto simp: goodPairs_def)
    ultimately show False using linA_eq[OF l _ t(2)] c(7) by (simp add: deadEnd_def eqb)
  qed
qed

text \<open>Otherwise the operation is lifted out, and the invariant holds for the shorter list.\<close>

lemma lift_searching:
  assumes sr: "searching step h0 head N full (zs @ a # vs @ r # ws) S" and r: "nmatch (h0 ! a) = Some r"
    and fl: "filter (\<lambda>a. nid (h0 ! a) \<notin> bits b') full = zs @ vs @ ws" and len: "length b' = N"
    and cd: "card (bits b') = Suc (card (bits (lin S)))"
  obtains h' where "lift a (heap S) = Inr h'" "unlift a h' = Inr (heap S)" "sameFields h0 h'" "dll h' head (zs @ vs @ ws)"
    "\<And>st s p n. searching step h0 head N full (zs @ vs @ ws) \<lparr>heap = h', lin = b',
       cache = (cache S)(k := cache S k @ [\<lparr>linearized = b', cacheState = s'\<rparr>]), stack = st, cur = s, pos = p, turn = n\<rparr>"
proof -
  let ?K1 = "(cache S)(k := cache S k @ [\<lparr>linearized = b', cacheState = s'\<rparr>])"
  have d: "dll (heap S) head (zs @ a # vs @ r # ws)" and st: "inStore (heap S) (head # zs @ a # vs @ r # ws)"
    and sf: "sameFields h0 (heap S)"
    and K: "\<And>p. p \<in> cached (cache S) \<Longrightarrow> deadEnd step h0 full p \<or> card (bits (fst p)) \<le> card (bits (lin S))"
    using sr by (auto simp: searching_def)
  have "nmatch (heap S ! a) = Some r" using sf r by (simp add: sameFields_def)
  from lift_ok[OF d st this] obtain h' where h': "lift a (heap S) = Inr h'" "dll h' head (zs @ vs @ ws)" "unlift a h' = Inr (heap S)"
    "length h' = length (heap S)" "\<And>b. nvalue (h' ! b) = nvalue (heap S ! b)" "\<And>b. nmatch (h' ! b) = nmatch (heap S ! b)"
    "\<And>b. nid (h' ! b) = nid (heap S ! b)" by metis
  have "deadEnd step h0 full p \<or> card (bits (fst p)) \<le> card (bits b')" if "p \<in> cached ?K1" for p
  proof (cases "p = (b', s')")
    case False
    then have "p \<in> cached (cache S)" using that unfolding cached_insert by blast
    then show ?thesis using K[of p] cd by auto
  qed simp
  moreover have "inStore h' (head # zs @ vs @ ws)" using st h'(4) by (auto simp: inStore_def)
  moreover have sf': "sameFields h0 h'" using sf h'(4-7) by (simp add: sameFields_def)
  ultimately show thesis using that[OF h'(1,3) sf' h'(2)] fl len h'(2) by (simp add: searching_def)
qed

text \<open>The search without the operation either succeeds, or ends at a return and puts the operation back.\<close>

lemma explore_take:
  assumes ex: "explored model step h0 head full xs xs T" and ne: "xs \<noteq> []"
    and T: "T = \<lparr>heap = h', lin = b', cache = K1, stack = stack S @ [\<lparr>callEntryAddr = a, callState = cur S\<rparr>], cur = s',
      pos = nnext (h' ! head), turn = m\<rparr>"
    and K1: "cached K1 = insert (b', s') (cached (cache S))"
    and fl: "filter (\<lambda>a. nid (h0 ! a) \<notin> bits b') full = xs" and h': "dll h' head xs" "sameFields h0 h'"
    and put: "unlift a h' = Inr (heap S)" "bclear b' (nid (h0 ! a)) = Inr (lin S)" and na: "nnext (heap S ! a) = Some y"
  shows "(\<exists>S'. (goes model head)\<^sup>*\<^sup>* T S' \<and> nnext (heap S' ! head) = None) \<and> linA step h0 xs s' \<or>
    (\<exists>K n. (goes model head)\<^sup>*\<^sup>* T (S\<lparr>cache := K, pos := Some y, turn := n\<rparr>) \<and> cached (cache S) \<subseteq> cached K \<and>
       (\<forall>p \<in> cached K - cached (cache S). deadEnd step h0 full p) \<and> \<not> linA step h0 xs s')"
proof -
  consider S' where "(goes model head)\<^sup>*\<^sup>* T S'" "nnext (heap S' ! head) = None" "linA step h0 xs s'"
    | K e n where "(goes model head)\<^sup>*\<^sup>* T (T\<lparr>cache := K, pos := Some e, turn := n\<rparr>)" "nmatch (h0 ! e) = None"
      "cached K1 \<subseteq> cached K" "\<forall>p \<in> cached K - cached K1. deadEnd step h0 full p" "noneLeads step h0 xs xs s'"
    using ex unfolding explored_def T by auto
  then show ?thesis
  proof cases
    case (1 S')
    then show ?thesis by blast
  next
    case (2 K e n)
    have dead: "\<not> linA step h0 xs s'" using 2(5) linA_leads[OF ne, of step h0 s'] by simp
    have e: "nmatch (h' ! e) = None" "nid (h' ! a) = nid (h0 ! a)" using 2(2) h'(2) unfolding sameFields_def by metis+
    have "nnext (h' ! head) \<noteq> None" using dll_next[OF h'(1)] ne by (cases xs) auto
    then have "goes model head (T\<lparr>cache := K, pos := Some e, turn := n\<rparr>) (S\<lparr>cache := K, pos := Some y, turn := n + 1\<rparr>)"
      using turn_back[of h' head e b' a "lin S" "heap S" K "stack S" "cur S" s' n] e put na by (simp add: T Search_update)
    with 2(1) have "(goes model head)\<^sup>*\<^sup>* T (S\<lparr>cache := K, pos := Some y, turn := n + 1\<rparr>)" by (rule rtranclp.rtrancl_into_rtrancl)
    moreover have "cached (cache S) \<subseteq> cached K" using 2(3) K1 by blast
    moreover have "\<forall>p \<in> cached K - cached (cache S). deadEnd step h0 full p"
      using 2(4) dead K1 by (auto simp: deadEnd_def fl)
    ultimately show ?thesis using dead by blast
  qed
qed

text \<open>One call \<open>a\<close> of the list: either the search succeeds, or it comes back with everything as before
  except for the cache, and \<open>a\<close> does not lead to a linearization. The first assumption is the main lemma
  for shorter lists.\<close>

lemma explore_call:
  assumes IH: "\<forall>xs' S'. length xs' < length xs \<longrightarrow> xs' \<noteq> [] \<longrightarrow> searching step h0 head N full xs' S' \<longrightarrow>
      pos S' = Some (hd xs') \<longrightarrow> explored model step h0 head full xs' xs' S'"
    and wf: "wfList h0 full" and gp: "goodPairs good h0 full" and cap: "\<forall>a \<in> set full. nid (h0 ! a) < 64 * N"
    and sr: "searching step h0 head N full xs S" and xs: "xs = zs @ a # ys" and zs: "\<forall>z \<in> set zs. isCall h0 z"
    and pos: "pos S = Some a" and r: "nmatch (h0 ! a) = Some r"
  shows "ys \<noteq> []" "(\<exists>S'. (goes model head)\<^sup>*\<^sup>* S S' \<and> nnext (heap S' ! head) = None) \<and> linA step h0 xs (cur S) \<or>
    (\<exists>K n. (goes model head)\<^sup>*\<^sup>* S (S\<lparr>cache := K, pos := Some (hd ys), turn := n\<rparr>) \<and> cached (cache S) \<subseteq> cached K \<and>
       (\<forall>p \<in> cached K - cached (cache S). deadEnd step h0 full p) \<and> \<not> leads step h0 xs (cur S) a)"
    (is "?success \<or> ?back")
proof -
  obtain i v b' vs ws where c: "ys = vs @ r # ws" "nvalue (h0 ! a) = Some i" "nvalue (h0 ! r) = Some v" "good i v"
    "bset (lin S) (nid (h0 ! a)) = Inr b'" "bclear b' (nid (h0 ! a)) = Inr (lin S)" "length b' = N"
    "card (bits b') = Suc (card (bits (lin S)))" "without h0 (nid (h0 ! a)) xs = zs @ vs @ ws"
    "filter (\<lambda>a. nid (h0 ! a) \<notin> bits b') full = zs @ vs @ ws" "nnext (heap S ! head) \<noteq> None" "nnext (heap S ! a) = Some (hd ys)"
    by (rule call_setup[OF wf gp cap sr xs r])
  show "ys \<noteq> []" using c(1) by simp
  obtain ok s' where step: "step (cur S) i v = (ok, s')" by (meson surj_pair)
  obtain found where found: "cacheContains model (cache S) \<lparr>linearized = b', cacheState = s'\<rparr> = Inr found"
    using cacheContains_found by blast
  show "?success \<or> ?back"
  proof (cases "ok \<longrightarrow> found")
    case True
    then show ?thesis
      using explore_skip[OF wf gp cap sr xs r pos _ c(5), of ok s'] step found c(2,3) by (intro disjI2) fastforce
  next
    case False
    then have step': "step (cur S) i v = (True, s')" and nf: "cacheContains model (cache S) \<lparr>linearized = b', cacheState = s'\<rparr> = Inr False"
      using step found by auto
    let ?xs = "zs @ vs @ ws"
    have "searching step h0 head N full (zs @ a # vs @ r # ws) S" using sr by (simp add: xs c(1))
    from lift_searching[OF this r c(10,7,8), of "hash b'" s'] obtain h' where h': "lift a (heap S) = Inr h'" "unlift a h' = Inr (heap S)"
      "sameFields h0 h'" "dll h' head ?xs" "\<And>st s p n. searching step h0 head N full ?xs \<lparr>heap = h', lin = b',
       cache = (cache S)(hash b' := cache S (hash b') @ [\<lparr>linearized = b', cacheState = s'\<rparr>]), stack = st, cur = s, pos = p, turn = n\<rparr>"
      by metis
    let ?K1 = "(cache S)(hash b' := cache S (hash b') @ [\<lparr>linearized = b', cacheState = s'\<rparr>])"
    let ?T = "\<lparr>heap = h', lin = b', cache = ?K1, stack = stack S @ [\<lparr>callEntryAddr = a, callState = cur S\<rparr>], cur = s',
      pos = nnext (h' ! head), turn = turn S + 1\<rparr>"
    have sf: "nmatch (heap S ! a) = Some r" "nvalue (heap S ! a) = Some i" "nvalue (heap S ! r) = Some v" "nid (heap S ! a) = nid (h0 ! a)"
      using sr r c(2,3) by (simp_all add: searching_def sameFields_def)
    have Seq: "\<lparr>heap = heap S, lin = lin S, cache = cache S, stack = stack S, cur = cur S, pos = Some a, turn = turn S\<rparr> = S"
      using pos by simp
    have g: "goes model head S ?T"
      using turn_take[OF c(11) sf(1-3) c(4) step' _ nf h'(1), where b = "lin S" and st = "stack S" and n = "turn S"] c(5)
      by (simp add: sf(4) Seq)
    have leads: "leads step h0 xs (cur S) a \<longleftrightarrow> linA step h0 ?xs s'" using r c(2,3,9) step' by (auto simp: leads_def)
    have lin: "linA step h0 xs (cur S)" if "linA step h0 ?xs s'"
      using linA_Call[OF xs zs r, of step "cur S" s'] c(2,3,9) step' that by simp
    show ?thesis
    proof (cases "?xs = []")
      case True
      have "nnext (h' ! head) = None" using h'(4) True by simp
      moreover have "linA step h0 xs (cur S)" using lin True linA_Nil by metis
      ultimately have ?success using g by (auto intro!: exI[of _ ?T])
      then show ?thesis ..
    next
      case False
      have "pos ?T = Some (hd ?xs)" using dll_next[OF h'(4)] False by (cases ?xs) auto
      then have "explored model step h0 head full ?xs ?xs ?T" using IH[rule_format, of ?xs ?T] h'(5) False by (simp add: xs c(1))
      from explore_take[OF this False refl cached_insert c(10) h'(4,3,2) c(6,12)] show ?thesis
        using lin leads converse_rtranclp_into_rtranclp[of "goes model head" S ?T] g by (elim disjE) blast+
    qed
  qed
qed

lemma explore:
  assumes wf: "wfList h0 full" and gp: "goodPairs good h0 full" and cap: "\<forall>a \<in> set full. nid (h0 ! a) < 64 * N"
  shows "searching step h0 head N full xs S \<Longrightarrow> xs = zs @ ys \<Longrightarrow> \<forall>z \<in> set zs. isCall h0 z \<Longrightarrow> ys \<noteq> [] \<Longrightarrow>
    pos S = Some (hd ys) \<Longrightarrow> explored model step h0 head full xs ys S"
proof (induction "length xs" arbitrary: xs zs ys S rule: less_induct)
  case less
  have IH: "\<forall>xs' S'. length xs' < length xs \<longrightarrow> xs' \<noteq> [] \<longrightarrow> searching step h0 head N full xs' S' \<longrightarrow>
      pos S' = Some (hd xs') \<longrightarrow> explored model step h0 head full xs' xs' S'"
    using less.hyps[of _ _ "[]"] by simp
  show ?case using less.prems
  proof (induction ys arbitrary: zs S)
    case (Cons a ys)
    have pos: "pos S = Some a" using Cons.prems(5) by simp
    show ?case
    proof (cases "nmatch (h0 ! a)")
      case None
      then show ?thesis by (rule explored_return[OF _ pos])
    next
      case (Some r)
      note call = explore_call[OF IH wf gp cap Cons.prems(1-3) pos Some]
      from call(2) show ?thesis
      proof (elim disjE exE)
        assume "(\<exists>S'. (goes model head)\<^sup>*\<^sup>* S S' \<and> nnext (heap S' ! head) = None) \<and> linA step h0 xs (cur S)"
        then show ?thesis by (simp add: explored_def)
      next
        fix K n
        assume 2: "(goes model head)\<^sup>*\<^sup>* S (S\<lparr>cache := K, pos := Some (hd ys), turn := n\<rparr>) \<and> cached (cache S) \<subseteq> cached K \<and>
          (\<forall>p \<in> cached K - cached (cache S). deadEnd step h0 full p) \<and> \<not> leads step h0 xs (cur S) a"
        let ?T = "S\<lparr>cache := K, pos := Some (hd ys), turn := n\<rparr>"
        have "searching step h0 head N full xs ?T" using Cons.prems(1) 2 by (auto simp: searching_def)
        moreover have "\<forall>z \<in> set (zs @ [a]). isCall h0 z" using Cons.prems(3) Some by (simp add: isCall_def)
        ultimately have "explored model step h0 head full xs ys ?T"
          using Cons.IH[of ?T "zs @ [a]"] Cons.prems(2) call(1) by simp
        with 2 show ?thesis by (elim conjE) (rule explored_back)
      qed
    qed
  qed simp
qed

end

end
