(* ===== verification/Lin_Spec.thy ===== *)
theory Lin_Spec
  imports Lin_Model
begin

text \<open>
  What the checker is meant to decide: a history is linearizable if its operations can be put into an
  order that the sequential object allows and that keeps the real-time order. For the key/value store
  linearizability is local: a history is linearizable if and only if, for every key, the operations on
  that key are. This is what \<open>KvModel\<close> relies on when it splits a history by key.
\<close>

section \<open>Linearizability\<close>

fun legal :: "('s \<Rightarrow> 'v \<Rightarrow> 'v \<Rightarrow> bool \<times> 's) \<Rightarrow> 's \<Rightarrow> 'v Operation list \<Rightarrow> bool" where
  "legal step s [] \<longleftrightarrow> True"
| "legal step s (p # ps) \<longleftrightarrow> (let (ok, s') = step s (Input p) (Output p) in ok \<and> legal step s' ps)"

definition linearizable :: "('s \<Rightarrow> 'v \<Rightarrow> 'v \<Rightarrow> bool \<times> 's) \<Rightarrow> 's \<Rightarrow> 'v Operation list \<Rightarrow> bool" where
  "linearizable step s history \<longleftrightarrow>
     (\<exists>ps. mset ps = mset history \<and> sorted_wrt (\<lambda>p q. \<not> Return q < Call p) ps \<and> legal step s ps)"

lemma linearizable_mset: "mset h = mset h' \<Longrightarrow> linearizable step s h \<longleftrightarrow> linearizable step s h'"
  by (simp add: linearizable_def)

text \<open>An arrangement of the images comes from an arrangement of the originals.\<close>

lemma mset_map_inv: "mset ys = image_mset f (mset xs) \<Longrightarrow> \<exists>zs. mset zs = mset xs \<and> map f zs = ys"
proof (induction ys arbitrary: xs)
  case Nil
  then show ?case by simp
next
  case (Cons y ys)
  have "y \<in># image_mset f (mset xs)" using Cons.prems[symmetric] by simp
  then obtain x where x: "x \<in> set xs" "y = f x" by auto
  then have m: "mset xs = add_mset x (mset (remove1 x xs))" by simp
  have "add_mset y (mset ys) = add_mset (f x) (image_mset f (mset (remove1 x xs)))"
    using Cons.prems arg_cong[OF m, of "image_mset f"] by (simp del: mset_remove1)
  then have "mset ys = image_mset f (mset (remove1 x xs))" using x(2) by (simp del: mset_remove1)
  then obtain zs where "mset zs = mset (remove1 x xs)" "map f zs = ys" using Cons.IH by blast
  then show ?case using m x(2) by (intro exI[of _ "x # zs"]) (simp del: mset_remove1)
qed

section \<open>Points in time\<close>

text \<open>
  In an order that keeps the real-time order every operation can be given a point in time between its
  call and its return such that the points do not decrease: the latest call up to the operation.
\<close>

fun points :: "int \<Rightarrow> 'v Operation list \<Rightarrow> int list" where
  "points t [] = []"
| "points t (p # ps) = max t (Call p) # points (max t (Call p)) ps"

lemma points_length [simp]: "length (points t ps) = length ps"
  by (induction ps arbitrary: t) simp_all

lemma points_ge: "x \<in> set (points t ps) \<Longrightarrow> t \<le> x"
proof (induction ps arbitrary: t)
  case (Cons p ps)
  then consider "x = max t (Call p)" | "x \<in> set (points (max t (Call p)) ps)" by auto
  then show ?case
  proof cases
    case 2
    then show ?thesis using Cons.IH[of "max t (Call p)"] by simp
  qed simp
qed simp

lemma points_sorted: "sorted (points t ps)"
  by (induction ps arbitrary: t) (auto dest: points_ge)

lemma points_between:
  assumes "sorted_wrt (\<lambda>p q. \<not> Return q < Call p) ps" "\<forall>p \<in> set ps. Call p \<le> Return p \<and> t \<le> Return p"
  shows "\<forall>(p, x) \<in> set (zip ps (points t ps)). Call p \<le> x \<and> x \<le> Return p"
  using assms
proof (induction ps arbitrary: t)
  case (Cons p ps)
  have "\<forall>q \<in> set ps. Call q \<le> Return q \<and> max t (Call p) \<le> Return q" using Cons.prems by auto
  with Cons.IH[of "max t (Call p)"] Cons.prems show ?case by auto
qed simp

section \<open>Locality\<close>

text \<open>A store of objects, one per key, and the operations on it.\<close>

definition storeStep ::
  "('v \<Rightarrow> 'k) \<Rightarrow> ('s \<Rightarrow> 'v \<Rightarrow> 'v \<Rightarrow> bool \<times> 's) \<Rightarrow> ('k \<Rightarrow> 's) \<Rightarrow> 'v \<Rightarrow> 'v \<Rightarrow> bool \<times> ('k \<Rightarrow> 's)" where
  "storeStep keyOf step m i v = (let (ok, s) = step (m (keyOf i)) i v in (ok, m(keyOf i := s)))"

abbreviation onKey :: "('v \<Rightarrow> 'k) \<Rightarrow> 'k \<Rightarrow> 'v Operation list \<Rightarrow> 'v Operation list" where
  "onKey keyOf k \<equiv> filter (\<lambda>p. keyOf (Input p) = k)"

lemma legal_store: "legal (storeStep keyOf step) m ps \<longleftrightarrow> (\<forall>k. legal step (m k) (onKey keyOf k ps))"
proof (induction ps arbitrary: m)
  case (Cons p ps)
  let ?k = "keyOf (Input p)"
  obtain ok s where st: "step (m ?k) (Input p) (Output p) = (ok, s)" by (meson surj_pair)
  then have "legal (storeStep keyOf step) m (p # ps) \<longleftrightarrow> ok \<and> (\<forall>k. legal step ((m(?k := s)) k) (onKey keyOf k ps))"
    unfolding Cons.IH[of "m(?k := s)", symmetric] by (simp add: storeStep_def[of keyOf step m])
  also have "\<dots> \<longleftrightarrow> (\<forall>k. legal step (m k) (onKey keyOf k (p # ps)))" using st by (auto split: if_splits)
  finally show ?case .
qed simp

lemma linearizable_onKey:
  assumes "linearizable (storeStep keyOf step) m history"
  shows "linearizable step (m k) (onKey keyOf k history)"
proof -
  obtain ps where ps: "mset ps = mset history" "sorted_wrt (\<lambda>p q. \<not> Return q < Call p) ps" "legal (storeStep keyOf step) m ps"
    using assms unfolding linearizable_def by blast
  have "mset (onKey keyOf k ps) = mset (onKey keyOf k history)" using ps(1) by simp
  moreover have "sorted_wrt (\<lambda>p q. \<not> Return q < Call p) (onKey keyOf k ps)" using ps(2) by (rule sorted_wrt_filter)
  ultimately show ?thesis using ps(3) unfolding linearizable_def legal_store by blast
qed

text \<open>Orders of the operations on each key are merged by their points in time.\<close>

definition merged :: "int \<Rightarrow> 'k list \<Rightarrow> ('k \<Rightarrow> 'v Operation list) \<Rightarrow> ('v Operation \<times> int) list" where
  "merged t ks f = sort_key snd (concat (map (\<lambda>k. zip (f k) (points t (f k))) ks))"

lemma merged_onKey:
  assumes "distinct ks" "\<And>k p. p \<in> set (f k) \<Longrightarrow> keyOf (Input p) = k" "\<And>k. k \<notin> set ks \<Longrightarrow> f k = []"
  shows "onKey keyOf k (map fst (merged t ks f)) = f k"
proof -
  let ?z = "\<lambda>k. zip (f k) (points t (f k))" and ?P = "\<lambda>px. keyOf (Input (fst px)) = k"
  have z: "filter ?P (?z j) = (if j = k then ?z k else [])" for j
  proof (cases "j = k")
    case True
    then show ?thesis using assms(2) by (auto intro!: filter_True dest: set_zip_leftD)
  next
    case False
    then show ?thesis using assms(2) by (auto intro!: filter_False dest: set_zip_leftD)
  qed
  have "filter ?P (concat (map ?z js)) = (if k \<in> set js then ?z k else [])" if "distinct js" for js
    using that by (induction js) (auto simp: z)
  then have "filter ?P (concat (map ?z ks)) = ?z k" using assms(1) assms(3)[of k] by auto
  then have "filter ?P (merged t ks f) = sort_key snd (?z k)" by (simp add: merged_def filter_sort)
  also have "\<dots> = ?z k" by (rule sort_key_id_if_sorted) (simp add: points_sorted)
  finally have "map fst (filter ?P (merged t ks f)) = f k" by simp
  then show ?thesis by (simp add: filter_map comp_def)
qed

lemma merged_order:
  assumes "\<And>k. sorted_wrt (\<lambda>p q. \<not> Return q < Call p) (f k)" "\<And>k p. p \<in> set (f k) \<Longrightarrow> Call p \<le> Return p \<and> t \<le> Return p"
  shows "sorted_wrt (\<lambda>p q. \<not> Return q < Call p) (map fst (merged t ks f))"
proof -
  have b: "Call p \<le> x \<and> x \<le> Return p" if px: "(p, x) \<in> set (merged t ks f)" for p x
  proof -
    obtain k where "(p, x) \<in> set (zip (f k) (points t (f k)))" using px unfolding merged_def by auto
    then show ?thesis using points_between[OF assms(1)[of k], of t] assms(2)[of _ k] by fastforce
  qed
  have "sorted (map snd (merged t ks f))" by (simp add: merged_def)
  then have "sorted_wrt (\<lambda>px qy. snd px \<le> snd qy) (merged t ks f)" by (simp add: sorted_map)
  then have "sorted_wrt (\<lambda>px qy. \<not> Return (fst qy) < Call (fst px)) (merged t ks f)"
  proof (rule sorted_wrt_mono_rel[rotated])
    fix px qy
    assume "px \<in> set (merged t ks f)" "qy \<in> set (merged t ks f)" "snd px \<le> snd qy"
    then show "\<not> Return (fst qy) < Call (fst px)" using b[of "fst px" "snd px"] b[of "fst qy" "snd qy"] by simp
  qed
  then show ?thesis by (simp add: sorted_wrt_map)
qed

lemma mset_onKeys:
  assumes "distinct ks" "keyOf ` Input ` set history \<subseteq> set ks"
  shows "mset (concat (map (\<lambda>k. onKey keyOf k history) ks)) = mset history"
  using assms
proof (induction ks arbitrary: history)
  case Nil
  then show ?case by simp
next
  case (Cons j ks)
  let ?rest = "filter (\<lambda>p. keyOf (Input p) \<noteq> j) history"
  have "onKey keyOf k ?rest = onKey keyOf k history" if "k \<in> set ks" for k
    using that Cons.prems(1) by (auto intro!: filter_cong)
  then have "map (\<lambda>k. onKey keyOf k ?rest) ks = map (\<lambda>k. onKey keyOf k history) ks" by simp
  moreover have "mset (concat (map (\<lambda>k. onKey keyOf k ?rest) ks)) = mset ?rest"
    by (rule Cons.IH) (use Cons.prems in auto)
  ultimately have "mset (concat (map (\<lambda>k. onKey keyOf k history) (j # ks))) = mset (onKey keyOf j history) + mset ?rest"
    by (simp only: list.map concat.simps mset_append)
  also have "\<dots> = mset history" using multiset_partition[of "mset history" "\<lambda>p. keyOf (Input p) = j"] by simp
  finally show ?case .
qed

lemma linearizable_local:
  assumes "\<And>p. p \<in> set history \<Longrightarrow> Call p \<le> Return p"
  shows "linearizable (storeStep keyOf step) m history \<longleftrightarrow> (\<forall>k. linearizable step (m k) (onKey keyOf k history))"
proof
  assume "linearizable (storeStep keyOf step) m history"
  then show "\<forall>k. linearizable step (m k) (onKey keyOf k history)" by (intro allI) (rule linearizable_onKey)
next
  assume "\<forall>k. linearizable step (m k) (onKey keyOf k history)"
  then have "\<forall>k. \<exists>ps. mset ps = mset (onKey keyOf k history) \<and> sorted_wrt (\<lambda>p q. \<not> Return q < Call p) ps \<and> legal step (m k) ps"
    unfolding linearizable_def .
  from choice[OF this] obtain f where F: "\<forall>k. mset (f k) = mset (onKey keyOf k history) \<and>
      sorted_wrt (\<lambda>p q. \<not> Return q < Call p) (f k) \<and> legal step (m k) (f k)" ..
  note f = F[THEN spec, THEN conjunct1] F[THEN spec, THEN conjunct2, THEN conjunct1] F[THEN spec, THEN conjunct2, THEN conjunct2]
  have mem: "p \<in> set history \<and> keyOf (Input p) = k" if "p \<in> set (f k)" for p k
    using that arg_cong[OF f(1)[of k], of set_mset] by auto
  define t where "t = Min (insert 0 (Return ` set history))"
  have t: "t \<le> Return p" if p: "p \<in> set history" for p
  proof -
    have "Return p \<in> insert 0 (Return ` set history)" using p by (rule insertI2[OF imageI])
    then show ?thesis unfolding t_def by (intro Min_le) simp_all
  qed
  define ks where "ks = remdups (map (\<lambda>p. keyOf (Input p)) history)"
  let ?ps = "map fst (merged t ks f)"
  have nil: "f k = []" if k: "k \<notin> set ks" for k
  proof (rule ccontr)
    assume "f k \<noteq> []"
    then have "hd (f k) \<in> set (f k)" by simp
    from mem[OF this] have "k \<in> (\<lambda>p. keyOf (Input p)) ` set history" by (metis imageI)
    with k show False by (simp add: ks_def)
  qed
  have ks: "distinct ks" by (simp add: ks_def)
  have key: "onKey keyOf k ?ps = f k" for k 
    using merged_onKey[where ks = ks and f = f and keyOf = keyOf and k = k and t = t, OF ks] mem nil by blast
  have "mset ?ps = mset (concat (map f ks))"
  proof -
    have "mset (map fst (concat (map (\<lambda>k. zip (f k) (points t (f k))) js))) = mset (concat (map f js))" for js
      by (induction js) simp_all
    then show ?thesis by (simp add: merged_def)
  qed
  also have "\<dots> = mset (concat (map (\<lambda>k. onKey keyOf k history) ks))" by (simp add: mset_concat f(1) comp_def)
  also have "\<dots> = mset history" by (rule mset_onKeys) (auto simp: ks_def)
  finally have "mset ?ps = mset history" .
  moreover have "sorted_wrt (\<lambda>p q. \<not> Return q < Call p) ?ps" by (rule merged_order[OF f(2)]) (use mem assms t in blast)
  moreover have "legal (storeStep keyOf step) m ?ps" unfolding legal_store key using f(3) by blast
  ultimately show "linearizable (storeStep keyOf step) m history" unfolding linearizable_def by blast
qed

end
