(* ===== verification/Lin_Correct.thy ===== *)
theory Lin_Correct
  imports Lin_Search Lin_Spec
begin

text \<open>
  The checker decides linearizability: the search on the linked list (\<open>Lin_Search\<close>) is connected with
  the definition on operations (\<open>Lin_Spec\<close>), through the list that \<open>makeLinkedEntries\<close> builds, for
  histories of operations (\<open>makeEntries\<close>) and of events (\<open>renumber\<close>, \<open>convertEntries\<close>).
\<close>

section \<open>Orders of operations instead of searches\<close>

text \<open>The list is built from its end, so addresses decrease along it.\<close>

definition retOf :: "'v heap \<Rightarrow> nat \<Rightarrow> nat" where
  "retOf h a = the (nmatch (h ! a))"

fun legalA :: "('s \<Rightarrow> 'v \<Rightarrow> 'v \<Rightarrow> bool \<times> 's) \<Rightarrow> 'v heap \<Rightarrow> 's \<Rightarrow> nat list \<Rightarrow> bool" where
  "legalA step h s [] \<longleftrightarrow> True"
| "legalA step h s (a # as) \<longleftrightarrow>
     (let (ok, s') = step s (the (nvalue (h ! a))) (the (nvalue (h ! retOf h a))) in ok \<and> legalA step h s' as)"

definition orderly :: "'v heap \<Rightarrow> nat list \<Rightarrow> bool" where
  "orderly h xs \<longleftrightarrow> wfList h xs \<and> sorted_wrt (>) xs \<and>
     (\<forall>c \<in> set xs. nmatch (h ! c) = None \<longrightarrow> (\<exists>b \<in> set xs. nmatch (h ! b) = Some c))"

lemma orderly_without:
  assumes "orderly h xs"
  shows "orderly h (without h i xs)"
proof -
  have "wfList h (without h i xs)" "sorted_wrt (>) (without h i xs)"
    using assms wfList_filter[of h xs "\<lambda>n. n \<noteq> i"] by (auto simp: orderly_def without_def sorted_wrt_filter)
  moreover have "\<exists>b \<in> set (without h i xs). nmatch (h ! b) = Some c" if c: "c \<in> set (without h i xs)" "nmatch (h ! c) = None" for c
  proof -
    obtain b where b: "b \<in> set xs" "nmatch (h ! b) = Some c" using assms c by (auto simp: orderly_def without_def)
    then have "nid (h ! c) = nid (h ! b)" using assms unfolding orderly_def wfList_def by blast
    then show ?thesis using b c by (auto simp: without_def)
  qed
  ultimately show ?thesis by (simp add: orderly_def)
qed

lemma orderly_call:
  assumes "orderly h xs" "a \<in> set xs" "isCall h a"
  obtains us vs ws where "xs = us @ a # vs @ retOf h a # ws" "nmatch (h ! a) = Some (retOf h a)" "retOf h a < a"
    "without h (nid (h ! a)) xs = us @ vs @ ws" "\<not> isCall h (retOf h a)" "\<And>b. b \<in> set us \<longleftrightarrow> b \<in> set xs \<and> a < b"
proof -
  have m: "nmatch (h ! a) = Some (retOf h a)" using assms(3) by (auto simp: isCall_def retOf_def)
  have wf: "wfList h xs" and srt: "sorted_wrt (>) xs" using assms(1) by (auto simp: orderly_def)
  obtain us vs ws where x: "xs = us @ a # vs @ retOf h a # ws" "nmatch (h ! retOf h a) = None"
    using wf assms(2) m unfolding wfList_def by metis
  have side: "\<forall>y \<in> set us. a < y" "\<forall>y \<in> set (vs @ retOf h a # ws). y < a"
    using srt unfolding x(1) by (auto simp: sorted_wrt_append)
  have "b \<in> set us \<longleftrightarrow> b \<in> set xs \<and> a < b" for b
  proof
    assume "b \<in> set xs \<and> a < b"
    then have "b \<in> set us \<or> b \<in> set (vs @ retOf h a # ws)" "a < b" unfolding x(1) by auto
    then show "b \<in> set us" using side(2) not_less_iff_gr_or_eq by blast
  qed (use side(1) x(1) in auto)
  moreover have "retOf h a < a" using srt unfolding x(1) by (simp add: sorted_wrt_append)
  ultimately show thesis using that[OF x(1) m _ wfList_without[OF wf x(1) m]] x(2) by (auto simp: isCall_def)
qed

lemma calls_without:
  assumes "orderly h xs" "a \<in> set xs" "isCall h a"
  shows "mset (filter (isCall h) xs) = add_mset a (mset (filter (isCall h) (without h (nid (h ! a)) xs)))"
proof -
  obtain us vs ws where "xs = us @ a # vs @ retOf h a # ws" "without h (nid (h ! a)) xs = us @ vs @ ws" "\<not> isCall h (retOf h a)"
    using orderly_call[OF assms] by metis
  then show ?thesis using assms(3) by simp
qed

lemma linA_order:
  assumes "linA step h xs s" "orderly h xs"
  shows "\<exists>as. mset as = mset (filter (isCall h) xs) \<and> sorted_wrt (\<lambda>a b. \<not> a < retOf h b) as \<and> legalA step h s as"
  using assms
proof (induction rule: linA.induct)
  case (linA_Nil s)
  then show ?case by simp
next
  case (linA_Call xs us a ws r s s')
  have a: "a \<in> set xs" "isCall h a" "retOf h a = r" using linA_Call.hyps(1,3) by (auto simp: isCall_def retOf_def)
  let ?xs = "without h (nid (h ! a)) xs"
  obtain as where as: "mset as = mset (filter (isCall h) ?xs)" "sorted_wrt (\<lambda>a b. \<not> a < retOf h b) as" "legalA step h s' as"
    using linA_Call.IH orderly_without[OF linA_Call.prems] by blast
  have "\<not> a < retOf h b" if b: "b \<in> set as" for b
  proof
    assume lt: "a < retOf h b"
    have b': "b \<in> set xs" "isCall h b" using b arg_cong[OF as(1), of set_mset] by (auto simp: without_def)
    obtain us' vs' ws' where "xs = us' @ b # vs' @ retOf h b # ws'" "\<not> isCall h (retOf h b)" using orderly_call[OF linA_Call.prems b'] by metis
    then have ret: "retOf h b \<in> set xs" "\<not> isCall h (retOf h b)" by auto
    have "sorted_wrt (>) xs" using linA_Call.prems by (simp add: orderly_def)
    then have "retOf h b \<in> set us" using ret(1) lt unfolding linA_Call.hyps(1) by (auto simp: sorted_wrt_append)
    then show False using linA_Call.hyps(2) ret(2) by blast
  qed
  moreover have "mset (a # as) = mset (filter (isCall h) xs)" using as(1) calls_without[OF linA_Call.prems a(1,2)] by simp
  ultimately show ?case using as(2,3) linA_Call.hyps(4) a(3) by (intro exI[of _ "a # as"]) simp
qed

lemma order_linA:
  assumes "orderly h xs" "mset as = mset (filter (isCall h) xs)" "sorted_wrt (\<lambda>a b. \<not> a < retOf h b) as" "legalA step h s as"
  shows "linA step h xs s"
  using assms
proof (induction as arbitrary: xs s)
  case Nil
  have "xs = []"
  proof (rule ccontr)
    assume "xs \<noteq> []"
    then obtain b where b: "b \<in> set xs" "nmatch (h ! b) \<noteq> None"
      using Nil.prems(1) unfolding orderly_def by (metis last_in_set option.distinct(1))
    then have "b \<in> set (filter (isCall h) xs)" by (simp add: isCall_def)
    moreover have "filter (isCall h) xs = []" using Nil.prems(2) by (metis mset_zero_iff mset.simps(1))
    ultimately show False by (simp only: list.set empty_iff)
  qed
  then show ?case by (simp add: linA_Nil)
next
  case (Cons a as)
  have "a \<in> set (filter (isCall h) xs)" using arg_cong[OF Cons.prems(2), of set_mset] by auto
  then have a: "a \<in> set xs" "isCall h a" by auto
  obtain us vs ws where x: "xs = us @ a # vs @ retOf h a # ws" "nmatch (h ! a) = Some (retOf h a)" "retOf h a < a"
    "\<And>b. b \<in> set us \<longleftrightarrow> b \<in> set xs \<and> a < b" using orderly_call[OF Cons.prems(1) a] by metis
  have calls: "isCall h c" if c: "c \<in> set us" for c
  proof (rule ccontr)
    assume n: "\<not> isCall h c"
    have "c \<in> set xs" "a < c" using c x(4) by auto
    then obtain b where b: "b \<in> set xs" "nmatch (h ! b) = Some c" using n Cons.prems(1) unfolding orderly_def isCall_def by blast
    then have "b \<in> set (a # as)" using arg_cong[OF Cons.prems(2), of set_mset] by (auto simp: isCall_def)
    moreover have "retOf h b = c" using b(2) by (simp add: retOf_def)
    ultimately show False using Cons.prems(3) \<open>a < c\<close> x(3) by auto
  qed
  obtain s' where s': "step s (the (nvalue (h ! a))) (the (nvalue (h ! retOf h a))) = (True, s')" "legalA step h s' as"
    using Cons.prems(4) by (auto split: prod.splits)
  have "mset as = mset (filter (isCall h) (without h (nid (h ! a)) xs))"
    using Cons.prems(2) calls_without[OF Cons.prems(1) a] by simp
  then have "linA step h (without h (nid (h ! a)) xs) s'"
    using Cons.IH[OF orderly_without[OF Cons.prems(1)]] Cons.prems(3) s'(2) by simp
  moreover have "\<forall>b \<in> set us. isCall h b" using calls by blast
  ultimately show ?case using linA_Call[where step = step and s = s and s' = s' and us = us and a = a, OF x(1) _ x(2) s'(1)] by blast
qed

text \<open>If \<open>f\<close> gives the operation of a call, with the same order, the search decides linearizability.\<close>

lemma linA_linearizable:
  assumes ord: "orderly h xs"
    and val: "\<And>a. a \<in> set xs \<Longrightarrow> isCall h a \<Longrightarrow> Input (f a) = the (nvalue (h ! a)) \<and> Output (f a) = the (nvalue (h ! retOf h a))"
    and rel: "\<And>a b. a \<in> set xs \<Longrightarrow> isCall h a \<Longrightarrow> b \<in> set xs \<Longrightarrow> isCall h b \<Longrightarrow> a < retOf h b \<longleftrightarrow> Return (f b) < Call (f a)"
  shows "linA step h xs s \<longleftrightarrow> linearizable step s (map f (filter (isCall h) xs))"
proof -
  have leg: "legal step s (map f as) \<longleftrightarrow> legalA step h s as" if "set as \<subseteq> set (filter (isCall h) xs)" for as s
    using that
  proof (induction as arbitrary: s)
    case (Cons a as)
    then have "Input (f a) = the (nvalue (h ! a)) \<and> Output (f a) = the (nvalue (h ! retOf h a))" using val[of a] by simp
    then show ?case using Cons by (simp split: prod.split)
  qed simp
  have srt: "sorted_wrt (\<lambda>p q. \<not> Return q < Call p) (map f as) \<longleftrightarrow> sorted_wrt (\<lambda>a b. \<not> a < retOf h b) as"
    if "set as \<subseteq> set (filter (isCall h) xs)" for as
    using that
  proof (induction as)
    case (Cons a as)
    then have "\<forall>b \<in> set as. a < retOf h b \<longleftrightarrow> Return (f b) < Call (f a)" using rel by auto
    then show ?case using Cons by auto
  qed simp
  have sub: "set as \<subseteq> set (filter (isCall h) xs)" if "mset as = mset (filter (isCall h) xs)" for as
    using arg_cong[OF that, of set_mset] by simp
  show ?thesis
  proof
    assume "linA step h xs s"
    from linA_order[OF this ord] obtain as where as: "mset as = mset (filter (isCall h) xs)" "sorted_wrt (\<lambda>a b. \<not> a < retOf h b) as" "legalA step h s as"
      by blast
    have "mset (map f as) = mset (map f (filter (isCall h) xs))" using as(1) by simp
    then show "linearizable step s (map f (filter (isCall h) xs))"
      unfolding linearizable_def using as(2,3) leg[OF sub[OF as(1)], of s] srt[OF sub[OF as(1)]] by (intro exI[of _ "map f as"]) simp
  next
    assume "linearizable step s (map f (filter (isCall h) xs))"
    then obtain ps where ps: "mset ps = mset (map f (filter (isCall h) xs))" "sorted_wrt (\<lambda>p q. \<not> Return q < Call p) ps" "legal step s ps"
      unfolding linearizable_def by blast
    have "mset ps = image_mset f (mset (filter (isCall h) xs))" using ps(1) by simp
    from mset_map_inv[OF this] obtain as where as: "mset as = mset (filter (isCall h) xs)" "map f as = ps" by blast
    show "linA step h xs s"
      by (rule order_linA[OF ord as(1)]) (use ps(2,3) leg[OF sub[OF as(1)], of s] srt[OF sub[OF as(1)]] as(2) in simp_all)
  qed
qed

section \<open>The list that is built\<close>

text \<open>Every operation has one call and, later, one return.\<close>

definition wfEntries :: "'v entry list \<Rightarrow> bool" where
  "wfEntries es \<longleftrightarrow> distinct (map (\<lambda>e. (kind e, eid e)) es) \<and>
     (\<forall>i < length es. kind (es ! i) = callEntry \<longrightarrow>
        (\<exists>j. i < j \<and> j < length es \<and> kind (es ! j) = returnEntry \<and> eid (es ! j) = eid (es ! i))) \<and>
     (\<forall>e \<in> set es. kind e = returnEntry \<longrightarrow> (\<exists>c \<in> set es. kind c = callEntry \<and> eid c = eid e))"

lemma retAddr_Some:
  assumes "retAddr es i = Some r"
  shows "r < length es \<and> kind (rev es ! r) = returnEntry \<and> eid (rev es ! r) = i"
  using assms
proof (induction es)
  case (Cons e es)
  then show ?case by (cases "kind e = returnEntry \<and> eid e = i") (auto simp: nth_append split: if_splits)
qed simp

lemma retAddr_None: "retAddr es i = None \<Longrightarrow> e \<in> set es \<Longrightarrow> kind e = returnEntry \<Longrightarrow> eid e \<noteq> i"
  by (induction es) (auto split: if_splits)

lemma callEntry_iff: "k \<noteq> returnEntry \<longleftrightarrow> k = callEntry"
  by (cases k) auto

lemma built_match:
  assumes b: "\<forall>a < length es. holds h es a" and wf: "wfEntries es" and a: "a < length es" "kind (rev es ! a) = callEntry"
  obtains r where "nmatch (h ! a) = Some r" "r < a" "kind (rev es ! r) = returnEntry" "eid (rev es ! r) = eid (rev es ! a)"
proof -
  let ?n = "length es"
  let ?i = "?n - Suc a"
  let ?ws = "drop (?n - a) es"
  have i: "?i < ?n" "Suc ?i = ?n - a" "es ! ?i = rev es ! a" using a(1) by (auto simp: rev_nth)
  then obtain j where j: "?i < j" "j < ?n" "kind (es ! j) = returnEntry" "eid (es ! j) = eid (rev es ! a)"
    using wf a(2) unfolding wfEntries_def by metis
  have "?ws ! (j - (?n - a)) = es ! j" "j - (?n - a) < length ?ws" using j(1,2) i(2) a(1) by auto
  then have jw: "es ! j \<in> set ?ws" by (metis nth_mem)
  have "retAddr ?ws (eid (rev es ! a)) \<noteq> None" using retAddr_None[OF _ jw j(3)] j(4) by blast
  then obtain r where r: "retAddr ?ws (eid (rev es ! a)) = Some r" by blast
  have "holds h es a" using b a(1) by simp
  then have "nmatch (h ! a) = Some r" using a(2) r by (simp add: holds_def Let_def)
  moreover have w: "r < length ?ws" "kind (rev ?ws ! r) = returnEntry" "eid (rev ?ws ! r) = eid (rev es ! a)"
    using retAddr_Some[OF r] by auto
  moreover have "length ?ws = a" using a(1) by simp
  moreover have "rev es = rev ?ws @ rev (take (?n - a) es)" by (metis append_take_drop_id rev_append)
  then have "rev es ! r = rev ?ws ! r" using w(1) by (metis length_rev nth_append)
  ultimately show thesis using that[of r] by simp
qed

lemma entry_unique:
  assumes "wfEntries es" "a < length es" "b < length es" "kind (rev es ! a) = kind (rev es ! b)" "eid (rev es ! a) = eid (rev es ! b)"
  shows "a = b"
proof -
  have "distinct (rev (map (\<lambda>e. (kind e, eid e)) es))" using assms(1) by (simp add: wfEntries_def)
  then have "distinct (map (\<lambda>e. (kind e, eid e)) (rev es))" by (simp add: rev_map)
  from distinct_conv_nth[THEN iffD1, OF this] show ?thesis using assms(2-5) by auto
qed

lemma built_fields:
  assumes "\<forall>a < length es. holds h es a" "a < length es"
  shows "nvalue (h ! a) = Some (evalue (rev es ! a))" "nid (h ! a) = eid (rev es ! a)"
    "kind (rev es ! a) = returnEntry \<Longrightarrow> nmatch (h ! a) = None"
  using assms by (auto simp: holds_def Let_def)

lemma built_isCall:
  assumes "\<forall>a < length es. holds h es a" "wfEntries es" "a < length es"
  shows "isCall h a \<longleftrightarrow> kind (rev es ! a) = callEntry"
proof (cases "kind (rev es ! a)")
  case callEntry
  then show ?thesis using built_match[OF assms callEntry] by (auto simp: isCall_def)
next
  case returnEntry
  then show ?thesis using built_fields(3)[OF assms(1,3)] by (simp add: isCall_def)
qed

lemma upt_split: "r < n \<Longrightarrow> [0..<n] = [0..<r] @ r # [Suc r..<n]"
  using upt_add_eq_append[of 0 r "n - r"] upt_conv_Cons[of r n] by simp

lemma split_down:
  assumes "r < a" "a < n"
  shows "rev [0..<n] = rev [Suc a..<n] @ a # rev [Suc r..<a] @ r # rev [0..<r]"
  unfolding upt_split[OF assms(2)] unfolding upt_split[OF assms(1)] by simp

lemma built_orderly:
  assumes b: "\<forall>a < length es. holds h es a" and wf: "wfEntries es"
  shows "orderly h (rev [0..<length es])"
proof -
  let ?n = "length es" and ?xs = "rev [0..<length es]"
  have dom: "x \<in> set ?xs \<longleftrightarrow> x < ?n" for x by auto
  have match: "nid (h ! r) = nid (h ! a) \<and> nmatch (h ! r) = None \<and> r < a \<and> kind (rev es ! a) = callEntry \<and> kind (rev es ! r) = returnEntry"
    if a: "a < ?n" and m: "nmatch (h ! a) = Some r" for a r
  proof -
    have k: "kind (rev es ! a) = callEntry" using built_isCall[OF b wf a] m by (simp add: isCall_def)
    then have "r < a" "kind (rev es ! r) = returnEntry" "eid (rev es ! r) = eid (rev es ! a)" using built_match[OF b wf a k] m by auto
    then show ?thesis using built_fields[OF b a] built_fields[OF b, of r] a k by simp
  qed
  have pair: "a = c \<or> nmatch (h ! a) = Some c \<or> nmatch (h ! c) = Some a" if ac: "a < ?n" "c < ?n" and eq: "nid (h ! a) = nid (h ! c)" for a c
  proof -
    have id: "eid (rev es ! a) = eid (rev es ! c)" using eq built_fields(2)[OF b] ac by simp
    have other: "nmatch (h ! x) = Some y" if x: "x < ?n" "y < ?n" "kind (rev es ! x) = callEntry" "kind (rev es ! y) = returnEntry" "eid (rev es ! x) = eid (rev es ! y)" for x y
    proof -
      obtain r where r: "nmatch (h ! x) = Some r" "r < x" "kind (rev es ! r) = returnEntry" "eid (rev es ! r) = eid (rev es ! x)"
        using built_match[OF b wf x(1,3)] .
      then show ?thesis using entry_unique[OF wf _ x(2), of r] x by simp
    qed
    show ?thesis
    proof (cases "kind (rev es ! a) = kind (rev es ! c)")
      case True
      then show ?thesis using entry_unique[OF wf ac _ id] by blast
    next
      case False
      then consider "kind (rev es ! a) = callEntry" "kind (rev es ! c) = returnEntry"
        | "kind (rev es ! c) = callEntry" "kind (rev es ! a) = returnEntry"
        by (cases "kind (rev es ! a)"; cases "kind (rev es ! c)") simp_all
      then show ?thesis
      proof cases
        case 1
        then show ?thesis using other[OF ac 1 id] by simp
      next
        case 2
        then show ?thesis using other[OF ac(2,1) 2 id[symmetric]] by simp
      qed
    qed
  qed
  have "wfList h ?xs"
    unfolding wfList_def
  proof (intro conjI ballI allI impI)
    show "distinct ?xs" by simp
  next
    fix a r
    assume a: "a \<in> set ?xs" and m: "nmatch (h ! a) = Some r"
    have lt: "a < ?n" using a by (simp only: dom)
    note mt = match[OF lt m]
    then show "nid (h ! r) = nid (h ! a)" "nmatch (h ! r) = None" by blast+
    from mt have "r < a" by blast
    from split_down[OF this lt] show "\<exists>us vs ws. ?xs = us @ a # vs @ r # ws" by blast
  next
    fix a c
    assume "a \<in> set ?xs" "c \<in> set ?xs" "nid (h ! a) = nid (h ! c)"
    then show "a = c \<or> nmatch (h ! a) = Some c \<or> nmatch (h ! c) = Some a" unfolding dom by (rule pair)
  qed
  moreover have "\<exists>x \<in> set ?xs. nmatch (h ! x) = Some c" if c: "c < ?n" "nmatch (h ! c) = None" for c
  proof -
    have k: "kind (rev es ! c) = returnEntry" using built_isCall[OF b wf c(1)] c(2) by (auto simp: isCall_def callEntry_iff[symmetric])
    moreover have "rev es ! c \<in> set es" using c(1) by (metis length_rev nth_mem set_rev)
    ultimately obtain e where e: "e \<in> set es" "kind e = callEntry" "eid e = eid (rev es ! c)" using wf unfolding wfEntries_def by blast
    then obtain x where x: "x < ?n" "rev es ! x = e" by (metis in_set_conv_nth length_rev set_rev)
    then obtain r where r: "nmatch (h ! x) = Some r" "r < x" "kind (rev es ! r) = returnEntry" "eid (rev es ! r) = eid (rev es ! x)"
      using built_match[OF b wf x(1)] e(2) by auto
    then have "r = c" using entry_unique[OF wf _ c(1), of r] x e(3) k by simp
    then show ?thesis using r(1) x(1) dom by blast
  qed
  ultimately show ?thesis unfolding orderly_def by (simp add: sorted_wrt_rev)
qed

lemma built_good:
  assumes hol: "\<forall>a < length es. holds h es a" and wf: "wfEntries es"
    and good: "\<And>c r. c \<in> set es \<Longrightarrow> r \<in> set es \<Longrightarrow> kind c = callEntry \<Longrightarrow> kind r = returnEntry \<Longrightarrow> eid c = eid r \<Longrightarrow> good (evalue c) (evalue r)"
  shows "goodPairs good h (rev [0..<length es])"
  unfolding goodPairs_def
proof (intro ballI allI impI)
  fix a r
  assume "a \<in> set (rev [0..<length es])" and m: "nmatch (h ! a) = Some r"
  then have a: "a < length es" by simp
  have k: "kind (rev es ! a) = callEntry" using built_isCall[OF hol wf a] m by (simp add: isCall_def)
  then have r: "r < a" "kind (rev es ! r) = returnEntry" "eid (rev es ! r) = eid (rev es ! a)" using built_match[OF hol wf a k] m by auto
  have "rev es ! a \<in> set es" "rev es ! r \<in> set es" using a r(1) by (metis length_rev nth_mem order.strict_trans set_rev)+
  then show "\<exists>i v. nvalue (h ! a) = Some i \<and> nvalue (h ! r) = Some v \<and> good i v"
    using good[of "rev es ! a" "rev es ! r"] k r built_fields(1)[OF hol] a by simp
qed

lemma call_ids:
  assumes hol: "\<forall>a < length es. holds h es a" and wf: "wfEntries es" and ids: "eid ` set es = {..<m}"
  shows "mset (map (\<lambda>a. nid (h ! a)) (filter (isCall h) (rev [0..<length es]))) = mset [0..<m]"
proof -
  let ?n = "length es" and ?cs = "filter (isCall h) (rev [0..<length es])"
  have cs: "a \<in> set ?cs \<longleftrightarrow> a < ?n \<and> kind (rev es ! a) = callEntry" for a using built_isCall[OF hol wf, of a] by auto
  have nid: "nid (h ! a) = eid (rev es ! a)" if "a < ?n" for a using built_fields(2)[OF hol that] .
  have mem: "e \<in> set es \<longleftrightarrow> (\<exists>a < ?n. rev es ! a = e)" for e by (metis in_set_conv_nth length_rev set_rev)
  have "inj_on (\<lambda>a. nid (h ! a)) (set ?cs)"
  proof (rule inj_onI)
    fix a b
    assume a: "a \<in> set ?cs" and b: "b \<in> set ?cs" and eq: "nid (h ! a) = nid (h ! b)"
    note ca = cs[THEN iffD1, OF a] cs[THEN iffD1, OF b]
    then show "a = b" using entry_unique[OF wf, of a b] eq nid by simp
  qed
  then have "distinct (map (\<lambda>a. nid (h ! a)) ?cs)" by (simp add: distinct_map)
  moreover have "(\<lambda>a. nid (h ! a)) ` set ?cs = {..<m}"
  proof (intro equalityI subsetI)
    fix i
    assume "i \<in> (\<lambda>a. nid (h ! a)) ` set ?cs"
    then obtain a where a: "a \<in> set ?cs" "i = nid (h ! a)" by blast
    from cs[THEN iffD1, OF a(1)] have lt: "a < ?n" by blast
    then have "rev es ! a \<in> set es" using mem by blast
    then have "i \<in> eid ` set es" unfolding a(2) nid[OF lt] by (rule imageI)
    then show "i \<in> {..<m}" unfolding ids .
  next
    fix i
    assume "i \<in> {..<m}"
    then have "i \<in> eid ` set es" unfolding ids .
    then obtain e where e: "e \<in> set es" "eid e = i" by blast
    have "\<exists>c \<in> set es. kind c = callEntry \<and> eid c = i"
      using wf[unfolded wfEntries_def, THEN conjunct2, THEN conjunct2] e by (cases "kind e") auto
    then obtain c where c: "c \<in> set es" "kind c = callEntry" "eid c = i" by blast
    then obtain a where a: "a < ?n" "rev es ! a = c" using mem by blast
    then have "a \<in> set ?cs" "nid (h ! a) = i" using cs[THEN iffD2, of a] nid[OF a(1)] c by simp_all
    then show "i \<in> (\<lambda>a. nid (h ! a)) ` set ?cs" by blast
  qed
  ultimately show ?thesis using set_eq_iff_mset_eq_distinct[of "map (\<lambda>a. nid (h ! a)) ?cs" "[0..<m]"]
    by (simp add: atLeast0LessThan del: set_filter)
qed

section \<open>The search on a list that was built\<close>

context search_model
begin

lemma checkLoop_done: "nnext (heap S ! head) = None \<Longrightarrow> checkLoop model kill head S = Some (Inr True)"
  by (simp add: checkLoop.simps[of model kill head S] checkStep_def)

lemma checkLoop_fail:
  assumes "nnext (heap S ! head) \<noteq> None" "pos S = Some e" "nmatch (heap S ! e) = None" "stack S = []"
  shows "checkLoop model (\<lambda>_. False) head S = Some (Inr False)"
  using assms by (simp add: checkLoop.simps[of model _ head S] checkStep_def Let_def)

lemma checkSingle_search:
  assumes b: "built es h root" and wf: "wfEntries es" and ids: "\<And>e. e \<in> set es \<Longrightarrow> eid e < length es div 2"
    and good: "\<And>c r. c \<in> set es \<Longrightarrow> r \<in> set es \<Longrightarrow> kind c = callEntry \<Longrightarrow> kind r = returnEntry \<Longrightarrow> eid c = eid r \<Longrightarrow> good (evalue c) (evalue r)"
  obtains h0 where "\<forall>a < length es. holds h0 es a"
    "checkSingle model h root (\<lambda>_. False) = Some (Inr (linA step h0 (rev [0..<length es]) (Init model)))"
proof -
  let ?n = "length es" and ?xs = "rev [0..<length es]"
  let ?node = "\<lparr>nvalue = None, nmatch = None, nid = 2 ^ 64 - 1, nnext = None, nprev = None\<rparr>"
  define h0 where "h0 = insertBefore ?n root (h @ [?node])"
  define N where "N = length (newBitset (?n div 2))"
  define S where "S = \<lparr>heap = h0, lin = newBitset (?n div 2), cache = (\<lambda>_. []), stack = [], cur = Init model, pos = root, turn = 0\<rparr>"
  have len: "length h = ?n" "length h0 = Suc ?n" using b by (auto simp: built_def h0_def)
  have hol: "\<forall>a < ?n. holds h0 es a"
    using b len(1) by (simp add: built_def holds_def h0_def nth_append)
  have cs: "checkSingle model h root (\<lambda>_. False) = checkLoop model (\<lambda>_. False) ?n S"
    by (simp add: checkSingle_def listLength_built[OF b] S_def h0_def len(1) Let_def)
  have dll: "dll h0 ?n ?xs \<and> (?xs \<noteq> [] \<longrightarrow> root = Some (hd ?xs))"
  proof (cases es)
    case Nil
    then show ?thesis using b by (simp add: built_def h0_def insertBefore_def nth_append)
  next
    case (Cons e es')
    then have r: "root = Some (length es')" "dll h (length es') (rev [0..<length es'])" "nprev (h ! length es') = None"
      using b by (auto simp: built_def)
    have rev: "?xs = length es' # rev [0..<length es']" by (simp add: Cons)
    have "length es' < length h" "set (rev [0..<length es']) \<subseteq> {..<length h}" "length es' \<notin> set (rev [0..<length es'])"
      using len Cons by auto
    from insertBefore_front(1)[OF r(3) this(1) r(2) this(2,3), of ?node] show ?thesis
      unfolding h0_def r(1) rev len(1) by simp
  qed
  have "searching step h0 ?n N ?xs ?xs S"
    using dll by (auto simp: searching_def S_def N_def inStore_def sameFields_def cached_def bit_set.new_elems len(2))
  moreover have "wfList h0 ?xs" using built_orderly[OF hol wf] by (simp add: orderly_def)
  moreover have "goodPairs good h0 ?xs" using built_good[OF hol wf] good by blast
  moreover have "nid (h0 ! a) < 64 * N" if "a \<in> set ?xs" for a
  proof -
    have a: "a < ?n" using that by simp
    then have "rev es ! a \<in> set es" by (metis length_rev nth_mem set_rev)
    then show ?thesis using ids built_fields(2)[OF hol a] bit_set.new_cap[of "?n div 2"] unfolding N_def by fastforce
  qed
  ultimately have ex: "explored model step h0 ?n ?xs ?xs ?xs S" if "?xs \<noteq> []"
    using explore[of h0 ?xs N ?n ?xs S "[]" ?xs] that dll by (simp add: S_def)
  have cur: "cur S = Init model" "stack S = []" "heap S = h0" by (simp_all add: S_def)
  have "checkLoop model (\<lambda>_. False) ?n S = Some (Inr (linA step h0 ?xs (Init model)))"
  proof (cases "?xs = []")
    case True
    then have "nnext (heap S ! ?n) = None" using dll cur(3) by simp
    then show ?thesis using checkLoop_done linA_Nil True by metis
  next
    case False
    have nn: "nnext (h0 ! ?n) \<noteq> None" using dll False by (cases ?xs) auto
    from ex[OF False] show ?thesis unfolding explored_def cur(1)
    proof (elim disjE exE conjE)
      fix S'
      assume "(goes model ?n)\<^sup>*\<^sup>* S S'" "nnext (heap S' ! ?n) = None" "linA step h0 ?xs (Init model)"
      then show ?thesis by (simp add: checkLoop_goes checkLoop_done)
    next
      fix K e n
      assume g: "(goes model ?n)\<^sup>*\<^sup>* S (S\<lparr>cache := K, pos := Some e, turn := n\<rparr>)" "nmatch (h0 ! e) = None"
        "noneLeads step h0 ?xs ?xs (Init model)"
      have "\<not> linA step h0 ?xs (Init model)" using linA_leads[OF False, of step h0 "Init model"] g(3) by blast
      moreover have "checkLoop model (\<lambda>_. False) ?n (S\<lparr>cache := K, pos := Some e, turn := n\<rparr>) = Some (Inr False)"
        by (rule checkLoop_fail[of _ _ e]) (use nn g(2) cur in simp_all)
      ultimately show ?thesis unfolding checkLoop_goes[OF g(1)] by simp
    qed
  qed
  with hol cs show thesis using that by simp
qed

lemma checkSingle_linearizable:
  assumes wf: "wfEntries es" and len: "length es = 2 * m" and ids: "eid ` set es = {..<m}"
    and good: "\<And>c r. c \<in> set es \<Longrightarrow> r \<in> set es \<Longrightarrow> kind c = callEntry \<Longrightarrow> kind r = returnEntry \<Longrightarrow> eid c = eid r \<Longrightarrow> good (evalue c) (evalue r)"
    and inp: "\<And>e. e \<in> set es \<Longrightarrow> kind e = callEntry \<Longrightarrow> Input (g (eid e)) = evalue e"
    and out: "\<And>e. e \<in> set es \<Longrightarrow> kind e = returnEntry \<Longrightarrow> Output (g (eid e)) = evalue e"
    and ord: "\<And>i j. i < length es \<Longrightarrow> j < length es \<Longrightarrow> kind (es ! i) = returnEntry \<Longrightarrow> kind (es ! j) = callEntry \<Longrightarrow>
      i < j \<longleftrightarrow> Return (g (eid (es ! i))) < Call (g (eid (es ! j)))"
  shows "(case makeLinkedEntries es of (h, root) \<Rightarrow> checkSingle model h root (\<lambda>_. False)) =
    Some (Inr (linearizable step (Init model) (map g [0..<m])))"
proof -
  let ?n = "length es" and ?xs = "rev [0..<length es]"
  obtain h root where mk: "makeLinkedEntries es = (h, root)" by (meson surj_pair)
  then have b: "built es h root" using makeLinkedEntries_built[of es] by simp
  have bd: "eid e < ?n div 2" if "e \<in> set es" for e using ids that len by auto
  obtain h0 where hol: "\<forall>a < ?n. holds h0 es a"
    and cs: "checkSingle model h root (\<lambda>_. False) = Some (Inr (linA step h0 ?xs (Init model)))"
    using checkSingle_search[OF b wf bd good] by blast
  let ?f = "\<lambda>a. g (nid (h0 ! a))"
  have nth: "rev es ! a \<in> set es" "rev es ! a = es ! (?n - Suc a)" if "a < ?n" for a
    using that nth_mem[of a "rev es"] by (simp_all add: rev_nth)
  have call: "kind (rev es ! a) = callEntry \<and> retOf h0 a < a \<and> kind (rev es ! retOf h0 a) = returnEntry \<and> eid (rev es ! retOf h0 a) = eid (rev es ! a)"
    if a: "a < ?n" "isCall h0 a" for a
  proof -
    have k: "kind (rev es ! a) = callEntry" using built_isCall[OF hol wf a(1)] a(2) by simp
    obtain r where "nmatch (h0 ! a) = Some r" "r < a" "kind (rev es ! r) = returnEntry" "eid (rev es ! r) = eid (rev es ! a)"
      by (rule built_match[OF hol wf a(1) k])
    then show ?thesis using k by (simp add: retOf_def)
  qed
  have "linA step h0 ?xs (Init model) \<longleftrightarrow> linearizable step (Init model) (map ?f (filter (isCall h0) ?xs))"
  proof (rule linA_linearizable[OF built_orderly[OF hol wf]])
    fix a
    assume "a \<in> set ?xs" and c: "isCall h0 a"
    then have a: "a < ?n" by simp
    note ca = call[OF a c]
    then show "Input (?f a) = the (nvalue (h0 ! a)) \<and> Output (?f a) = the (nvalue (h0 ! retOf h0 a))"
      using inp[OF nth(1)[OF a]] out[OF nth(1)[of "retOf h0 a"]] built_fields(1,2)[OF hol a] built_fields(1)[OF hol, of "retOf h0 a"] a by simp
    fix b
    assume "b \<in> set ?xs" and cb': "isCall h0 b"
    then have b: "b < ?n" by simp
    note cb = call[OF b cb']
    then have r: "retOf h0 b < ?n" using b by simp
    have "a < retOf h0 b \<longleftrightarrow> ?n - Suc (retOf h0 b) < ?n - Suc a" using a r by linarith
    also have "\<dots> \<longleftrightarrow> Return (?f b) < Call (?f a)"
      using ord[of "?n - Suc (retOf h0 b)" "?n - Suc a"] ca cb a b r built_fields(2)[OF hol a] built_fields(2)[OF hol b]
      by (simp add: nth(2))
    finally show "a < retOf h0 b \<longleftrightarrow> Return (?f b) < Call (?f a)" .
  qed
  moreover
  have "mset (map ?f (filter (isCall h0) ?xs)) = mset (map g [0..<m])"
    using arg_cong[OF call_ids[OF hol wf ids], of "image_mset g"] by (simp add: image_mset.compositionality comp_def)
  from linearizable_mset[OF this] have "linearizable step (Init model) (map ?f (filter (isCall h0) ?xs)) \<longleftrightarrow>
      linearizable step (Init model) (map g [0..<m])" .
  ultimately show ?thesis unfolding mk prod.case cs by (simp only:)
qed

end

end
