(* ===== verification/Lin_Histories.thy ===== *)
theory Lin_Histories
  imports Lin_Correct
begin

text \<open>
  From histories to verdicts: the entries that \<open>makeEntries\<close> and \<open>convertEntries\<close> make of a history are
  well formed, so the search decides its linearizability; the drivers collect the verdicts of the
  partitions in any order; and the partitions of the key/value model are the operations of each key.
\<close>

section \<open>Histories of operations\<close>

text \<open>What the documentation of \<open>sort.Sort\<close> promises: a permutation of the entries, in the order of time.\<close>

locale time_sort =
  fixes srt :: "'v entry list \<Rightarrow> 'v entry list"
  assumes srt_mset: "mset (srt es) = mset es"
    and srt_time: "sorted (map etime (srt es))"
begin

lemma srt_set: "set (srt es) = set es"
  using arg_cong[OF srt_mset, of set_mset] by simp

lemma srt_length: "length (srt es) = length es"
  using arg_cong[OF srt_mset, of size] by simp

lemma srt_before:
  assumes "i < length (srt es)" "j < length (srt es)" "etime (srt es ! i) < etime (srt es ! j)"
  shows "i < j"
proof (rule ccontr)
  assume "\<not> i < j"
  then have "etime (srt es ! j) \<le> etime (srt es ! i)"
    using sorted_nth_mono[OF srt_time[of es], of j i] assms(1,2) by simp
  then show False using assms(3) by simp
qed

end

interpretation stable_time_sort: time_sort "sort_key etime"
  by unfold_locales simp_all

abbreviation callOf :: "'v Operation list \<Rightarrow> nat \<Rightarrow> 'v entry" where
  "callOf history i \<equiv> \<lparr>kind = callEntry, evalue = Input (history ! i), eid = i, etime = Call (history ! i)\<rparr>"

abbreviation returnOf :: "'v Operation list \<Rightarrow> nat \<Rightarrow> 'v entry" where
  "returnOf history i \<equiv> \<lparr>kind = returnEntry, evalue = Output (history ! i), eid = i, etime = Return (history ! i)\<rparr>"

lemma entriesFrom_eq:
  "entriesFrom k history = concat (map (\<lambda>i. [(callOf history i)\<lparr>eid := k + i\<rparr>, (returnOf history i)\<lparr>eid := k + i\<rparr>]) [0..<length history])"
proof (induction history arbitrary: k)
  case (Cons p history)
  have "[0..<length (p # history)] = 0 # map Suc [0..<length history]" by (simp add: map_Suc_upt upt_conv_Cons del: upt_Suc)
  then show ?case using Cons.IH[of "k + 1"] by (simp add: comp_def del: upt_Suc)
qed simp

lemma entriesFrom_set: "e \<in> set (entriesFrom 0 history) \<longleftrightarrow> (\<exists>i < length history. e = callOf history i \<or> e = returnOf history i)"
  by (auto simp: entriesFrom_eq)

lemma entriesFrom_length: "length (entriesFrom k history) = 2 * length history"
  by (induction history arbitrary: k) simp_all

lemma entriesFrom_ids: "e \<in> set (entriesFrom k history) \<Longrightarrow> k \<le> eid e"
  by (induction history arbitrary: k) fastforce+

lemma entriesFrom_distinct: "distinct (map (\<lambda>e. (kind e, eid e)) (entriesFrom k history))"
proof (induction history arbitrary: k)
  case (Cons p history)
  have "(kd, k) \<notin> (\<lambda>e. (kind e, eid e)) ` set (entriesFrom (k + 1) history)" for kd
    using entriesFrom_ids[of _ "k + 1" history] by fastforce
  then show ?case using Cons.IH[of "k + 1"] by simp
qed simp

context time_sort
begin

lemma makeEntries_wf:
  assumes "\<And>p. p \<in> set history \<Longrightarrow> Call p < Return p"
  shows "wfEntries (makeEntries srt history)"
proof -
  let ?es = "makeEntries srt history"
  have set: "e \<in> set ?es \<longleftrightarrow> (\<exists>i < length history. e = callOf history i \<or> e = returnOf history i)" for e
    by (simp add: makeEntries_def srt_set entriesFrom_set)
  have "mset (map (\<lambda>e. (kind e, eid e)) ?es) = mset (map (\<lambda>e. (kind e, eid e)) (entriesFrom 0 history))"
    by (simp add: makeEntries_def srt_mset)
  then have "distinct (map (\<lambda>e. (kind e, eid e)) ?es)"
    using mset_eq_imp_distinct_iff entriesFrom_distinct by blast
  moreover have "\<exists>j. i < j \<and> j < length ?es \<and> kind (?es ! j) = returnEntry \<and> eid (?es ! j) = eid (?es ! i)"
    if i: "i < length ?es" "kind (?es ! i) = callEntry" for i
  proof -
    have "?es ! i \<in> set ?es" using i(1) by simp
    then obtain k where k: "k < length history" "?es ! i = callOf history k" using i(2) unfolding set by auto
    then have "returnOf history k \<in> set ?es" unfolding set by blast
    then obtain j where j: "j < length ?es" "?es ! j = returnOf history k" by (metis in_set_conv_nth)
    have "etime (?es ! i) < etime (?es ! j)" using assms[of "history ! k"] k j by simp
    then have "i < j" using srt_before i(1) j(1) unfolding makeEntries_def by blast
    then show ?thesis using j k(2) by auto
  qed
  moreover have "\<exists>c \<in> set ?es. kind c = callEntry \<and> eid c = eid e" if e: "e \<in> set ?es" "kind e = returnEntry" for e
  proof -
    obtain k where k: "k < length history" "e = returnOf history k" using e unfolding set by auto
    then have "callOf history k \<in> set ?es" unfolding set by blast
    then show ?thesis using k(2) by (intro bexI[of _ "callOf history k"]) simp_all
  qed
  ultimately show ?thesis unfolding wfEntries_def by blast
qed

end

context search_model
begin

text \<open>
  Operations that end after they begin, none of them at the very moment another begins: the verdict on
  the sorted entries is whether the history is linearizable.
\<close>

lemma check_operations:
  assumes "time_sort srt"
    and ends: "\<And>p. p \<in> set history \<Longrightarrow> Call p \<le> Return p"
    and apart: "\<And>p q. p \<in> set history \<Longrightarrow> q \<in> set history \<Longrightarrow> Return p \<noteq> Call q"
    and good: "\<And>p. p \<in> set history \<Longrightarrow> good (Input p) (Output p)"
  shows "(case makeLinkedEntries (makeEntries srt history) of (h, root) \<Rightarrow> checkSingle model h root (\<lambda>_. False)) =
    Some (Inr (linearizable step (Init model) history))"
proof -
  let ?es = "makeEntries srt history"
  note srt = time_sort.srt_set[OF assms(1)] time_sort.srt_length[OF assms(1)]
  have set: "e \<in> set ?es \<longleftrightarrow> (\<exists>i < length history. e = callOf history i \<or> e = returnOf history i)" for e
    by (simp add: makeEntries_def srt entriesFrom_set)
  have "Call p < Return p" if "p \<in> set history" for p using ends[OF that] apart[OF that that] by simp
  then have wf: "wfEntries ?es" using time_sort.makeEntries_wf[OF assms(1)] by blast
  have len: "length ?es = 2 * length history" by (simp add: makeEntries_def srt entriesFrom_length)
  have ids: "eid ` set ?es = {..<length history}"
  proof (intro set_eqI iffI)
    fix i assume "i \<in> {..<length history}"
    then have "callOf history i \<in> set ?es" unfolding set by blast
    then show "i \<in> eid ` set ?es" by (rule image_eqI[rotated]) simp
  qed (auto simp: set)
  have g: "good (evalue c) (evalue r)" if cr: "c \<in> set ?es" "r \<in> set ?es" "kind c = callEntry" "kind r = returnEntry" "eid c = eid r" for c r
    using cr good unfolding set by auto
  have i: "Input (history ! eid e) = evalue e" if "e \<in> set ?es" "kind e = callEntry" for e
    using that unfolding set by auto
  have out: "Output (history ! eid e) = evalue e" if "e \<in> set ?es" "kind e = returnEntry" for e
    using that unfolding set by auto
  have t: "etime e = (if kind e = callEntry then Call (history ! eid e) else Return (history ! eid e)) \<and> eid e < length history" if "e \<in> set ?es" for e
    using that unfolding set by auto
  have ord: "a < b \<longleftrightarrow> Return (history ! eid (?es ! a)) < Call (history ! eid (?es ! b))"
    if ab: "a < length ?es" "b < length ?es" "kind (?es ! a) = returnEntry" "kind (?es ! b) = callEntry" for a b
  proof -
    have ta: "etime (?es ! a) = Return (history ! eid (?es ! a))" "history ! eid (?es ! a) \<in> set history"
      using t[OF nth_mem[OF ab(1)]] ab(3) by auto
    have tb: "etime (?es ! b) = Call (history ! eid (?es ! b))" "history ! eid (?es ! b) \<in> set history"
      using t[OF nth_mem[OF ab(2)]] ab(4) by auto
    have ne: "etime (?es ! a) \<noteq> etime (?es ! b)" using apart[OF ta(2) tb(2)] ta(1) tb(1) by simp
    have "a < b" if "etime (?es ! a) < etime (?es ! b)"
      by (rule time_sort.srt_before[OF assms(1), of a "entriesFrom 0 history" b, folded makeEntries_def, OF ab(1,2) that])
    moreover have "b < a" if "etime (?es ! b) < etime (?es ! a)"
      by (rule time_sort.srt_before[OF assms(1), of b "entriesFrom 0 history" a, folded makeEntries_def, OF ab(2,1) that])
    ultimately have "a < b \<longleftrightarrow> etime (?es ! a) < etime (?es ! b)" using ne by (meson linorder_neqE not_less_iff_gr_or_eq)
    then show ?thesis unfolding ta(1) tb(1) .
  qed
  have "(case makeLinkedEntries ?es of (h, root) \<Rightarrow> checkSingle model h root (\<lambda>_. False)) =
    Some (Inr (linearizable step (Init model) (map ((!) history) [0..<length history])))"
    by (rule checkSingle_linearizable) (fact wf len ids | erule (4) g | erule (1) i out | erule (3) ord)+
  then show ?thesis by (simp add: map_nth)
qed

end

section \<open>Collecting the verdicts\<close>

text \<open>
  When every partition has a verdict, the collecting loop returns their conjunction, whatever the order
  in which the results arrive.
\<close>

lemma collect_verdicts:
  assumes "set arrivals \<subseteq> {..<length bs}" "arrivals \<noteq> []" "cnt + length arrivals = length bs"
  shows "collect (map (\<lambda>b. Some (Inr b)) bs) timer (map Some arrivals) cnt True = Some (Inr (\<forall>i \<in> set arrivals. bs ! i))"
  using assms
proof (induction arrivals arbitrary: cnt)
  case (Cons i arrivals)
  show ?case
  proof (cases "bs ! i \<and> arrivals \<noteq> []")
    case True
    then have "0 < length arrivals" by blast
    moreover have "Suc (cnt + length arrivals) = length bs" using Cons.prems(3) by simp
    ultimately have l: "Suc cnt < length bs" by linarith
    have "collect (map (\<lambda>b. Some (Inr b)) bs) timer (map Some arrivals) (Suc cnt) True = Some (Inr (\<forall>i \<in> set arrivals. bs ! i))"
      using Cons.IH[of "Suc cnt"] Cons.prems True by simp
    then show ?thesis using Cons.prems(1) l True by simp
  next
    case False
    have i: "i < length bs" using Cons.prems(1) by simp
    show ?thesis
    proof (cases "bs ! i")
      case t: True
      then have "arrivals = []" using False by blast
      then show ?thesis using Cons.prems(3) t i by simp
    next
      case f: False
      then show ?thesis using i by simp
    qed
  qed
qed simp

lemma collect_all:
  assumes "mset arrivals = mset [0..<length bs]" "bs \<noteq> []"
  shows "collect (map (\<lambda>b. Some (Inr b)) bs) timer (map Some arrivals) 0 True = Some (Inr (\<forall>b \<in> set bs. b))"
proof -
  have s: "set arrivals = {..<length bs}" using mset_eq_setD[OF assms(1)] by (simp add: atLeast0LessThan)
  have l: "length arrivals = length bs" using mset_eq_length[OF assms(1)] by simp
  have "arrivals \<noteq> []" using l assms(2) by auto
  then have "collect (map (\<lambda>b. Some (Inr b)) bs) timer (map Some arrivals) 0 True = Some (Inr (\<forall>i \<in> set arrivals. bs ! i))"
    by (intro collect_verdicts) (simp_all add: s l)
  moreover have "(\<forall>i \<in> {..<length bs}. bs ! i) \<longleftrightarrow> (\<forall>b \<in> set bs. b)" 
    unfolding all_set_conv_all_nth[of bs "\<lambda>b. b"] by blast
  ultimately show ?thesis unfolding s by presburger
qed

text \<open>Without a partition there is nothing to wait for but the timer.\<close>

lemma collect_nothing: "collect [] False sched cnt ok = None"
proof (induction sched)
  case (Cons a sched)
  then show ?case by (cases a) simp_all
qed simp

text \<open>
  Whatever arrives and whenever the timer fires: the loop does not panic, and it says no only if the
  verdict on some partition is no.
\<close>

lemma collect_no:
  assumes "collect (map (\<lambda>b. Some (Inr b)) bs) timer sched cnt True = Some r"
  shows "\<exists>b. r = Inr b \<and> ((\<forall>v \<in> set bs. v) \<longrightarrow> b)"
  using assms
proof (induction sched arbitrary: cnt)
  case (Cons a sched)
  let ?runs = "map (\<lambda>b. Some (Inr b)) bs"
  show ?case
  proof (cases a)
    case None
    show ?thesis
    proof (cases timer)
      case True
      then have "r = Inr True" using Cons.prems None by simp
      then show ?thesis by blast
    next
      case False
      then show ?thesis using Cons.prems None by (intro Cons.IH[of cnt]) simp
    qed
  next
    case (Some i)
    consider (skip) "\<not> i < length bs" | (no) "i < length bs" "\<not> bs ! i" | (yes) "i < length bs" "bs ! i" by blast
    then show ?thesis
    proof cases
      case skip
      then show ?thesis using Cons.prems Some by (intro Cons.IH[of cnt]) simp
    next
      case no
      then have "r = Inr False" using Cons.prems Some by simp
      then show ?thesis using no nth_mem[of i bs] by blast
    next
      case yes
      then have "(if length bs \<le> Suc cnt then Some (Inr True) else collect ?runs timer sched (Suc cnt) True) = Some r"
        using Cons.prems Some by simp
      then show ?thesis using Cons.IH[of "Suc cnt"] by (cases "length bs \<le> Suc cnt") auto
    qed
  qed
qed simp

end
