(* ===== verification/Lin_Events.thy ===== *)
theory Lin_Events
  imports Lin_Histories
begin

text \<open>
  Histories of events: the renumbering of \<open>renumber\<close> is injective and uses an initial segment of the
  numbers, so the entries of \<open>convertEntries\<close> are well formed, and the search decides the
  linearizability of the operations whose times are the positions of their events.
\<close>

section \<open>The operations of a history of events\<close>

definition wfEvents :: "'v Event list \<Rightarrow> bool" where
  "wfEvents events \<longleftrightarrow> distinct (map (\<lambda>e. (Kind e, Id e)) events) \<and>
     (\<forall>i < length events. Kind (events ! i) = CallEvent \<longrightarrow>
        (\<exists>j < length events. i < j \<and> Kind (events ! j) = ReturnEvent \<and> Id (events ! j) = Id (events ! i))) \<and>
     (\<forall>e \<in> set events. Kind e = ReturnEvent \<longrightarrow> (\<exists>c \<in> set events. Kind c = CallEvent \<and> Id c = Id e))"

definition posOf :: "EventKind \<Rightarrow> nat \<Rightarrow> 'v Event list \<Rightarrow> nat" where
  "posOf kd i events = length (takeWhile (\<lambda>e. \<not> (Kind e = kd \<and> Id e = i)) events)"

definition eventOp :: "'v Event list \<Rightarrow> nat \<Rightarrow> 'v Operation" where
  "eventOp events i =
     \<lparr>Input = EvValue (events ! posOf CallEvent i events), Call = int (posOf CallEvent i events),
      Output = EvValue (events ! posOf ReturnEvent i events), Return = int (posOf ReturnEvent i events)\<rparr>"

definition eventOps :: "'v Event list \<Rightarrow> 'v Operation list" where
  "eventOps events = map (\<lambda>e. eventOp events (Id e)) (filter (\<lambda>e. Kind e = CallEvent) events)"

lemma posOf_nth:
  assumes "wfEvents events" "p < length events"
  shows "posOf (Kind (events ! p)) (Id (events ! p)) events = p"
proof -
  let ?P = "\<lambda>e. \<not> (Kind e = Kind (events ! p) \<and> Id e = Id (events ! p))"
  have "?P (events ! q)" if "q < p" for q
    using assms that unfolding wfEvents_def distinct_conv_nth by fastforce
  then have "takeWhile ?P events = take p events"
    using assms(2) by (intro takeWhile_eq_take_P_nth) auto
  then show ?thesis using assms(2) by (simp add: posOf_def)
qed

section \<open>Renumbering\<close>

fun renaming :: "(nat \<rightharpoonup> nat) \<Rightarrow> nat \<Rightarrow> 'v Event list \<Rightarrow> (nat \<rightharpoonup> nat)" where
  "renaming m k [] = m"
| "renaming m k (v # events) =
     (case m (Id v) of Some r \<Rightarrow> renaming m k events | None \<Rightarrow> renaming (m(Id v \<mapsto> k)) (k + 1) events)"

lemma renaming_extends: "m i = Some r \<Longrightarrow> renaming m k events i = Some r"
proof (induction events arbitrary: m k)
  case (Cons v events)
  then show ?case by (cases "m (Id v)") (auto intro!: Cons.IH)
qed simp

lemma renumberFrom_renaming:
  "renumberFrom m k events = map (\<lambda>v. \<lparr>Kind = Kind v, EvValue = EvValue v, Id = the (renaming m k events (Id v))\<rparr>) events"
proof (induction events arbitrary: m k)
  case (Cons v events)
  show ?case
  proof (cases "m (Id v)")
    case None
    then have "renaming (m(Id v \<mapsto> k)) (k + 1) events (Id v) = Some k" by (intro renaming_extends) simp
    then show ?thesis using None by (simp add: Cons.IH del: fun_upd_apply)
  next
    case (Some r)
    then show ?thesis using Cons.IH renaming_extends[of m "Id v" r k events, OF Some] by simp
  qed
qed simp

lemma renaming_inj:
  assumes "inj_on m (dom m)" "m ` dom m = Some ` {..<k}"
  shows "\<exists>n. inj_on (renaming m k events) (dom (renaming m k events)) \<and>
    renaming m k events ` dom (renaming m k events) = Some ` {..<n} \<and>
    dom (renaming m k events) = dom m \<union> Id ` set events"
  using assms
proof (induction events arbitrary: m k)
  case (Cons v events)
  show ?case
  proof (cases "m (Id v)")
    case None
    let ?m = "m(Id v \<mapsto> k)"
    have k: "Some k \<notin> m ` dom m" using Cons.prems(2) by auto
    have nd: "Id v \<notin> dom m" using None by auto
    have "inj_on ?m (dom m)" using inj_on_fun_updI[OF Cons.prems(1) k] .
    moreover have "?m ` (dom m - {Id v}) = m ` dom m" using nd by (intro image_cong) auto
    ultimately have "inj_on ?m (dom ?m)" using k by (simp add: inj_on_insert)
    moreover have "?m ` dom ?m = Some ` {..<k + 1}"
    proof -
      have "?m ` dom m = m ` dom m" using nd by (intro image_cong) auto
      moreover have "dom ?m = insert (Id v) (dom m)" "?m (Id v) = Some k" by simp_all
      ultimately have "?m ` dom ?m = insert (Some k) (Some ` {..<k})" using Cons.prems(2) by (metis image_insert)
      then show ?thesis by (simp add: lessThan_Suc)
    qed
    ultimately obtain n where "inj_on (renaming ?m (k + 1) events) (dom (renaming ?m (k + 1) events))"
      "renaming ?m (k + 1) events ` dom (renaming ?m (k + 1) events) = Some ` {..<n}"
      "dom (renaming ?m (k + 1) events) = dom ?m \<union> Id ` set events"
      using Cons.IH by meson
    moreover have "renaming m k (v # events) = renaming ?m (k + 1) events" using None by simp
    moreover have "dom ?m \<union> Id ` set events = dom m \<union> Id ` set (v # events)" by simp
    ultimately show ?thesis by metis
  next
    case (Some r)
    then have "renaming m k (v # events) = renaming m k events" "dom m \<union> Id ` set (v # events) = dom m \<union> Id ` set events" by auto
    then show ?thesis using Cons.IH[OF Cons.prems] by metis
  qed
qed auto

text \<open>What \<open>renumber\<close> does: it renames the identifiers one to one, onto an initial segment of the numbers.\<close>

lemma renumber_bij:
  obtains f where "renumber events = map (\<lambda>v. \<lparr>Kind = Kind v, EvValue = EvValue v, Id = f (Id v)\<rparr>) events"
    "bij_betw f (Id ` set events) {..<card (Id ` set events)}"
proof -
  let ?r = "renaming Map.empty 0 events"
  obtain n where n: "inj_on ?r (dom ?r)" "?r ` dom ?r = Some ` {..<n}" "dom ?r = Id ` set events"
    using renaming_inj[of Map.empty 0 events] by auto
  have "inj_on (\<lambda>i. the (?r i)) (Id ` set events)"
    using n(1) unfolding n(3)[symmetric] inj_on_def by (metis domIff option.expand)
  moreover have im: "(\<lambda>i. the (?r i)) ` (Id ` set events) = {..<n}"
  proof -
    have "(\<lambda>i. the (?r i)) ` dom ?r = the ` (?r ` dom ?r)" by (simp only: image_image)
    then show ?thesis unfolding n(2) by (simp only: n(3) image_image option.sel image_ident)
  qed
  ultimately have "n = card (Id ` set events)" using card_image by fastforce
  then have "bij_betw (\<lambda>i. the (?r i)) (Id ` set events) {..<card (Id ` set events)}"
    using im \<open>inj_on (\<lambda>i. the (?r i)) (Id ` set events)\<close> by (simp add: bij_betw_def)
  then show ?thesis by (rule that[rotated]) (simp add: renumber_def renumberFrom_renaming)
qed

section \<open>The verdict\<close>

text \<open>The entries of a renumbered history: the events with the renamed identifiers.\<close>

definition renamed :: "(nat \<Rightarrow> nat) \<Rightarrow> 'v Event \<Rightarrow> 'v entry" where
  "renamed f v = \<lparr>kind = (if Kind v = ReturnEvent then returnEntry else callEntry), evalue = EvValue v, eid = f (Id v), etime = -1\<rparr>"

lemma renamed_simps [simp]:
  "kind (renamed f v) = callEntry \<longleftrightarrow> Kind v = CallEvent" "kind (renamed f v) = returnEntry \<longleftrightarrow> Kind v = ReturnEvent"
  "evalue (renamed f v) = EvValue v" "eid (renamed f v) = f (Id v)"
  by (cases "Kind v"; simp add: renamed_def)+

lemma convertEntries_renumber:
  obtains f where "convertEntries (renumber events) = map (renamed f) events"
    "bij_betw f (Id ` set events) {..<card (Id ` set events)}"
proof -
  obtain f where f: "renumber events = map (\<lambda>v. \<lparr>Kind = Kind v, EvValue = EvValue v, Id = f (Id v)\<rparr>) events"
    "bij_betw f (Id ` set events) {..<card (Id ` set events)}"
    by (rule renumber_bij)
  then show ?thesis using that[of f] by (simp add: convertEntries_def renamed_def)
qed

lemma renamed_key:
  assumes "inj_on f (Id ` set events)" "v \<in> set events" "w \<in> set events"
  shows "(kind (renamed f v), eid (renamed f v)) = (kind (renamed f w), eid (renamed f w)) \<longleftrightarrow> (Kind v, Id v) = (Kind w, Id w)"
  using inj_onD[OF assms(1)] assms(2,3) by (cases "Kind v"; cases "Kind w") (auto simp: renamed_def)

lemma renamed_wf:
  assumes "wfEvents events" "inj_on f (Id ` set events)"
  shows "wfEntries (map (renamed f) events)"
proof -
  have "distinct (map (\<lambda>e. (Kind e, Id e)) events)" using assms(1) by (simp add: wfEvents_def)
  then have "distinct events" "inj_on (\<lambda>e. (Kind e, Id e)) (set events)" by (simp_all add: distinct_map)
  moreover have "inj_on (\<lambda>v. (kind (renamed f v), eid (renamed f v))) (set events)"
    using calculation(2) renamed_key[OF assms(2)] unfolding inj_on_def by blast
  ultimately have "distinct (map (\<lambda>e. (kind e, eid e)) (map (renamed f) events))"
    unfolding map_map comp_def by (simp add: distinct_map)
  moreover have "\<exists>j. i < j \<and> j < length events \<and> Kind (events ! j) = ReturnEvent \<and> f (Id (events ! j)) = f (Id (events ! i))"
    if i: "i < length events" "Kind (events ! i) = CallEvent" for i
    using assms(1) i unfolding wfEvents_def by metis
  moreover have "\<exists>c \<in> set events. Kind c = CallEvent \<and> f (Id c) = f (Id e)" if e: "e \<in> set events" "Kind e = ReturnEvent" for e
    using assms(1) e unfolding wfEvents_def by metis
  ultimately show ?thesis unfolding wfEntries_def by (intro conjI allI impI) (force simp: nth_map)+
qed

text \<open>Every identifier has one call and one return.\<close>

lemma both_events:
  assumes "wfEvents events" "i \<in> Id ` set events"
  shows "(kd, i) \<in> (\<lambda>e. (Kind e, Id e)) ` set events"
proof -
  obtain e where e: "e \<in> set events" "Id e = i" using assms(2) by blast
  obtain c where c: "c \<in> set events" "Kind c = CallEvent" "Id c = i"
    using assms(1) e unfolding wfEvents_def by (metis (full_types) EventKind.exhaust)
  then obtain p where p: "p < length events" "events ! p = c" by (metis in_set_conv_nth)
  then obtain j where j: "j < length events" "Kind (events ! j) = ReturnEvent" "Id (events ! j) = i"
    using assms(1) c unfolding wfEvents_def by metis
  then have "events ! j \<in> set events" by simp
  then have "(Kind c, Id c) \<in> (\<lambda>e. (Kind e, Id e)) ` set events"
    "(Kind (events ! j), Id (events ! j)) \<in> (\<lambda>e. (Kind e, Id e)) ` set events"
    using c(1) by blast+
  then show ?thesis unfolding c(2,3) j(2,3) by (cases kd) simp_all
qed

lemma wfEvents_length:
  assumes "wfEvents events"
  shows "length events = 2 * card (Id ` set events)"
proof -
  let ?key = "\<lambda>e. (Kind e, Id e)"
  have "?key ` set events = {CallEvent, ReturnEvent} \<times> Id ` set events"
  proof (intro set_eqI iffI)
    fix x assume "x \<in> ?key ` set events"
    then obtain e where "e \<in> set events" "x = (Kind e, Id e)" by blast
    then show "x \<in> {CallEvent, ReturnEvent} \<times> Id ` set events" by (cases "Kind e") simp_all
  next
    fix x assume "x \<in> {CallEvent, ReturnEvent} \<times> Id ` set events"
    then show "x \<in> ?key ` set events" using both_events[OF assms, of "snd x" "fst x"] by auto
  qed
  then have "card (?key ` set events) = 2 * card (Id ` set events)" by (simp add: card_cartesian_product)
  moreover have "card (?key ` set events) = length events"
    using assms distinct_card[of "map ?key events"] by (simp add: wfEvents_def)
  ultimately show ?thesis by simp
qed

lemma eventOps_mset:
  assumes "wfEvents events" "bij_betw f (Id ` set events) {..<m}"
  shows "mset (map (\<lambda>r. eventOp events (inv_into (Id ` set events) f r)) [0..<m]) = mset (eventOps events)"
proof -
  let ?calls = "filter (\<lambda>e. Kind e = CallEvent) events" and ?ids = "Id ` set events"
  let ?g = "inv_into ?ids f"
  have s: "set (map Id ?calls) = ?ids"
    using both_events[OF assms(1), of _ CallEvent] by fastforce
  have "distinct (map (\<lambda>e. (Kind e, Id e)) ?calls)" using assms(1) unfolding wfEvents_def by (blast intro: distinct_map_filter)
  moreover have "map (\<lambda>e. (Kind e, Id e)) ?calls = map (Pair CallEvent) (map Id ?calls)" by simp
  ultimately have d: "distinct (map Id ?calls)" using distinct_map by metis
  have b: "bij_betw ?g {..<m} ?ids" using assms(2) by (rule bij_betw_inv_into)
  then have "distinct (map ?g [0..<m])" "set (map ?g [0..<m]) = ?ids"
    by (simp_all add: distinct_map bij_betw_def atLeast0LessThan)
  then have "mset (map ?g [0..<m]) = mset (map Id ?calls)" using s d set_eq_iff_mset_eq_distinct by metis
  then have "mset (map (eventOp events) (map ?g [0..<m])) = mset (map (eventOp events) (map Id ?calls))"
    by (metis mset_map)
  then show ?thesis by (simp add: eventOps_def comp_def)
qed

lemma eventOp_fields:
  assumes "wfEvents events" "p < length events"
  shows "Kind (events ! p) = CallEvent \<Longrightarrow> Input (eventOp events (Id (events ! p))) = EvValue (events ! p) \<and> Call (eventOp events (Id (events ! p))) = int p"
    "Kind (events ! p) = ReturnEvent \<Longrightarrow> Output (eventOp events (Id (events ! p))) = EvValue (events ! p) \<and> Return (eventOp events (Id (events ! p))) = int p"
  using posOf_nth[OF assms] by (simp_all add: eventOp_def)

context search_model
begin

lemma check_events:
  assumes wf: "wfEvents events"
    and good: "\<And>c r. c \<in> set events \<Longrightarrow> r \<in> set events \<Longrightarrow> Kind c = CallEvent \<Longrightarrow> Kind r = ReturnEvent \<Longrightarrow> Id c = Id r \<Longrightarrow> good (EvValue c) (EvValue r)"
  shows "(case makeLinkedEntries (convertEntries (renumber events)) of (h, root) \<Rightarrow> checkSingle model h root (\<lambda>_. False)) =
    Some (Inr (linearizable step (Init model) (eventOps events)))"
proof -
  let ?ids = "Id ` set events"
  obtain f where f: "convertEntries (renumber events) = map (renamed f) events" "bij_betw f ?ids {..<card ?ids}"
    by (rule convertEntries_renumber)
  have inj: "inj_on f ?ids" using f(2) by (simp add: bij_betw_def)
  let ?es = "map (renamed f) events" and ?g = "\<lambda>r. eventOp events (inv_into ?ids f r)"
  have inv: "?g (f (Id (events ! p))) = eventOp events (Id (events ! p))" if "p < length events" for p
    using inv_into_f_f[OF inj, of "Id (events ! p)"] that by simp
  have len: "length ?es = 2 * card ?ids" using wfEvents_length[OF wf] by simp
  have ids: "eid ` set ?es = {..<card ?ids}" using f(2) by (simp add: bij_betw_def image_image)
  have g: "good (evalue c) (evalue r)" if cr: "c \<in> set ?es" "r \<in> set ?es" "kind c = callEntry" "kind r = returnEntry" "eid c = eid r" for c r
  proof -
    obtain v w where "v \<in> set events" "c = renamed f v" "w \<in> set events" "r = renamed f w" using cr(1,2) by auto
    then show ?thesis using cr(3-5) good[of v w] inj_onD[OF inj, of "Id v" "Id w"] by simp
  qed
  have i: "Input (?g (eid e)) = evalue e" if "e \<in> set ?es" "kind e = callEntry" for e
    using that inv eventOp_fields(1)[OF wf] by (auto simp: in_set_conv_nth)
  have out: "Output (?g (eid e)) = evalue e" if "e \<in> set ?es" "kind e = returnEntry" for e
    using that inv eventOp_fields(2)[OF wf] by (auto simp: in_set_conv_nth)
  have ord: "a < b \<longleftrightarrow> Return (?g (eid (?es ! a))) < Call (?g (eid (?es ! b)))"
    if "a < length ?es" "b < length ?es" "kind (?es ! a) = returnEntry" "kind (?es ! b) = callEntry" for a b
    using that inv eventOp_fields[OF wf] by simp
  have "(case makeLinkedEntries ?es of (h, root) \<Rightarrow> checkSingle model h root (\<lambda>_. False)) =
    Some (Inr (linearizable step (Init model) (map ?g [0..<card ?ids])))"
    by (rule checkSingle_linearizable) (fact renamed_wf[OF wf inj] len ids | erule (4) g | erule (1) i out | erule (3) ord)+
  moreover have "linearizable step (Init model) (map ?g [0..<card ?ids]) = linearizable step (Init model) (eventOps events)"
    by (rule linearizable_mset[OF eventOps_mset[OF wf f(2)]])
  ultimately show ?thesis unfolding f(1) by simp
qed

end

end
