(* ===== verification/Lin_Kv.thy ===== *)
theory Lin_Kv
  imports Lin_Events
begin

text \<open>
  The key/value model of \<open>linearizability/models.go\<close>: its partitions are the operations of each key,
  its step is the specification \<open>kvObject\<close> of one key, and the verdict of \<open>CheckOperations\<close> is whether
  the history is linearizable with respect to the store of all keys.
\<close>

section \<open>The specification\<close>

text \<open>
  One key of the store: a get returns the value, a put replaces it, an append extends it. The store maps
  every key to such an object, at first empty.
\<close>

fun kvObject :: "string \<Rightarrow> kv_value \<Rightarrow> kv_value \<Rightarrow> bool \<times> string" where
  "kvObject val (KvIn i) (KvOut v) =
     (if Op i = 0 then (OutValue v = val, val)
      else if Op i = 1 then (True, KvValue i)
      else (True, val @ KvValue i))"
| "kvObject val _ _ = (False, val)"

fun kvKey :: "kv_value \<Rightarrow> string" where
  "kvKey (KvIn i) = KvKey i"
| "kvKey (KvOut _) = ''''"

fun kvPair :: "kv_value \<Rightarrow> kv_value \<Rightarrow> bool" where
  "kvPair (KvIn _) (KvOut _) = True"
| "kvPair _ _ = False"

definition kvLinearizable :: "kv_value Operation list \<Rightarrow> bool" where
  "kvLinearizable history = linearizable (storeStep kvKey kvObject) (\<lambda>_. '''') history"

lemma kvPair_iff: "kvPair a b \<longleftrightarrow> (\<exists>i v. a = KvIn i \<and> b = KvOut v)"
  by (cases a; cases b) simp_all

lemma kvModel_filled:
  "Step (fillDefault (KvModel rng)) = KvStep" "Equal (fillDefault (KvModel rng)) = Some (=)"
  "Init (fillDefault (KvModel rng)) = ''''" "Partition (fillDefault (KvModel rng)) = Some (KvPartition rng)"
  by (simp_all add: fillDefault_def KvModel_def Let_def ShallowEqual_def fun_eq_iff)

interpretation kv: search_model "fillDefault (KvModel rng)" kvObject "(=)" kvPair for rng
  by unfold_locales (auto simp: kvModel_filled kvPair_iff KvStep_def)

section \<open>Partitions\<close>

lemma addOps:
  assumes "\<forall>p \<in> set history. \<exists>i. Input p = KvIn i" "distinct (map fst m)"
  shows "\<exists>m'. foldR addOp history m = Inr m' \<and> distinct (map fst m') \<and>
    (\<forall>k. map_of m' k = (case onKey kvKey k history of [] \<Rightarrow> map_of m k
       | ps \<Rightarrow> Some ((case map_of m k of None \<Rightarrow> [] | Some ops \<Rightarrow> ops) @ onKey kvKey k history)))"
  using assms
proof (induction history arbitrary: m)
  case (Cons p history)
  obtain i where i: "Input p = KvIn i" using Cons.prems(1) by auto
  let ?old = "case map_of m (KvKey i) of None \<Rightarrow> [] | Some ops \<Rightarrow> ops"
  let ?m = "AList.update (KvKey i) (?old @ [p]) m"
  have add: "addOp p m = Inr ?m" using i by (simp add: addOp_def Let_def)
  have "distinct (map fst ?m)" using Cons.prems(2) by (rule distinct_update)
  then obtain m' where m': "foldR addOp history ?m = Inr m'" "distinct (map fst m')"
    "\<forall>k. map_of m' k = (case onKey kvKey k history of [] \<Rightarrow> map_of ?m k
       | ps \<Rightarrow> Some ((case map_of ?m k of None \<Rightarrow> [] | Some ops \<Rightarrow> ops) @ onKey kvKey k history))"
    using Cons.IH[of ?m] Cons.prems(1) by auto
  have "map_of m' k = (case onKey kvKey k (p # history) of [] \<Rightarrow> map_of m k
       | ps \<Rightarrow> Some ((case map_of m k of None \<Rightarrow> [] | Some ops \<Rightarrow> ops) @ onKey kvKey k (p # history)))" for k
    using m'(3)[rule_format, of k] i by (simp add: update_conv' split: list.split)
  then show ?case using m'(1,2) add by auto
qed simp

lemma collect_values: "foldl (\<lambda>ret (k, v). ret @ [v]) acc xs = acc @ map snd xs"
  by (induction xs arbitrary: acc) auto

text \<open>The partitions are the operations of each key that occurs, in the order of the history.\<close>

lemma KvPartition_keys:
  assumes "map_range rng" "\<forall>p \<in> set history. \<exists>i. Input p = KvIn i"
  obtains parts where "KvPartition rng history = Inr parts"
    "set parts = {ps. ps \<noteq> [] \<and> (\<exists>k. ps = onKey kvKey k history)}"
proof -
  obtain m where m: "foldR addOp history [] = Inr m" "distinct (map fst m)"
    "\<forall>k. map_of m k = (case onKey kvKey k history of [] \<Rightarrow> None | ps \<Rightarrow> Some (onKey kvKey k history))"
    using addOps[OF assms(2), of "[]", unfolded map_of.simps option.case append_Nil] by auto
  have "set (map snd (rng m)) = snd ` set m" by (simp add: map_range.rng_set[OF assms(1)])
  also have "\<dots> = {ps. \<exists>k. map_of m k = Some ps}"
    using m(2) by (force simp: image_iff intro: map_of_is_SomeI dest: map_of_SomeD)
  also have "\<dots> = {ps. ps \<noteq> [] \<and> (\<exists>k. ps = onKey kvKey k history)}"
  proof -
    have "map_of m k = Some ps \<longleftrightarrow> ps \<noteq> [] \<and> ps = onKey kvKey k history" for k ps
      by (cases "onKey kvKey k history") (auto simp: m(3))
    then show ?thesis by auto
  qed
  finally have "set (map snd (rng m)) = {ps. ps \<noteq> [] \<and> (\<exists>k. ps = onKey kvKey k history)}" .
  moreover have "KvPartition rng history = Inr (map snd (rng m))" by (simp add: KvPartition_def m(1) collect_values)
  ultimately show ?thesis using that by blast
qed

section \<open>The verdict\<close>

text \<open>
  A history a test records: every operation carries an input and an output of the model and ends after
  it begins, and no operation ends at the very moment another begins.
\<close>

definition kvHistory :: "kv_value Operation list \<Rightarrow> bool" where
  "kvHistory history \<longleftrightarrow>
     list_all (\<lambda>p. kvPair (Input p) (Output p) \<and> Call p \<le> Return p \<and> list_all (\<lambda>q. Return p \<noteq> Call q) history) history"

lemma kvHistoryD:
  assumes "kvHistory history" "p \<in> set history"
  shows "kvPair (Input p) (Output p)" "Call p \<le> Return p" "q \<in> set history \<Longrightarrow> Return p \<noteq> Call q"
  using assms unfolding kvHistory_def list_all_iff by blast+

lemma kvHistory_part:
  assumes "kvHistory history"
  shows "kvHistory (onKey kvKey k history)"
  using kvHistoryD[OF assms] unfolding kvHistory_def list_all_iff by simp

lemma linearizable_nothing: "linearizable step s []"
  by (simp add: linearizable_def)

text \<open>The search decides the linearizability of one partition.\<close>

lemma checkPart:
  assumes "time_sort srt" "kvHistory history"
  shows "(case makeLinkedEntries (makeEntries srt history) of (h, root) \<Rightarrow> checkSingle (fillDefault (KvModel rng)) h root (\<lambda>_. False)) =
    Some (Inr (linearizable kvObject '''' history))"
  using kv.check_operations[OF assms(1), of history] kvHistoryD[OF assms(2)] unfolding kvModel_filled by blast

lemma kv_parts:
  assumes "map_range rng" "kvHistory history"
  obtains parts where "KvPartition rng history = Inr parts" "parts = [] \<longleftrightarrow> history = []"
    "\<forall>ps \<in> set parts. kvHistory ps" "(\<forall>ps \<in> set parts. linearizable kvObject '''' ps) \<longleftrightarrow> kvLinearizable history"
proof -
  have "\<forall>p \<in> set history. \<exists>i. Input p = KvIn i" using kvHistoryD(1)[OF assms(2)] unfolding kvPair_iff by blast
  then obtain parts where parts: "KvPartition rng history = Inr parts"
    "set parts = {ps. ps \<noteq> [] \<and> (\<exists>k. ps = onKey kvKey k history)}"
    by (rule KvPartition_keys[OF assms(1)])
  have "onKey kvKey (kvKey (Input p)) history \<in> set parts" if "p \<in> set history" for p
    using that unfolding parts(2) by (auto simp: filter_empty_conv)
  then have e: "parts = [] \<longleftrightarrow> history = []"
    using parts(2) by (cases history) force+
  have w: "\<forall>ps \<in> set parts. kvHistory ps" unfolding parts(2) using kvHistory_part[OF assms(2)] by blast
  have "(\<forall>ps \<in> set parts. linearizable kvObject '''' ps) \<longleftrightarrow> (\<forall>k. linearizable kvObject '''' (onKey kvKey k history))"
  proof (intro iffI allI)
    fix k assume "\<forall>ps \<in> set parts. linearizable kvObject [] ps"
    then show "linearizable kvObject [] (onKey kvKey k history)"
      unfolding parts(2) using linearizable_nothing by (cases "onKey kvKey k history = []") auto
  qed (auto simp: parts(2))
  also have "\<dots> \<longleftrightarrow> kvLinearizable history"
    unfolding kvLinearizable_def using kvHistoryD(2)[OF assms(2)] by (subst linearizable_local) simp_all
  finally show ?thesis using that parts(1) e w by blast
qed

lemma kv_runs:
  assumes "time_sort srt" "\<forall>ps \<in> set parts. kvHistory ps"
  shows "map (\<lambda>p. let (h, l) = makeLinkedEntries (makeEntries srt p) in checkSingle (fillDefault (KvModel rng)) h l (\<lambda>_. False)) parts =
    map (\<lambda>b. Some (Inr b)) (map (linearizable kvObject '''') parts)"
  using checkPart[OF assms(1), of _ rng] assms(2) unfolding Let_def map_map by (intro map_cong) simp_all

lemma kv_verdict:
  assumes "time_sort srt" "map_range rng" "kvHistory history" "history \<noteq> []" "KvPartition rng history = Inr parts"
    "mset arrivals = mset [0..<length parts]"
  shows "CheckOperationsTimeout srt (map Some arrivals) (KvModel rng) history timeout = Some (Inr (kvLinearizable history))"
proof -
  obtain ps where ps: "KvPartition rng history = Inr ps" "ps = [] \<longleftrightarrow> history = []" "\<forall>p \<in> set ps. kvHistory p"
    "(\<forall>p \<in> set ps. linearizable kvObject '''' p) \<longleftrightarrow> kvLinearizable history"
    by (rule kv_parts[OF assms(2,3)])
  have eq: "ps = parts" using ps(1) assms(5) by simp
  let ?run = "\<lambda>p. let (h, l) = makeLinkedEntries (makeEntries srt p) in checkSingle (fillDefault (KvModel rng)) h l (\<lambda>_. False)"
  have r: "map ?run parts = map (\<lambda>b. Some (Inr b)) (map (linearizable kvObject '''') parts)"
    using ps(3) unfolding eq by (rule kv_runs[OF assms(1)])
  have c: "collect (map (\<lambda>b. Some (Inr b)) (map (linearizable kvObject '''') parts)) (0 < timeout) (map Some arrivals) 0 True =
    Some (Inr (\<forall>b \<in> set (map (linearizable kvObject '''') parts). b))"
    using assms(4,6) ps(2) unfolding eq by (intro collect_all) simp_all
  have "collect (map ?run parts) (0 < timeout) (map Some arrivals) 0 True = Some (Inr (kvLinearizable history))"
    unfolding r c using ps(4) unfolding eq by simp
  then show ?thesis unfolding CheckOperationsTimeout_def Let_def kvModel_filled callFn_def by (simp add: assms(5))
qed

text \<open>Whatever arrives, and even when the timer fires first: a linearizable history is never rejected.\<close>

lemma kv_never_rejects:
  assumes "time_sort srt" "map_range rng" "kvHistory history"
    and "CheckOperationsTimeout srt sched (KvModel rng) history timeout = Some r"
  shows "\<exists>b. r = Inr b \<and> (kvLinearizable history \<longrightarrow> b)"
proof -
  obtain ps where ps: "KvPartition rng history = Inr ps" "ps = [] \<longleftrightarrow> history = []" "\<forall>p \<in> set ps. kvHistory p"
    "(\<forall>p \<in> set ps. linearizable kvObject '''' p) \<longleftrightarrow> kvLinearizable history"
    by (rule kv_parts[OF assms(2,3)])
  have "collect (map (\<lambda>b. Some (Inr b)) (map (linearizable kvObject '''') ps)) (0 < timeout) sched 0 True = Some r"
    using assms(4) unfolding kv_runs[OF assms(1) ps(3), of rng, symmetric] CheckOperationsTimeout_def Let_def kvModel_filled callFn_def
    by (simp add: ps(1))
  from collect_no[OF this] show ?thesis using ps(4) by auto
qed

end
