(* ===== verification/Lin_Properties.thy ===== *)
theory Lin_Properties
  imports Lin_Kv
begin

text \<open>
  What the linearizability checker guarantees: its verdict on a history of key/value operations is the
  right one, with a timeout it still never rejects a linearizable history, the lists and bit sets it
  works on behave as they should, and where it does not return.
\<close>

section \<open>Examples\<close>

abbreviation putOp :: "string \<Rightarrow> string \<Rightarrow> int \<Rightarrow> int \<Rightarrow> kv_value Operation" where
  "putOp k v c r \<equiv> \<lparr>Input = KvIn \<lparr>Op = 1, KvKey = k, KvValue = v\<rparr>, Call = c, Output = KvOut \<lparr>OutValue = ''''\<rparr>, Return = r\<rparr>"

abbreviation getOp :: "string \<Rightarrow> string \<Rightarrow> int \<Rightarrow> int \<Rightarrow> kv_value Operation" where
  "getOp k v c r \<equiv> \<lparr>Input = KvIn \<lparr>Op = 0, KvKey = k, KvValue = ''''\<rparr>, Call = c, Output = KvOut \<lparr>OutValue = v\<rparr>, Return = r\<rparr>"






section \<open>The verdict\<close>





text \<open>
  C28. Histories of events: the model has no \<open>PartitionEvent\<close>, so \<open>CheckEvents\<close> checks all events as
  operations on one object, whatever their keys. Its verdict is whether the operations, timed by the
  positions of their events, are linearizable with respect to that single object, which is not
  linearizability of the store: in the example a get of \<open>b\<close> after a put on \<open>a\<close> is rejected.
\<close>

theorem events_checker:
  assumes "wfEvents events"
    "\<And>c r. c \<in> set events \<Longrightarrow> r \<in> set events \<Longrightarrow> Kind c = CallEvent \<Longrightarrow> Kind r = ReturnEvent \<Longrightarrow> Id c = Id r \<Longrightarrow>
       kvPair (EvValue c) (EvValue r)"
  shows "CheckEvents [Some 0] (KvModel rng) events = Some (Inr (linearizable kvObject '''' (eventOps events)))"
proof -
  let ?m = "fillDefault (KvModel rng)"
  have "PartitionEvent ?m = Some NoPartitionEvent" by (simp add: fillDefault_def KvModel_def Let_def)
  moreover have "(case makeLinkedEntries (convertEntries (renumber events)) of (h, l) \<Rightarrow> checkSingle ?m h l (\<lambda>_. False)) =
    Some (Inr (linearizable kvObject '''' (eventOps events)))"
    using kv.check_events[OF assms(1), of rng] assms(2) unfolding kvModel_filled by blast
  ultimately show ?thesis
    by (cases "linearizable kvObject '''' (eventOps events)")
      (simp_all add: CheckEvents_def CheckEventsTimeout_def Let_def callFn_def NoPartitionEvent_def)
qed

abbreviation twoKeys :: "kv_value Event list" where
  "twoKeys \<equiv> [\<lparr>Kind = CallEvent, EvValue = KvIn \<lparr>Op = 1, KvKey = ''a'', KvValue = ''1''\<rparr>, Id = 7\<rparr>,
     \<lparr>Kind = ReturnEvent, EvValue = KvOut \<lparr>OutValue = ''''\<rparr>, Id = 7\<rparr>,
     \<lparr>Kind = CallEvent, EvValue = KvIn \<lparr>Op = 0, KvKey = ''b'', KvValue = ''''\<rparr>, Id = 9\<rparr>,
     \<lparr>Kind = ReturnEvent, EvValue = KvOut \<lparr>OutValue = ''''\<rparr>, Id = 9\<rparr>]"

lemma twoKeys_ops: "eventOps twoKeys = [putOp ''a'' ''1'' 0 1, getOp ''b'' '''' 2 3]"
  by (simp add: eventOps_def eventOp_def posOf_def)

lemma linearizable_twice:
  "linearizable step s [p, q] \<longleftrightarrow> \<not> Return q < Call p \<and> legal step s [p, q] \<or> \<not> Return p < Call q \<and> legal step s [q, p]"
proof -
  have "mset ps = mset [p, q] \<longleftrightarrow> ps = [p, q] \<or> ps = [q, p]" for ps
  proof
    assume m: "mset ps = mset [p, q]"
    then have "length ps = Suc (Suc 0)" using mset_eq_length[OF m] by simp
    then obtain a b where "ps = [a, b]" by (metis length_0_conv length_Suc_conv)
    then show "ps = [p, q] \<or> ps = [q, p]" using m by (auto simp: add_eq_conv_ex)
  next
    assume "ps = [p, q] \<or> ps = [q, p]"
    then show "mset ps = mset [p, q]" by (elim disjE) (simp_all add: add_mset_commute)
  qed
  then have "linearizable step s [p, q] \<longleftrightarrow> (\<exists>ps. (ps = [p, q] \<or> ps = [q, p]) \<and> sorted_wrt (\<lambda>p q. \<not> Return q < Call p) ps \<and> legal step s ps)"
    by (simp only: linearizable_def)
  then show ?thesis by (simp only: ex_disj_distrib conj_disj_distribR simp_thms) simp
qed

theorem events_checker_witness:
  "CheckEvents [Some 0] (KvModel (\<lambda>al. al)) twoKeys = Some (Inr False) \<and> kvLinearizable (eventOps twoKeys)"
proof
  have "wfEvents twoKeys" by (simp add: wfEvents_def All_less_Suc Ex_less_Suc numeral_eq_Suc)
  moreover have "\<not> linearizable kvObject '''' (eventOps twoKeys)" by (simp add: twoKeys_ops linearizable_twice)
  ultimately show "CheckEvents [Some 0] (KvModel (\<lambda>al. al)) twoKeys = Some (Inr False)"
    by (subst events_checker) auto
  show "kvLinearizable (eventOps twoKeys)"
    by (simp add: twoKeys_ops kvLinearizable_def linearizable_twice storeStep_def)
qed

text \<open>
  C29. An empty history: the partition of the key/value model has no parts, no verdict ever arrives, and
  without a timeout \<open>CheckOperations\<close> waits forever, whatever happens.
\<close>

theorem empty_history_never_returns:
  assumes "map_range rng"
  shows "CheckOperations srt sched (KvModel rng) [] = None"
proof -
  have "rng [] = []" using map_range.rng_mset[OF assms, of "[]"] by simp
  then show ?thesis
    by (simp add: CheckOperations_def CheckOperationsTimeout_def Let_def kvModel_filled callFn_def KvPartition_def collect_nothing)
qed

theorem empty_history_never_returns_witness:
  "CheckOperations (sort_key etime) [None, Some 0, None] (KvModel rev) [] = None"
  by (rule empty_history_never_returns[OF reverse_order.map_range_axioms])

section \<open>The data structures of the search\<close>

text \<open>
  C30. The bit sets implement sets of numbers: a new one is empty and has room for the numbers it was made
  for; setting, clearing and testing a number in its range do so on the set, and panic outside it; the
  population count (five lines of masks, shifts and one multiplication) is the size of the set,
  modulo two to the 64; and two bit sets of the same length are equal when their sets are.
\<close>

theorem bitset_refines_set:
  "bits (newBitset n) = {} \<and> n \<le> 64 * length (newBitset n) \<and>
   map_sum id bits (bset b i) = (if i < 64 * length b then Inr (insert i (bits b)) else Inl IndexOutOfRange) \<and>
   map_sum id bits (bclear b i) = (if i < 64 * length b then Inr (bits b - {i}) else Inl IndexOutOfRange) \<and>
   bget b i = (if i < 64 * length b then Inr (i \<in> bits b) else Inl IndexOutOfRange) \<and>
   popcnt b = of_nat (card (bits b)) \<and>
   (equals b b2 \<longleftrightarrow> length b = length b2 \<and> bits b = bits b2) \<and> clone b = b"
proof (intro conjI)
  have out: "bset b i = Inl IndexOutOfRange \<and> bclear b i = Inl IndexOutOfRange \<and> bget b i = Inl IndexOutOfRange" if i: "\<not> i < 64 * length b"
  proof -
    have "length b \<le> i div 64" using i by (simp add: less_eq_div_iff_mult_less_eq mult.commute)
    then have "idx b (int (i div 64)) = Inl IndexOutOfRange" by (simp add: idx_def)
    then show ?thesis by (simp only: bset_def bclear_def bget_def bitsetIndex_def Let_def split bindR_simps)
  qed
  show "map_sum id bits (bset b i) = (if i < 64 * length b then Inr (insert i (bits b)) else Inl IndexOutOfRange)"
    using out bit_set.add_elems[of i b] by (cases "i < 64 * length b") force+
  show "map_sum id bits (bclear b i) = (if i < 64 * length b then Inr (bits b - {i}) else Inl IndexOutOfRange)"
    using out bit_set.remove_elems[of i b] by (cases "i < 64 * length b") force+
  show "bget b i = (if i < 64 * length b then Inr (i \<in> bits b) else Inl IndexOutOfRange)"
    using out bit_set.member_elems[of i b] by (cases "i < 64 * length b") simp_all
  show "equals b b2 \<longleftrightarrow> length b = length b2 \<and> bits b = bits b2" using bits_inj unfolding equals_iff by blast
  show "bits (newBitset n) = {}" "n \<le> 64 * length (newBitset n)" by (rule bit_set.new_elems bit_set.new_cap)+
qed (simp_all only: popcnt_card clone_eq)

text \<open>
  C31. Dancing links: in a doubly linked list in which the return \<open>r\<close> of the call \<open>e\<close> comes after it,
  \<open>lift\<close> takes both out of the list and leaves the order of the other entries, and \<open>unlift\<close> puts them
  back: every pointer of the store is what it was before.
\<close>

theorem unlift_lift:
  assumes "dll h a (us @ e # vs @ r # ws)" "inStore h (a # us @ e # vs @ r # ws)" "nmatch (h ! e) = Some r"
  shows "\<exists>h'. lift e h = Inr h' \<and> dll h' a (us @ vs @ ws) \<and> unlift e h' = Inr h"
proof -
  obtain h' where "lift e h = Inr h'" "dll h' a (us @ vs @ ws)" "unlift e h' = Inr h"
    by (rule lift_ok[OF assms])
  then show ?thesis by blast
qed

abbreviation smallList :: "nat heap" where
  "smallList \<equiv> [\<lparr>nvalue = Some 11, nmatch = None, nid = 0, nnext = None, nprev = Some 1\<rparr>,
     \<lparr>nvalue = Some 10, nmatch = Some 0, nid = 0, nnext = Some 0, nprev = Some 2\<rparr>,
     \<lparr>nvalue = None, nmatch = None, nid = 0, nnext = Some 1, nprev = None\<rparr>]"

theorem unlift_lift_witness:
  "\<exists>h'. lift 1 smallList = Inr h' \<and> dll h' 2 [] \<and> unlift 1 h' = Inr smallList"
proof -
  have "dll smallList 2 ([] @ 1 # [] @ 0 # [])" "nmatch (smallList ! 1) = Some 0" by simp_all
  moreover have "inStore smallList (2 # [] @ 1 # [] @ 0 # [])" by (simp add: inStore_def)
  ultimately have "\<exists>h'. lift 1 smallList = Inr h' \<and> dll h' 2 ([] @ [] @ []) \<and> unlift 1 h' = Inr smallList"
    by (intro unlift_lift)
  then show ?thesis by (simp only: append_Nil)
qed

end
