(* ===== verification/Labrpc.thy ===== *)
theory Labrpc
  imports Go_Prelude "HOL-Library.Word"
begin

text \<open>
  \<open>labrpc/labrpc.go\<close>: a simulated network. A \<open>World\<close> is everything its goroutines share: the network,
  the servers and the objects behind their services (at addresses, since \<open>IsServerDead\<close> compares
  pointers), and one \<open>Call\<close> per call of \<open>ClientEnd.Call\<close>, with the points at which the three goroutines
  of a call can be (the caller, \<open>ProcessReq\<close>, and the goroutine that runs the handler). Every event is
  one critical section or one channel operation; \<open>netExec\<close> gives its effect, \<open>None\<close> where it cannot
  happen. What Go chooses at random (a lost request, a lost reply, which ready case of a \<open>select\<close>) is in
  the event. Time is not modelled: a timer may fire at any moment.

  Names of ends and of servers (\<open>interface{}\<close>) are the types \<open>'e\<close> and \<open>'n\<close>. A message body is the value
  that was encoded into it (\<open>'v\<close>), so that the receiver gets a copy; a handler is a function on the
  state \<open>'o\<close> of its receiver. Two history variables of a call influence nothing: \<open>executed\<close> counts the
  runs of its handler, \<open>produced\<close> is the reply of the last one.
\<close>

section \<open>Services\<close>

datatype gotype = Ptr gotype | Named string

record ('o, 'v) Method =
  MethName :: string \<comment> \<open>\<open>Name\<close>\<close>
  PkgPath :: string
  Ins :: "gotype list"
  NumOut :: nat
  Func :: "'o \<Rightarrow> 'v \<Rightarrow> ('o \<times> 'v) res"

record ('o, 'v) Service =
  svcName :: string \<comment> \<open>\<open>name\<close>\<close>
  rcvr :: nat
  methods :: "string \<rightharpoonup> ('o, 'v) Method"

fun isPtr :: "gotype \<Rightarrow> bool" where
  "isPtr (Ptr _) = True"
| "isPtr (Named _) = False"

text \<open>The condition of \<open>MakeService\<close>, with the short-circuit evaluation that keeps \<open>In(2)\<close> in range.\<close>

definition suitable :: "('o, 'v) Method \<Rightarrow> bool res" where
  "suitable method =
     (if PkgPath method \<noteq> '''' then Inr False
      else if length (Ins method) \<noteq> 3 then Inr False
      else bindR (idx (Ins method) 2) (\<lambda>t.
        if \<not> isPtr t then Inr False
        else if NumOut method \<noteq> 0 then Inr False
        else Inr True))"

definition addMethod :: "('o, 'v) Method \<Rightarrow> (string \<rightharpoonup> ('o, 'v) Method) \<Rightarrow> (string \<rightharpoonup> ('o, 'v) Method) res" where
  "addMethod method table =
     bindR (suitable method) (\<lambda>b. Inr (if b then table(MethName method \<mapsto> method) else table))"

definition MakeService :: "string \<Rightarrow> nat \<Rightarrow> ('o, 'v) Method list \<Rightarrow> ('o, 'v) Service res" where
  "MakeService typeName obj typ =
     bindR (foldR addMethod typ Map.empty) (\<lambda>table. Inr \<lparr>svcName = typeName, rcvr = obj, methods = table\<rparr>)"

section \<open>Messages and servers\<close>

record ('e, 'v) reqMsg =
  reqEnd :: 'e \<comment> \<open>\<open>endname\<close>\<close>
  svcMeth :: string
  argsType :: gotype
  reqArgs :: 'v \<comment> \<open>\<open>args\<close>\<close>

record 'v replyMsg =
  rok :: bool \<comment> \<open>\<open>ok\<close>\<close>
  rval :: "'v option" \<comment> \<open>\<open>reply\<close>\<close>

definition noReply :: "'v replyMsg" where
  "noReply = \<lparr>rok = False, rval = None\<rparr>"

record ('o, 'v) Server =
  services :: "string \<rightharpoonup> ('o, 'v) Service"
  srvCount :: int \<comment> \<open>\<open>count\<close>\<close>

definition MakeServer :: "('o, 'v) Server" where
  "MakeServer = \<lparr>services = Map.empty, srvCount = 0\<rparr>"

definition AddService :: "('o, 'v) Service \<Rightarrow> ('o, 'v) Server \<Rightarrow> ('o, 'v) Server" where
  "AddService svc rs = rs\<lparr>services := (services rs)(svcName svc \<mapsto> svc)\<rparr>"

text \<open>\<open>strings.LastIndex(s, ".")\<close>.\<close>

definition lastDot :: "string \<Rightarrow> int" where
  "lastDot s =
     (if CHR ''.'' \<in> set s then len s - 1 - len (takeWhile (\<lambda>c. c \<noteq> CHR ''.'') (rev s)) else -1)"

text \<open>The locked part of \<open>Server.dispatch\<close>: it counts the request and finds the service.\<close>

definition serverDispatch :: "('e, 'v) reqMsg \<Rightarrow> ('o, 'v) Server \<Rightarrow> (('o, 'v) Server \<times> ('o, 'v) Service \<times> string) res" where
  "serverDispatch req rs =
     (let rs = rs\<lparr>srvCount := srvCount rs + 1\<rparr>;
          dot = lastDot (svcMeth req)
      in bindR (slice_to (svcMeth req) dot) (\<lambda>serviceName.
         bindR (slice_from (svcMeth req) (dot + 1)) (\<lambda>methodName.
           case services rs serviceName of
             Some service \<Rightarrow> Inr (rs, service, methodName)
           | None \<Rightarrow> Inl (LogFatal ''labrpc.Server.dispatch(): unknown service''))))"

text \<open>\<open>Service.dispatch\<close>. \<open>reflect\<close> refuses an argument that is not of the type of the parameter.\<close>

definition serviceDispatch ::
  "('o, 'v) Service \<Rightarrow> string \<Rightarrow> ('e, 'v) reqMsg \<Rightarrow> 'o \<Rightarrow> ('o \<times> 'v replyMsg) res" where
  "serviceDispatch svc methname req obj =
     (case methods svc methname of
        Some method \<Rightarrow>
          bindR (idx (Ins method) 1) (\<lambda>t.
            if t \<noteq> argsType req then Inl (Panicked ''reflect: Call using value of the wrong type'')
            else bindR (Func method obj (reqArgs req)) (\<lambda>(obj, replyv). Inr (obj, \<lparr>rok = True, rval = Some replyv\<rparr>)))
      | None \<Rightarrow> Inl (LogFatal ''labrpc.Service.dispatch(): unknown method''))"

section \<open>The network\<close>

record 'e ClientEnd =
  endname :: 'e

record ('e, 'n) Network =
  reliable :: bool
  longDelays :: bool
  longReordering :: bool
  ends :: "'e \<rightharpoonup> 'e ClientEnd"
  enabled :: "'e \<Rightarrow> bool"
  servers :: "'n \<Rightarrow> nat option"
  connections :: "'e \<Rightarrow> 'n option"
  rpcs :: "32 word" \<comment> \<open>\<open>count\<close>\<close>
  cleaned :: bool \<comment> \<open>\<open>done\<close> is closed\<close>

definition MakeNetwork :: "('e, 'n) Network" where
  "MakeNetwork =
     \<lparr>reliable = True, longDelays = False, longReordering = False, ends = Map.empty, enabled = (\<lambda>_. False),
      servers = (\<lambda>_. None), connections = (\<lambda>_. None), rpcs = 0, cleaned = False\<rparr>"

definition Cleanup :: "('e, 'n) Network \<Rightarrow> ('e, 'n) Network res" where
  "Cleanup rn = (if cleaned rn then Inl (Panicked ''close of closed channel'') else Inr (rn\<lparr>cleaned := True\<rparr>))"

definition Reliable :: "bool \<Rightarrow> ('e, 'n) Network \<Rightarrow> ('e, 'n) Network" where
  "Reliable yes rn = rn\<lparr>reliable := yes\<rparr>"

definition LongReordering :: "bool \<Rightarrow> ('e, 'n) Network \<Rightarrow> ('e, 'n) Network" where
  "LongReordering yes rn = rn\<lparr>longReordering := yes\<rparr>"

definition LongDelays :: "bool \<Rightarrow> ('e, 'n) Network \<Rightarrow> ('e, 'n) Network" where
  "LongDelays yes rn = rn\<lparr>longDelays := yes\<rparr>"

definition ReadEndnameInfo :: "'e \<Rightarrow> ('e, 'n) Network \<Rightarrow> bool \<times> 'n option \<times> nat option \<times> bool \<times> bool" where
  "ReadEndnameInfo e rn =
     (let servername = connections rn e;
          server = (case servername of None \<Rightarrow> None | Some n \<Rightarrow> servers rn n)
      in (enabled rn e, servername, server, reliable rn, longReordering rn))"

definition IsServerDead :: "'e \<Rightarrow> 'n \<Rightarrow> nat \<Rightarrow> ('e, 'n) Network \<Rightarrow> bool" where
  "IsServerDead e servername server rn =
     (if \<not> enabled rn e \<or> servers rn servername \<noteq> Some server then True else False)"

definition MakeEnd :: "'e \<Rightarrow> ('e, 'n) Network \<Rightarrow> ('e, 'n) Network res" where
  "MakeEnd e rn =
     (if ends rn e \<noteq> None then Inl (LogFatal ''MakeEnd: already exists'')
      else Inr (rn\<lparr>ends := (ends rn)(e \<mapsto> \<lparr>endname = e\<rparr>), enabled := (enabled rn)(e := False),
             connections := (connections rn)(e := None)\<rparr>))"

definition AddServer :: "'n \<Rightarrow> nat \<Rightarrow> ('e, 'n) Network \<Rightarrow> ('e, 'n) Network" where
  "AddServer servername rs rn = rn\<lparr>servers := (servers rn)(servername := Some rs)\<rparr>"

definition DeleteServer :: "'n \<Rightarrow> ('e, 'n) Network \<Rightarrow> ('e, 'n) Network" where
  "DeleteServer servername rn = rn\<lparr>servers := (servers rn)(servername := None)\<rparr>"

definition Connect :: "'e \<Rightarrow> 'n \<Rightarrow> ('e, 'n) Network \<Rightarrow> ('e, 'n) Network" where
  "Connect e servername rn = rn\<lparr>connections := (connections rn)(e := Some servername)\<rparr>"

definition Enable :: "'e \<Rightarrow> bool \<Rightarrow> ('e, 'n) Network \<Rightarrow> ('e, 'n) Network" where
  "Enable e yes rn = rn\<lparr>enabled := (enabled rn)(e := yes)\<rparr>"

definition GetCount :: "'n \<Rightarrow> ('o, 'v) Server list \<Rightarrow> ('e, 'n) Network \<Rightarrow> int res" where
  "GetCount servername heap rn =
     (case servers rn servername of None \<Rightarrow> Inl NilDereference | Some rs \<Rightarrow> Inr (srvCount (heap ! rs)))"

definition GetTotalCount :: "('e, 'n) Network \<Rightarrow> int" where
  "GetTotalCount rn = sint (rpcs rn)"

section \<open>Calls in progress\<close>

text \<open>What \<open>ProcessReq\<close> keeps of \<open>ReadEndnameInfo\<close> when the end is enabled and its server exists.\<close>

record 'n endInfo =
  infoName :: 'n \<comment> \<open>\<open>servername\<close>\<close>
  infoServer :: nat \<comment> \<open>\<open>server\<close>\<close>
  infoReliable :: bool
  infoReordering :: bool

datatype ('n, 'v) phase =
    Sending \<comment> \<open>the caller, in the \<open>select\<close> of line 99\<close>
  | Accepted \<comment> \<open>\<open>ProcessReq\<close> about to start\<close>
  | Passing "'n endInfo" \<comment> \<open>line 220\<close>
  | Waiting "'n endInfo" \<comment> \<open>the loop of line 242\<close>
  | Leaving "'n endInfo" "'v replyMsg option" \<comment> \<open>line 262, with the reply if there is one\<close>
  | Answering "'v replyMsg" \<comment> \<open>the message is on its way to the caller, who waits in line 106\<close>
  | Returned bool "'v option"

datatype ('o, 'v) handler =
    Idle
  | Started nat \<comment> \<open>\<open>server.dispatch(req)\<close> has not begun\<close>
  | InService "('o, 'v) Service" string \<comment> \<open>\<open>service.dispatch(methodName, req)\<close> is next\<close>
  | Ready "'v replyMsg" \<comment> \<open>in \<open>ech <- r\<close>\<close>
  | Gone

record ('e, 'n, 'o, 'v) Call =
  req :: "('e, 'v) reqMsg"
  phase :: "('n, 'v) phase"
  handler :: "('o, 'v) handler"
  executed :: nat
  produced :: "'v option"

record ('e, 'n, 'o, 'v) World =
  net :: "('e, 'n) Network"
  srvs :: "('o, 'v) Server list"
  objs :: "'o list"
  calls :: "('e, 'n, 'o, 'v) Call list"
  looping :: bool \<comment> \<open>the goroutine of \<open>MakeNetwork\<close>\<close>

datatype ('e, 'n, 'o, 'v) netEvent =
    SetReliable bool | SetLongReordering bool | SetLongDelays bool | NewEnd 'e | AddSrv 'n nat | DelSrv 'n
  | ConnectEnd 'e 'n | EnableEnd 'e bool | CleanupNet | NewObject 'o | NewServer "('o, 'v) Server"
  | StartCall "('e, 'v) reqMsg"
  | Accept nat | GiveUp nat | LoopExit
  | Lookup nat | Forward nat bool | TakeReply nat | Poll nat | Leave nat bool bool | Deliver nat
  | Dispatch nat | Handle nat

definition setCall :: "nat \<Rightarrow> ('e, 'n, 'o, 'v) Call \<Rightarrow> ('e, 'n, 'o, 'v) World \<Rightarrow> ('e, 'n, 'o, 'v) World" where
  "setCall k c w = w\<lparr>calls := (calls w)[k := c]\<rparr>"

text \<open>The caller: a new request, the two cases of its \<open>select\<close>, and the reply.\<close>

definition startCall :: "('e, 'v) reqMsg \<Rightarrow> ('e, 'n, 'o, 'v) World \<Rightarrow> ('e, 'n, 'o, 'v) World res option" where
  "startCall r w =
     (if ends (net w) (reqEnd r) = None then None
      else Some (Inr (w\<lparr>calls := calls w @ [\<lparr>req = r, phase = Sending, handler = Idle, executed = 0, produced = None\<rparr>]\<rparr>)))"

definition giveUp :: "nat \<Rightarrow> ('e, 'n, 'o, 'v) World \<Rightarrow> ('e, 'n, 'o, 'v) World res option" where
  "giveUp k w =
     (let c = calls w ! k in
      case phase c of
        Sending \<Rightarrow> if cleaned (net w) then Some (Inr (setCall k (c\<lparr>phase := Returned False None\<rparr>) w)) else None
      | _ \<Rightarrow> None)"

definition deliver :: "nat \<Rightarrow> ('e, 'n, 'o, 'v) World \<Rightarrow> ('e, 'n, 'o, 'v) World res option" where
  "deliver k w =
     (let c = calls w ! k in
      case phase c of
        Answering rep \<Rightarrow>
          Some (if rok rep then
                  (case rval rep of
                     None \<Rightarrow> Inl (LogFatal ''ClientEnd.Call(): decode reply'')
                   | Some v \<Rightarrow> Inr (setCall k (c\<lparr>phase := Returned True (Some v)\<rparr>) w))
                else Inr (setCall k (c\<lparr>phase := Returned False None\<rparr>) w))
      | _ \<Rightarrow> None)"

text \<open>The goroutine of \<open>MakeNetwork\<close>: it takes a request and starts \<open>ProcessReq\<close>, or sees that \<open>done\<close> is closed.\<close>

definition accept :: "nat \<Rightarrow> ('e, 'n, 'o, 'v) World \<Rightarrow> ('e, 'n, 'o, 'v) World res option" where
  "accept k w =
     (let c = calls w ! k in
      case phase c of
        Sending \<Rightarrow>
          if looping w
          then Some (Inr ((setCall k (c\<lparr>phase := Accepted\<rparr>) w)\<lparr>net := (net w)\<lparr>rpcs := rpcs (net w) + 1\<rparr>\<rparr>))
          else None
      | _ \<Rightarrow> None)"

definition loopExit :: "('e, 'n, 'o, 'v) World \<Rightarrow> ('e, 'n, 'o, 'v) World res option" where
  "loopExit w = (if looping w \<and> cleaned (net w) then Some (Inr (w\<lparr>looping := False\<rparr>)) else None)"

text \<open>\<open>ProcessReq\<close>, cut at its random choices, at its channel operations and at its critical sections.\<close>

definition noAnswer :: "nat \<Rightarrow> ('e, 'n, 'o, 'v) World \<Rightarrow> ('e, 'n, 'o, 'v) World" where
  "noAnswer k w = setCall k ((calls w ! k)\<lparr>phase := Answering noReply\<rparr>) w"

definition lookup :: "nat \<Rightarrow> ('e, 'n, 'o, 'v) World \<Rightarrow> ('e, 'n, 'o, 'v) World res option" where
  "lookup k w =
     (let c = calls w ! k in
      case phase c of
        Accepted \<Rightarrow>
          (let (en, servername, server, rel, reord) = ReadEndnameInfo (reqEnd (req c)) (net w)
           in Some (Inr (case (en, servername, server) of
                (True, Some n, Some p) \<Rightarrow>
                  setCall k (c\<lparr>phase := Passing \<lparr>infoName = n, infoServer = p, infoReliable = rel, infoReordering = reord\<rparr>\<rparr>) w
              | _ \<Rightarrow> noAnswer k w)))
      | _ \<Rightarrow> None)"

definition forward :: "nat \<Rightarrow> bool \<Rightarrow> ('e, 'n, 'o, 'v) World \<Rightarrow> ('e, 'n, 'o, 'v) World res option" where
  "forward k dropped w =
     (let c = calls w ! k in
      case phase c of
        Passing i \<Rightarrow>
          if dropped then
            (if infoReliable i then None else Some (Inr (setCall k (c\<lparr>phase := Answering noReply\<rparr>) w)))
          else Some (Inr (setCall k (c\<lparr>phase := Waiting i, handler := Started (infoServer i)\<rparr>) w))
      | _ \<Rightarrow> None)"

definition takeReply :: "nat \<Rightarrow> ('e, 'n, 'o, 'v) World \<Rightarrow> ('e, 'n, 'o, 'v) World res option" where
  "takeReply k w =
     (let c = calls w ! k in
      case (phase c, handler c) of
        (Waiting i, Ready r) \<Rightarrow> Some (Inr (setCall k (c\<lparr>phase := Leaving i (Some r), handler := Gone\<rparr>) w))
      | _ \<Rightarrow> None)"

definition poll :: "nat \<Rightarrow> ('e, 'n, 'o, 'v) World \<Rightarrow> ('e, 'n, 'o, 'v) World res option" where
  "poll k w =
     (let c = calls w ! k in
      case phase c of
        Waiting i \<Rightarrow>
          (let serverDead = IsServerDead (reqEnd (req c)) (infoName i) (infoServer i) (net w)
           in Some (Inr (if serverDead then setCall k (c\<lparr>phase := Leaving i None\<rparr>) w else w)))
      | _ \<Rightarrow> None)"

definition leave :: "nat \<Rightarrow> bool \<Rightarrow> bool \<Rightarrow> ('e, 'n, 'o, 'v) World \<Rightarrow> ('e, 'n, 'o, 'v) World res option" where
  "leave k dropped delayed w =
     (let c = calls w ! k in
      case phase c of
        Leaving i reply \<Rightarrow>
          (let serverDead = IsServerDead (reqEnd (req c)) (infoName i) (infoServer i) (net w)
           in case reply of
                None \<Rightarrow> Some (Inr (setCall k (c\<lparr>phase := Answering noReply\<rparr>) w))
              | Some r \<Rightarrow>
                  if serverDead then Some (Inr (setCall k (c\<lparr>phase := Answering noReply\<rparr>) w))
                  else if dropped then
                    (if infoReliable i then None else Some (Inr (setCall k (c\<lparr>phase := Answering noReply\<rparr>) w)))
                  else if delayed then
                    (if infoReordering i then Some (Inr (setCall k (c\<lparr>phase := Answering r\<rparr>) w)) else None)
                  else Some (Inr (setCall k (c\<lparr>phase := Answering r\<rparr>) w)))
      | _ \<Rightarrow> None)"

text \<open>The goroutine of the handler, which goes on when nobody waits for it any more.\<close>

definition dispatch :: "nat \<Rightarrow> ('e, 'n, 'o, 'v) World \<Rightarrow> ('e, 'n, 'o, 'v) World res option" where
  "dispatch k w =
     (let c = calls w ! k in
      case handler c of
        Started p \<Rightarrow>
          Some (bindR (serverDispatch (req c) (srvs w ! p)) (\<lambda>(rs, service, methodName).
            Inr ((setCall k (c\<lparr>handler := InService service methodName\<rparr>) w)\<lparr>srvs := (srvs w)[p := rs]\<rparr>)))
      | _ \<Rightarrow> None)"

definition handle :: "nat \<Rightarrow> ('e, 'n, 'o, 'v) World \<Rightarrow> ('e, 'n, 'o, 'v) World res option" where
  "handle k w =
     (let c = calls w ! k in
      case handler c of
        InService service methodName \<Rightarrow>
          Some (bindR (serviceDispatch service methodName (req c) (objs w ! rcvr service)) (\<lambda>(obj, r).
            Inr ((setCall k (c\<lparr>handler := Ready r, executed := executed c + 1, produced := rval r\<rparr>) w)
                 \<lparr>objs := (objs w)[rcvr service := obj]\<rparr>)))
      | _ \<Rightarrow> None)"

section \<open>Runs\<close>

text \<open>
  The administrative calls hold the mutex for their whole body. A pointer to a server or a receiver
  exists only once the object does.
\<close>

definition onNet :: "(('e, 'n) Network \<Rightarrow> ('e, 'n) Network) \<Rightarrow> ('e, 'n, 'o, 'v) World \<Rightarrow> ('e, 'n, 'o, 'v) World res option" where
  "onNet f w = Some (Inr (w\<lparr>net := f (net w)\<rparr>))"

fun netExec :: "('e, 'n, 'o, 'v) netEvent \<Rightarrow> ('e, 'n, 'o, 'v) World \<Rightarrow> ('e, 'n, 'o, 'v) World res option" where
  "netExec (SetReliable b) w = onNet (Reliable b) w"
| "netExec (SetLongReordering b) w = onNet (LongReordering b) w"
| "netExec (SetLongDelays b) w = onNet (LongDelays b) w"
| "netExec (NewEnd e) w = Some (bindR (MakeEnd e (net w)) (\<lambda>rn. Inr (w\<lparr>net := rn\<rparr>)))"
| "netExec (AddSrv n p) w = (if p < length (srvs w) then onNet (AddServer n p) w else None)"
| "netExec (DelSrv n) w = onNet (DeleteServer n) w"
| "netExec (ConnectEnd e n) w = onNet (Connect e n) w"
| "netExec (EnableEnd e b) w = onNet (Enable e b) w"
| "netExec CleanupNet w = Some (bindR (Cleanup (net w)) (\<lambda>rn. Inr (w\<lparr>net := rn\<rparr>)))"
| "netExec (NewObject ob) w = Some (Inr (w\<lparr>objs := objs w @ [ob]\<rparr>))"
| "netExec (NewServer rs) w = Some (Inr (w\<lparr>srvs := srvs w @ [rs]\<rparr>))"
| "netExec (StartCall r) w = startCall r w"
| "netExec (Accept k) w = (if k < length (calls w) then accept k w else None)"
| "netExec (GiveUp k) w = (if k < length (calls w) then giveUp k w else None)"
| "netExec LoopExit w = loopExit w"
| "netExec (Lookup k) w = (if k < length (calls w) then lookup k w else None)"
| "netExec (Forward k dropped) w = (if k < length (calls w) then forward k dropped w else None)"
| "netExec (TakeReply k) w = (if k < length (calls w) then takeReply k w else None)"
| "netExec (Poll k) w = (if k < length (calls w) then poll k w else None)"
| "netExec (Leave k dropped delayed) w = (if k < length (calls w) then leave k dropped delayed w else None)"
| "netExec (Deliver k) w = (if k < length (calls w) then deliver k w else None)"
| "netExec (Dispatch k) w = (if k < length (calls w) then dispatch k w else None)"
| "netExec (Handle k) w = (if k < length (calls w) then handle k w else None)"

definition initWorld :: "('e, 'n, 'o, 'v) World" where
  "initWorld = \<lparr>net = MakeNetwork, srvs = [], objs = [], calls = [], looping = True\<rparr>"

fun netRun :: "('e, 'n, 'o, 'v) netEvent list \<Rightarrow> ('e, 'n, 'o, 'v) World \<Rightarrow> ('e, 'n, 'o, 'v) World res option" where
  "netRun [] w = Some (Inr w)"
| "netRun (e # es) w = (case netExec e w of Some (Inr w') \<Rightarrow> netRun es w' | r \<Rightarrow> r)"

end
