(* ===== verification/Labrpc_Calls.thy ===== *)
theory Labrpc_Calls
  imports Labrpc
begin

text \<open>
  What the network does with a call, in every run from the initial world: the handler runs at most
  once, the caller gets back what it produced or a failure, a reply is only passed on while the server
  is still in the network, and every step of a call brings it closer to its return.
\<close>

section \<open>The state of a call\<close>

definition finished :: "('o, 'v) handler \<Rightarrow> bool" where
  "finished h = (case h of Ready r \<Rightarrow> True | Gone \<Rightarrow> True | _ \<Rightarrow> False)"

text \<open>
  \<open>callOk c\<close>: which points the goroutines of a call can be at together, and that a positive message on
  its way to the caller is the one the handler produced.
\<close>

definition positive :: "('e, 'n, 'o, 'v) Call \<Rightarrow> 'v replyMsg \<Rightarrow> bool" where
  "positive c m \<longleftrightarrow> rok m \<and> handler c = Gone \<and> rval m = produced c"

definition callOk :: "('e, 'n, 'o, 'v) Call \<Rightarrow> bool" where
  "callOk c \<longleftrightarrow>
     executed c = (if finished (handler c) then 1 else 0) \<and>
     (finished (handler c) \<longleftrightarrow> produced c \<noteq> None) \<and>
     (case handler c of Ready r \<Rightarrow> rok r \<and> rval r = produced c | _ \<Rightarrow> True) \<and>
     (case phase c of
        Sending \<Rightarrow> handler c = Idle
      | Accepted \<Rightarrow> handler c = Idle
      | Passing i \<Rightarrow> handler c = Idle
      | Waiting i \<Rightarrow> handler c \<noteq> Idle \<and> handler c \<noteq> Gone
      | Leaving i None \<Rightarrow> handler c \<noteq> Idle
      | Leaving i (Some r) \<Rightarrow> positive c r
      | Answering m \<Rightarrow> m = noReply \<or> positive c m
      | Returned b v \<Rightarrow> (if b then handler c = Gone \<and> v = produced c else v = None))"

definition worldOk :: "('e, 'n, 'o, 'v) World \<Rightarrow> bool" where
  "worldOk w \<longleftrightarrow> (\<forall>c \<in> set (calls w). callOk c) \<and> (looping w \<or> cleaned (net w))"

lemma worldOk_call: "worldOk w \<Longrightarrow> k < length (calls w) \<Longrightarrow> callOk (calls w ! k)"
  by (simp add: worldOk_def)

lemma callOk_step:
  assumes "callOk c"
  shows
    "phase c = Sending \<Longrightarrow> callOk (c\<lparr>phase := Returned False None\<rparr>)" "phase c = Sending \<Longrightarrow> callOk (c\<lparr>phase := Accepted\<rparr>)"
    "callOk (c\<lparr>phase := Answering noReply\<rparr>)" "phase c = Accepted \<Longrightarrow> callOk (c\<lparr>phase := Passing i\<rparr>)"
    "phase c = Passing i \<Longrightarrow> callOk (c\<lparr>phase := Waiting i, handler := Started p\<rparr>)"
    "phase c = Waiting i \<Longrightarrow> handler c = Ready r \<Longrightarrow> callOk (c\<lparr>phase := Leaving i (Some r), handler := Gone\<rparr>)"
    "phase c = Waiting i \<Longrightarrow> callOk (c\<lparr>phase := Leaving i None\<rparr>)"
    "phase c = Leaving i (Some r) \<Longrightarrow> callOk (c\<lparr>phase := Answering r\<rparr>)"
    "phase c = Answering m \<Longrightarrow> rok m \<Longrightarrow> rval m = Some v \<Longrightarrow> callOk (c\<lparr>phase := Returned True (Some v)\<rparr>)"
    "callOk (c\<lparr>phase := Returned False None\<rparr>)"
    "handler c = Started p \<Longrightarrow> callOk (c\<lparr>handler := InService svc meth\<rparr>)"
    "handler c = InService svc meth \<Longrightarrow> callOk (c\<lparr>handler := Ready \<lparr>rok = True, rval = Some v\<rparr>, executed := executed c + 1, produced := Some v\<rparr>)"
  using assms
  by (auto simp: callOk_def finished_def positive_def noReply_def split: phase.splits option.splits handler.splits if_splits)

section \<open>The moves of a call\<close>

text \<open>What an event does to the call it is about, in the world in which it happens.\<close>

inductive callMove :: "('e, 'n, 'o, 'v) World \<Rightarrow> nat \<Rightarrow> ('e, 'n, 'o, 'v) netEvent \<Rightarrow>
    ('e, 'n, 'o, 'v) Call \<Rightarrow> ('e, 'n, 'o, 'v) Call \<Rightarrow> bool"
  for w k where
  accept: "phase c = Sending \<Longrightarrow> callMove w k (Accept k) c (c\<lparr>phase := Accepted\<rparr>)"
| giveUp: "phase c = Sending \<Longrightarrow> callMove w k (GiveUp k) c (c\<lparr>phase := Returned False None\<rparr>)"
| pass: "phase c = Accepted \<Longrightarrow> callMove w k (Lookup k) c (c\<lparr>phase := Passing i\<rparr>)"
| noServer: "phase c = Accepted \<Longrightarrow> callMove w k (Lookup k) c (c\<lparr>phase := Answering noReply\<rparr>)"
| lost: "phase c = Passing i \<Longrightarrow> callMove w k (Forward k True) c (c\<lparr>phase := Answering noReply\<rparr>)"
| forward: "phase c = Passing i \<Longrightarrow> callMove w k (Forward k False) c (c\<lparr>phase := Waiting i, handler := Started (infoServer i)\<rparr>)"
| takeReply: "phase c = Waiting i \<Longrightarrow> handler c = Ready r \<Longrightarrow> callMove w k (TakeReply k) c (c\<lparr>phase := Leaving i (Some r), handler := Gone\<rparr>)"
| dead: "phase c = Waiting i \<Longrightarrow> callMove w k (Poll k) c (c\<lparr>phase := Leaving i None\<rparr>)"
| fail: "phase c = Leaving i q \<Longrightarrow> callMove w k (Leave k a b) c (c\<lparr>phase := Answering noReply\<rparr>)"
| answer: "phase c = Leaving i (Some r) \<Longrightarrow> enabled (net w) (reqEnd (req c)) \<Longrightarrow>
    servers (net w) (infoName i) = Some (infoServer i) \<Longrightarrow> callMove w k (Leave k a b) c (c\<lparr>phase := Answering r\<rparr>)"
| success: "phase c = Answering m \<Longrightarrow> rok m \<Longrightarrow> rval m = Some v \<Longrightarrow> callMove w k (Deliver k) c (c\<lparr>phase := Returned True (Some v)\<rparr>)"
| failure: "phase c = Answering m \<Longrightarrow> \<not> rok m \<Longrightarrow> callMove w k (Deliver k) c (c\<lparr>phase := Returned False None\<rparr>)"
| dispatch: "handler c = Started p \<Longrightarrow> callMove w k (Dispatch k) c (c\<lparr>handler := InService svc meth\<rparr>)"
| handle: "handler c = InService svc meth \<Longrightarrow>
    serviceDispatch svc meth (req c) (objs w ! rcvr svc) = Inr (obj, \<lparr>rok = True, rval = Some v\<rparr>) \<Longrightarrow>
    callMove w k (Handle k) c (c\<lparr>handler := Ready \<lparr>rok = True, rval = Some v\<rparr>, executed := executed c + 1, produced := Some v\<rparr>)"

inductive_cases callMove_Handle: "callMove w k (Handle j) c c'"

lemma serviceDispatch_reply:
  "serviceDispatch svc meth r ob = Inr (ob', m) \<Longrightarrow> \<exists>v. m = \<lparr>rok = True, rval = Some v\<rparr>"
  by (auto simp: serviceDispatch_def bindR_eq_Inr split: option.splits if_splits)

definition fresh :: "('e, 'v) reqMsg \<Rightarrow> ('e, 'n, 'o, 'v) Call" where
  "fresh r = \<lparr>req = r, phase = Sending, handler = Idle, executed = 0, produced = None\<rparr>"

text \<open>One step of a single call: it makes a move, or (a poll of a live server) stays as it is.\<close>

definition moved :: "('e, 'n, 'o, 'v) World \<Rightarrow> nat \<Rightarrow> ('e, 'n, 'o, 'v) netEvent \<Rightarrow> ('e, 'n, 'o, 'v) World \<Rightarrow> bool" where
  "moved w k e w' \<longleftrightarrow> k < length (calls w) \<and> (\<exists>c. callMove w k e (calls w ! k) c \<and> calls w' = (calls w)[k := c]) \<and>
     cleaned (net w') = cleaned (net w) \<and> looping w' = looping w"

lemma accept_moved: "k < length (calls w) \<Longrightarrow> accept k w = Some (Inr w') \<Longrightarrow> moved w k (Accept k) w'"
  by (auto simp: accept_def moved_def setCall_def Let_def split: phase.splits if_splits intro: callMove.intros)

lemma giveUp_moved: "k < length (calls w) \<Longrightarrow> giveUp k w = Some (Inr w') \<Longrightarrow> moved w k (GiveUp k) w'"
  by (auto simp: giveUp_def moved_def setCall_def Let_def split: phase.splits if_splits intro: callMove.intros)

lemma lookup_moved: "k < length (calls w) \<Longrightarrow> lookup k w = Some (Inr w') \<Longrightarrow> moved w k (Lookup k) w'"
  by (auto simp: lookup_def noAnswer_def moved_def setCall_def Let_def split: phase.splits if_splits prod.splits option.splits bool.splits intro: callMove.intros)

lemma forward_moved: "k < length (calls w) \<Longrightarrow> forward k d w = Some (Inr w') \<Longrightarrow> moved w k (Forward k d) w'"
  by (auto simp: forward_def moved_def setCall_def Let_def split: phase.splits if_splits intro: callMove.intros)

lemma takeReply_moved: "k < length (calls w) \<Longrightarrow> takeReply k w = Some (Inr w') \<Longrightarrow> moved w k (TakeReply k) w'"
  by (auto simp: takeReply_def moved_def setCall_def Let_def split: phase.splits handler.splits intro: callMove.intros)

lemma poll_moved: "k < length (calls w) \<Longrightarrow> poll k w = Some (Inr w') \<Longrightarrow> w' = w \<or> moved w k (Poll k) w'"
  by (auto simp: poll_def moved_def setCall_def Let_def split: phase.splits if_splits intro: callMove.intros)

lemma leave_moved: "k < length (calls w) \<Longrightarrow> leave k a b w = Some (Inr w') \<Longrightarrow> moved w k (Leave k a b) w'"
  by (auto simp: leave_def moved_def setCall_def Let_def IsServerDead_def split: phase.splits if_splits option.splits
      intro: callMove.fail callMove.answer)

lemma deliver_moved: "k < length (calls w) \<Longrightarrow> deliver k w = Some (Inr w') \<Longrightarrow> moved w k (Deliver k) w'"
  by (auto simp: deliver_def moved_def setCall_def Let_def split: phase.splits if_splits option.splits intro: callMove.intros)

lemma dispatch_moved: "k < length (calls w) \<Longrightarrow> dispatch k w = Some (Inr w') \<Longrightarrow> moved w k (Dispatch k) w'"
  by (auto simp: dispatch_def moved_def setCall_def Let_def bindR_eq_Inr split: handler.splits intro: callMove.intros)

lemma handle_moved:
  assumes "k < length (calls w)" "handle k w = Some (Inr w')"
  shows "moved w k (Handle k) w'"
proof -
  let ?c = "calls w ! k"
  obtain svc meth ob r where h: "handler ?c = InService svc meth" "serviceDispatch svc meth (req ?c) (objs w ! rcvr svc) = Inr (ob, r)"
    "w' = (setCall k (?c\<lparr>handler := Ready r, executed := executed ?c + 1, produced := rval r\<rparr>) w)\<lparr>objs := (objs w)[rcvr svc := ob]\<rparr>"
    using assms(2) by (auto simp: handle_def Let_def bindR_eq_Inr split: handler.splits)
  obtain v where v: "r = \<lparr>rok = True, rval = Some v\<rparr>" using serviceDispatch_reply[OF h(2)] by blast
  have "callMove w k (Handle k) ?c (?c\<lparr>handler := Ready r, executed := executed ?c + 1, produced := rval r\<rparr>)"
    using callMove.handle[OF h(1), of w ob v k] h(2) by (simp add: v)
  then show ?thesis using assms(1) h(3) by (auto simp: moved_def setCall_def)
qed

text \<open>Every event leaves the calls alone, adds one, or makes a move of one call.\<close>

lemma netExec_effect:
  assumes "netExec e w = Some (Inr w')"
  shows "calls w' = calls w \<and> (\<forall>k. e \<noteq> Handle k) \<and> (looping w \<or> cleaned (net w) \<longrightarrow> looping w' \<or> cleaned (net w')) \<or>
    (\<exists>r. calls w' = calls w @ [fresh r] \<and> (\<forall>k. e \<noteq> Handle k) \<and> looping w' = looping w \<and> net w' = net w) \<or> (\<exists>k. moved w k e w')"
proof (cases e)
  case (StartCall r)
  then show ?thesis using assms by (auto simp: startCall_def fresh_def split: if_splits)
next
  case (Poll k)
  then have "w' = w \<or> moved w k e w'" using assms poll_moved[of k w w'] by (auto split: if_splits)
  then show ?thesis using Poll by auto
qed (use assms in \<open>auto simp: onNet_def loopExit_def bindR_eq_Inr MakeEnd_def Cleanup_def AddServer_def DeleteServer_def
      Connect_def Enable_def Reliable_def LongReordering_def LongDelays_def split: if_splits
      intro: accept_moved giveUp_moved lookup_moved forward_moved takeReply_moved leave_moved deliver_moved dispatch_moved handle_moved\<close>)

lemma callMove_ok: "callMove w k e c c' \<Longrightarrow> callOk c \<Longrightarrow> callOk c'"
  by (induction rule: callMove.induct) (simp_all add: callOk_step del: One_nat_def add_Suc_right)

lemma netExec_ok:
  assumes "netExec e w = Some (Inr w')" "worldOk w"
  shows "worldOk w'"
  using netExec_effect[OF assms(1)]
proof (elim disjE exE conjE)
  assume "calls w' = calls w" "looping w \<or> cleaned (net w) \<longrightarrow> looping w' \<or> cleaned (net w')"
  then show ?thesis using assms(2) unfolding worldOk_def by auto
next
  fix r assume "calls w' = calls w @ [fresh r]" "looping w' = looping w" "net w' = net w"
  moreover have "callOk (fresh r)" by (simp add: fresh_def callOk_def finished_def)
  ultimately show ?thesis using assms(2) by (simp add: worldOk_def)
next
  fix k assume "moved w k e w'"
  then obtain c where c: "k < length (calls w)" "callMove w k e (calls w ! k) c" "calls w' = (calls w)[k := c]"
    "cleaned (net w') = cleaned (net w)" "looping w' = looping w" by (auto simp: moved_def)
  have "callOk c" using callMove_ok[OF c(2)] worldOk_call[OF assms(2) c(1)] by blast
  then show ?thesis using assms(2) c(3-5) set_update_subset_insert[of "calls w" k c] by (auto simp: worldOk_def)
qed

section \<open>Runs\<close>

lemma netRun_append:
  "netRun (es @ fs) w = (case netRun es w of Some (Inr w') \<Rightarrow> netRun fs w' | r \<Rightarrow> r)"
  by (induction es arbitrary: w) (auto split: option.splits sum.splits)

lemma netRun_snoc:
  assumes "netRun (es @ [e]) w = Some (Inr w')"
  obtains w1 where "netRun es w = Some (Inr w1)" "netExec e w1 = Some (Inr w')"
  using assms by (auto simp: netRun_append split: option.splits sum.splits)

lemma initWorld_ok: "worldOk initWorld"
  by (simp add: worldOk_def initWorld_def)

lemma netRun_ok: "netRun es initWorld = Some (Inr w) \<Longrightarrow> worldOk w"
proof (induction es arbitrary: w rule: rev_induct)
  case (snoc e es)
  then show ?case using netExec_ok by (metis netRun_snoc)
qed (use initWorld_ok in simp)

text \<open>
  What holds after a run and did not hold before it came about with one of its events. A call that
  does not exist yet has no phase, so the predicates are about the calls of a world.
\<close>

lemma run_change:
  assumes "netRun es w0 = Some (Inr w)" "\<not> P w0" "P w"
  obtains es1 e es2 w1 w2 where "es = es1 @ e # es2" "netRun es1 w0 = Some (Inr w1)" "\<not> P w1" "netExec e w1 = Some (Inr w2)" "P w2"
  using assms
proof (induction es arbitrary: w thesis rule: rev_induct)
  case (snoc e es)
  obtain w1 where w1: "netRun es w0 = Some (Inr w1)" "netExec e w1 = Some (Inr w)" by (rule netRun_snoc[OF snoc.prems(2)])
  show ?case
  proof (cases "P w1")
    case True
    obtain es1 e' es2 u1 u2 where "es = es1 @ e' # es2" "netRun es1 w0 = Some (Inr u1)" "\<not> P u1" "netExec e' u1 = Some (Inr u2)" "P u2"
      by (rule snoc.IH[OF _ w1(1) snoc.prems(3) True])
    then show ?thesis using snoc.prems(1)[of es1 e' "es2 @ [e]" u1 u2] by simp
  next
    case False
    then show ?thesis using snoc.prems(1)[of es e "[]" w1 w] w1 snoc.prems(4) by simp
  qed
qed simp

lemma netExec_call:
  assumes "netExec e w = Some (Inr w')" "k < length (calls w)"
  shows "k < length (calls w') \<and> (calls w' ! k = calls w ! k \<and> e \<noteq> Handle k \<or> callMove w k e (calls w ! k) (calls w' ! k))"
  using netExec_effect[OF assms(1)]
proof (elim disjE exE conjE)
  fix j assume "moved w j e w'"
  then obtain c where c: "j < length (calls w)" "callMove w j e (calls w ! j) c" "calls w' = (calls w)[j := c]" by (auto simp: moved_def)
  show ?thesis
  proof (cases "j = k")
    case False
    then have "e \<noteq> Handle k" using c(2) by (auto elim: callMove_Handle)
    then show ?thesis using False c(3) assms(2) by simp
  qed (use c assms(2) in simp)
qed (use assms(2) in \<open>auto simp: nth_append\<close>)

lemma netExec_new:
  assumes "netExec e w = Some (Inr w')" "\<not> k < length (calls w)" "k < length (calls w')"
  shows "\<exists>r. calls w' ! k = fresh r"
  using netExec_effect[OF assms(1)] assms(2,3) by (auto simp: moved_def nth_append less_Suc_eq)

text \<open>Between two worlds of a run: the length never shrinks, and the request of a call stays the same.\<close>

lemma callMove_req: "callMove w k e c c' \<Longrightarrow> req c' = req c"
  by (induction rule: callMove.induct) simp_all

lemma netRun_req:
  assumes "netRun es w = Some (Inr w')" "k < length (calls w)"
  shows "k < length (calls w') \<and> req (calls w' ! k) = req (calls w ! k)"
  using assms
proof (induction es arbitrary: w)
  case (Cons e es)
  then obtain u where u: "netExec e w = Some (Inr u)" "netRun es u = Some (Inr w')" by (auto split: option.splits sum.splits)
  show ?case using Cons.IH[OF u(2)] netExec_call[OF u(1) Cons.prems(2)] callMove_req by metis
qed simp

text \<open>The history variable \<open>executed\<close> counts the runs of the handler.\<close>

lemma callMove_executed: "callMove w k e c c' \<Longrightarrow> executed c' = executed c + (if e = Handle k then 1 else 0)"
  by (induction rule: callMove.induct) simp_all

lemma executed_count:
  assumes "netRun es initWorld = Some (Inr w)"
  shows "count_list es (Handle k) = (if k < length (calls w) then executed (calls w ! k) else 0)"
  using assms
proof (induction es arbitrary: w rule: rev_induct)
  case Nil
  then show ?case by (auto simp: initWorld_def)
next
  case (snoc e es)
  obtain w1 where w1: "netRun es initWorld = Some (Inr w1)" "netExec e w1 = Some (Inr w)" by (rule netRun_snoc[OF snoc.prems])
  note IH = snoc.IH[OF w1(1)]
  show ?case
  proof (cases "k < length (calls w1)")
    case True
    then show ?thesis using IH netExec_call[OF w1(2) True] callMove_executed[of w1 k e "calls w1 ! k" "calls w ! k"] by auto
  next
    case False
    then have "e \<noteq> Handle k" using w1(2) by (auto split: if_splits)
    moreover have "executed (calls w ! k) = 0" if "k < length (calls w)"
      using netExec_new[OF w1(2) False that] by (auto simp: fresh_def)
    ultimately show ?thesis using IH False by simp
  qed
qed

section \<open>Where a reply comes from\<close>

text \<open>A reply was produced by a run of the handler, on the receiver as it was then.\<close>

lemma produced_split:
  assumes "netRun es initWorld = Some (Inr w)" "k < length (calls w)" "produced (calls w ! k) = Some v"
  obtains es1 es2 w1 svc meth ob where "es = es1 @ Handle k # es2" "netRun es1 initWorld = Some (Inr w1)"
    "k < length (calls w1)" "handler (calls w1 ! k) = InService svc meth"
    "serviceDispatch svc meth (req (calls w ! k)) (objs w1 ! rcvr svc) = Inr (ob, \<lparr>rok = True, rval = Some v\<rparr>)"
proof -
  let ?P = "\<lambda>u. k < length (calls u) \<and> produced (calls u ! k) = Some v"
  have "\<not> ?P initWorld" by (simp add: initWorld_def)
  then obtain es1 e es2 w1 w2 where s: "es = es1 @ e # es2" "netRun es1 initWorld = Some (Inr w1)" "\<not> ?P w1" "netExec e w1 = Some (Inr w2)" "?P w2"
    using run_change[of es initWorld w ?P] assms by blast
  have k: "k < length (calls w1)"
  proof (rule ccontr)
    assume "\<not> k < length (calls w1)"
    then obtain r where "calls w2 ! k = fresh r" using netExec_new[OF s(4)] s(5) by blast
    then show False using s(5) by (simp add: fresh_def)
  qed
  then have "callMove w1 k e (calls w1 ! k) (calls w2 ! k)" using netExec_call[OF s(4) k] s(3,5) k by auto
  then obtain svc meth ob where h: "e = Handle k" "handler (calls w1 ! k) = InService svc meth"
    "serviceDispatch svc meth (req (calls w1 ! k)) (objs w1 ! rcvr svc) = Inr (ob, \<lparr>rok = True, rval = Some v\<rparr>)"
    using s(3,5) k by cases auto
  have "netRun (e # es2) w1 = Some (Inr w)" using assms(1) s(1,2) by (simp add: netRun_append)
  then have "req (calls w ! k) = req (calls w1 ! k)" using netRun_req[OF _ k] by blast
  then show ?thesis using that[of es1 es2 w1 svc meth ob] s(1,2) k h by simp
qed

text \<open>
  A positive answer was given by \<open>ProcessReq\<close> at a moment at which the handler had finished, the end was
  enabled and the very server that ran the handler was still in the network under its name.
\<close>

definition answered :: "('e, 'n, 'o, 'v) Call \<Rightarrow> bool" where
  "answered c = (case phase c of Answering m \<Rightarrow> rok m | Returned b v \<Rightarrow> b | _ \<Rightarrow> False)"

lemma callMove_answered:
  assumes "callMove w k e c c'" "answered c'" "\<not> answered c"
  obtains a b i r where "e = Leave k a b" "phase c = Leaving i (Some r)" "enabled (net w) (reqEnd (req c))"
    "servers (net w) (infoName i) = Some (infoServer i)"
  using assms by cases (auto simp: answered_def noReply_def)

lemma answered_split:
  assumes "netRun es initWorld = Some (Inr w)" "k < length (calls w)" "answered (calls w ! k)"
  obtains es1 a b es2 w1 i r where "es = es1 @ Leave k a b # es2" "netRun es1 initWorld = Some (Inr w1)" "k < length (calls w1)"
    "phase (calls w1 ! k) = Leaving i (Some r)" "enabled (net w1) (reqEnd (req (calls w ! k)))"
    "servers (net w1) (infoName i) = Some (infoServer i)"
proof -
  let ?P = "\<lambda>u. k < length (calls u) \<and> answered (calls u ! k)"
  have "\<not> ?P initWorld" by (simp add: initWorld_def)
  then obtain es1 e es2 w1 w2 where s: "es = es1 @ e # es2" "netRun es1 initWorld = Some (Inr w1)" "\<not> ?P w1" "netExec e w1 = Some (Inr w2)" "?P w2"
    using run_change[of es initWorld w ?P] assms by blast
  have k: "k < length (calls w1)"
  proof (rule ccontr)
    assume "\<not> k < length (calls w1)"
    then obtain r where "calls w2 ! k = fresh r" using netExec_new[OF s(4)] s(5) by blast
    then show False using s(5) by (simp add: fresh_def answered_def)
  qed
  then have na: "\<not> answered (calls w1 ! k)" using s(3) by simp
  then have m: "callMove w1 k e (calls w1 ! k) (calls w2 ! k)" using netExec_call[OF s(4) k] s(5) by auto
  obtain a b i r where l: "e = Leave k a b" "phase (calls w1 ! k) = Leaving i (Some r)" "enabled (net w1) (reqEnd (req (calls w1 ! k)))"
    "servers (net w1) (infoName i) = Some (infoServer i)"
    by (rule callMove_answered[OF m _ na]) (use s(5) in auto)
  have "netRun (e # es2) w1 = Some (Inr w)" using assms(1) s(1,2) by (simp add: netRun_append)
  then have "req (calls w ! k) = req (calls w1 ! k)" using netRun_req[OF _ k] by blast
  then show ?thesis using that[of es1 a b es2 w1 i r] s(1,2) k l by simp
qed

section \<open>Calls return\<close>

definition rank :: "('e, 'n, 'o, 'v) Call \<Rightarrow> nat" where
  "rank c = (case phase c of Sending \<Rightarrow> 6 | Accepted \<Rightarrow> 5 | Passing i \<Rightarrow> 4 | Waiting i \<Rightarrow> 3 | Leaving i r \<Rightarrow> 2 | Answering m \<Rightarrow> 1 | Returned b v \<Rightarrow> 0)"

lemma callMove_rank: "callMove w k e c c' \<Longrightarrow> rank c' \<le> rank c"
  by (induction rule: callMove.induct) (simp_all add: rank_def)

lemma netExec_rank:
  assumes "netExec e w = Some (Inr w')" "k < length (calls w)"
  shows "rank (calls w' ! k) \<le> rank (calls w ! k)"
  using netExec_call[OF assms] callMove_rank by (metis order_refl)

text \<open>\<open>ProcessReq\<close> is waiting for a handler that has not returned, of a server that is not dead.\<close>

definition handlerPending :: "('e, 'n, 'o, 'v) World \<Rightarrow> nat \<Rightarrow> bool" where
  "handlerPending w k = (let c = calls w ! k in
     case phase c of
       Waiting i \<Rightarrow> \<not> finished (handler c) \<and> \<not> IsServerDead (reqEnd (req c)) (infoName i) (infoServer i) (net w)
     | _ \<Rightarrow> False)"

fun callEvents :: "nat \<Rightarrow> ('e, 'n, 'o, 'v) netEvent list" where
  "callEvents k = [Accept k, GiveUp k, Lookup k, Forward k False, TakeReply k, Poll k, Leave k False False, Deliver k]"

lemma progress:
  assumes "worldOk w" "k < length (calls w)" "rank (calls w ! k) \<noteq> 0" "\<not> handlerPending w k"
  shows "\<exists>e \<in> set (callEvents k). \<exists>w'. netExec e w = Some (Inr w') \<and> rank (calls w' ! k) < rank (calls w ! k)"
proof -
  note ok = worldOk_call[OF assms(1,2)]
  show ?thesis
  proof (cases "phase (calls w ! k)")
    case Sending
    then show ?thesis using assms(1,2)
      by (cases "looping w") (auto simp: worldOk_def accept_def giveUp_def Let_def setCall_def rank_def)
  next
    case Accepted
    obtain w' where "netExec (Lookup k) w = Some (Inr w')" "rank (calls w' ! k) < 5"
      using Accepted assms(2)
      by (auto simp: lookup_def noAnswer_def Let_def ReadEndnameInfo_def setCall_def rank_def split: option.splits bool.splits)
    then show ?thesis using Accepted by (auto simp: rank_def)
  next
    case (Passing i)
    then show ?thesis using assms(2) by (auto simp: forward_def Let_def setCall_def rank_def)
  next
    case (Waiting i)
    show ?thesis
    proof (cases "handler (calls w ! k)")
      case (Ready r)
      then show ?thesis using Waiting assms(2) by (auto simp: takeReply_def Let_def setCall_def rank_def)
    qed (use Waiting assms(2,4) ok in \<open>auto simp: poll_def Let_def setCall_def rank_def handlerPending_def finished_def callOk_def\<close>)
  next
    case (Leaving i q)
    obtain w' where "netExec (Leave k False False) w = Some (Inr w')" "rank (calls w' ! k) < 2"
      using Leaving assms(2)
      by (cases q; cases "IsServerDead (reqEnd (req (calls w ! k))) (infoName i) (infoServer i) (net w)")
        (simp_all add: leave_def Let_def setCall_def rank_def)
    then show ?thesis using Leaving by (auto simp: rank_def)
  next
    case (Answering m)
    then have "m = noReply \<or> (\<exists>v. rok m \<and> rval m = Some v)" using ok by (auto simp: callOk_def positive_def finished_def)
    then show ?thesis using Answering assms(2) by (auto simp: deliver_def Let_def setCall_def rank_def noReply_def)
  next
    case (Returned b v)
    then show ?thesis using assms(3) by (simp add: rank_def)
  qed
qed

text \<open>Once the handler is gone, its reply does not change.\<close>

lemma callMove_settled:
  assumes "callMove w k e c c'" "callOk c" "handler c = Gone"
  shows "handler c' = Gone \<and> produced c' = produced c"
  using assms by cases (auto simp: callOk_def)

lemma once_produced:
  assumes "netRun es0 initWorld = Some (Inr w0)" "netRun es w0 = Some (Inr w)" "k < length (calls w0)" "handler (calls w0 ! k) = Gone"
  shows "produced (calls w ! k) = produced (calls w0 ! k)"
proof -
  have "worldOk w0" by (rule netRun_ok[OF assms(1)])
  then show ?thesis using assms(2-4)
  proof (induction es arbitrary: w0)
    case (Cons e es)
    then obtain u where u: "netExec e w0 = Some (Inr u)" "netRun es u = Some (Inr w)" by (auto split: option.splits sum.splits)
    have "k < length (calls u)" "handler (calls u ! k) = Gone" "produced (calls u ! k) = produced (calls w0 ! k)"
      using netExec_call[OF u(1) Cons.prems(3)] callMove_settled[OF _ worldOk_call[OF Cons.prems(1,3)] Cons.prems(4)] Cons.prems(4) by auto
    then show ?case using Cons.IH[OF netExec_ok[OF u(1) Cons.prems(1)] u(2)] by simp
  qed simp
qed

end
