(* ===== verification/Labrpc_Properties.thy ===== *)
theory Labrpc_Properties
  imports Labrpc_Calls
begin

text \<open>
  What \<open>labrpc\<close> promises to its clients (the comment at the top of \<open>labrpc.go\<close>): calls are executed at
  most once, a positive answer is the handler's and came from a server that was still there, calls
  return unless the handler does not, and a call reaches the method it names.
\<close>

section \<open>An example\<close>

text \<open>A counter with one method, on a server that one client calls.\<close>

definition addMeth :: "(int, int) Method" where
  "addMeth = \<lparr>MethName = ''Add'', PkgPath = '''', Ins = [Ptr (Named ''Counter''), Named ''int'', Ptr (Named ''int'')], NumOut = 0,
     Func = (\<lambda>n v. Inr (n + v, n + v))\<rparr>"

definition counter :: "(int, int) Service" where
  "counter = \<lparr>svcName = ''Counter'', rcvr = 0, methods = [''Add'' \<mapsto> addMeth]\<rparr>"

abbreviation addReq :: "(string, int) reqMsg" where
  "addReq \<equiv> \<lparr>reqEnd = ''a'', svcMeth = ''Counter.Add'', argsType = Named ''int'', reqArgs = 5\<rparr>"

definition addRun :: "(string, nat, int, int) netEvent list" where
  "addRun = [NewObject 0, NewServer (AddService counter MakeServer), NewEnd ''a'', AddSrv 1 0, ConnectEnd ''a'' 1,
     EnableEnd ''a'' True, StartCall addReq, Accept 0, Lookup 0, Forward 0 False, Dispatch 0, Handle 0, TakeReply 0,
     Leave 0 False False, Deliver 0]"

lemmas net_eval = initWorld_def MakeNetwork_def onNet_def MakeEnd_def AddServer_def Connect_def Enable_def startCall_def accept_def
  lookup_def noAnswer_def ReadEndnameInfo_def forward_def dispatch_def serverDispatch_def lastDot_def AddService_def MakeServer_def counter_def
  handle_def serviceDispatch_def addMeth_def takeReply_def leave_def IsServerDead_def deliver_def setCall_def Let_def slice_to_def slice_from_def

lemma addRun_returns:
  "\<exists>w. netRun addRun initWorld = Some (Inr w) \<and> length (calls w) = 1 \<and> phase (calls w ! 0) = Returned True (Some 5)"
  by (simp add: addRun_def net_eval)

lemma addRun_waits:
  "\<exists>w. netRun (take 10 addRun) initWorld = Some (Inr w) \<and> length (calls w) = 1 \<and> handlerPending w 0"
  by (simp add: addRun_def net_eval handlerPending_def finished_def)

lemma counter_made: "MakeService ''Counter'' 0 [addMeth] = Inr counter"
  by (simp add: MakeService_def addMethod_def suitable_def addMeth_def counter_def)

section \<open>Routing\<close>

lemma suitable_iff:
  "suitable m = Inr (PkgPath m = '''' \<and> NumOut m = 0 \<and> (\<exists>r a t. Ins m = [r, a, Ptr t]))"
proof (cases "length (Ins m) = 3")
  case True
  then obtain r a b where "Ins m = [r, a, b]" by (auto simp: numeral_eq_Suc length_Suc_conv)
  then show ?thesis by (cases b) (auto simp: suitable_def)
next
  case False
  then show ?thesis by (auto simp: suitable_def)
qed

lemma foldR_addMethod:
  assumes "foldR addMethod ms tbl = Inr tbl'" "tbl' n = Some m"
  shows "tbl n = Some m \<or> m \<in> set ms \<and> MethName m = n \<and> suitable m = Inr True"
  using assms
proof (induction ms arbitrary: tbl)
  case (Cons x ms)
  obtain b where b: "suitable x = Inr b" using suitable_iff by blast
  then have "foldR addMethod ms (if b then tbl(MethName x \<mapsto> x) else tbl) = Inr tbl'"
    using Cons.prems(1) by (simp add: addMethod_def[of x])
  from Cons.IH[OF this Cons.prems(2)] show ?case using b by (auto split: if_splits)
qed simp

lemma lastDot_method:
  assumes "CHR ''.'' \<notin> set M"
  shows "lastDot (S @ ''.'' @ M) = len S"
proof -
  have "takeWhile (\<lambda>c. c \<noteq> CHR ''.'') (rev M @ CHR ''.'' # rev S) = rev M"
    using assms by (intro takeWhile_append2[THEN trans]) auto
  then show ?thesis by (simp add: lastDot_def)
qed

text \<open>
  C35. A well-typed call reaches the method it names: for a service made by \<open>MakeService\<close>, a request for
  \<open>Service.Method\<close> is counted and passed to that service; the method is an exported one of the receiver,
  with a pointer for the reply and no results; and when the argument has the type of its parameter, it
  is run on the receiver and the argument and its reply sent back, without any failure of the RPC layer.
\<close>

theorem well_typed_call:
  assumes "MakeService S obj ms = Inr svc" "methods svc M = Some m" "CHR ''.'' \<notin> set M"
    "svcMeth r = S @ ''.'' @ M" "argsType r = Ins m ! 1"
  shows "serverDispatch r (AddService svc rs) = Inr ((AddService svc rs)\<lparr>srvCount := srvCount rs + 1\<rparr>, svc, M) \<and>
    m \<in> set ms \<and> MethName m = M \<and> PkgPath m = '''' \<and> NumOut m = 0 \<and> (\<exists>self t. Ins m = [self, argsType r, Ptr t]) \<and>
    serviceDispatch svc M r ob = map_sum id (\<lambda>(ob', v). (ob', \<lparr>rok = True, rval = Some v\<rparr>)) (Func m ob (reqArgs r))"
proof -
  obtain tbl where tbl: "foldR addMethod ms Map.empty = Inr tbl" "svc = \<lparr>svcName = S, rcvr = obj, methods = tbl\<rparr>"
    using assms(1) by (auto simp: MakeService_def bindR_eq_Inr)
  have m: "m \<in> set ms" "MethName m = M" "suitable m = Inr True"
    using foldR_addMethod[OF tbl(1), of M m] assms(2) tbl(2) by auto
  then obtain self a t where ins: "PkgPath m = ''''" "NumOut m = 0" "Ins m = [self, a, Ptr t]" by (auto simp: suitable_iff)
  have "serverDispatch r (AddService svc rs) = Inr ((AddService svc rs)\<lparr>srvCount := srvCount rs + 1\<rparr>, svc, M)"
    unfolding serverDispatch_def assms(4) lastDot_method[OF assms(3)] 
    using nat_int[of "Suc (length S)"] by (simp add: Let_def AddService_def tbl(2) add.commute)
  moreover have "serviceDispatch svc M r ob = map_sum id (\<lambda>(ob', v). (ob', \<lparr>rok = True, rval = Some v\<rparr>)) (Func m ob (reqArgs r))"
    using assms(2,5) ins(3) by (cases "Func m ob (reqArgs r)") (auto simp: serviceDispatch_def split: prod.splits)
  ultimately show ?thesis using m ins assms(5) by auto
qed

theorem well_typed_call_witness:
  "serviceDispatch counter ''Add'' addReq 7 = Inr (12, \<lparr>rok = True, rval = Some 12\<rparr>)"
  using well_typed_call[OF counter_made, of "''Add''" addMeth addReq _ 7]
  by (simp add: counter_def addMeth_def)

section \<open>Calls\<close>

text \<open>
  C32. At most once: in every run of the network the handler of a call is executed at most once; a call
  that returned false has no reply, and a call that returned true has the reply that the one execution
  of its handler gave on the receiver as it was at that moment.
\<close>

theorem call_at_most_once:
  assumes "netRun es initWorld = Some (Inr w)" "k < length (calls w)"
  shows "count_list es (Handle k) \<le> 1 \<and>
    (\<forall>v. phase (calls w ! k) = Returned False v \<longrightarrow> v = None) \<and>
    (\<forall>v. phase (calls w ! k) = Returned True v \<longrightarrow>
       (\<exists>es1 es2 w1 svc meth ob x. es = es1 @ Handle k # es2 \<and> netRun es1 initWorld = Some (Inr w1) \<and>
          handler (calls w1 ! k) = InService svc meth \<and> v = Some x \<and>
          serviceDispatch svc meth (req (calls w ! k)) (objs w1 ! rcvr svc) = Inr (ob, \<lparr>rok = True, rval = Some x\<rparr>)))"
proof -
  have ok: "callOk (calls w ! k)" using worldOk_call[OF netRun_ok[OF assms(1)] assms(2)] .
  have "count_list es (Handle k) \<le> 1" using executed_count[OF assms(1), of k] ok assms(2) by (simp add: callOk_def)
  moreover have "v = None" if "phase (calls w ! k) = Returned False v" for v using ok that by (simp add: callOk_def)
  moreover have "\<exists>es1 es2 w1 svc meth ob x. es = es1 @ Handle k # es2 \<and> netRun es1 initWorld = Some (Inr w1) \<and>
      handler (calls w1 ! k) = InService svc meth \<and> v = Some x \<and>
      serviceDispatch svc meth (req (calls w ! k)) (objs w1 ! rcvr svc) = Inr (ob, \<lparr>rok = True, rval = Some x\<rparr>)"
    if v: "phase (calls w ! k) = Returned True v" for v
  proof -
    obtain x where "produced (calls w ! k) = Some x" "v = Some x" using ok v by (auto simp: callOk_def finished_def)
    then show ?thesis using produced_split[OF assms, of x] by metis
  qed
  ultimately show ?thesis by blast
qed

theorem call_at_most_once_witness:
  "\<exists>w. netRun addRun initWorld = Some (Inr w) \<and> phase (calls w ! 0) = Returned True (Some 5) \<and> count_list addRun (Handle 0) \<le> 1"
proof -
  obtain w where w: "netRun addRun initWorld = Some (Inr w)" "length (calls w) = 1" "phase (calls w ! 0) = Returned True (Some 5)"
    using addRun_returns by blast
  then have "count_list addRun (Handle 0) \<le> 1" using call_at_most_once[OF w(1), of 0] by (simp only: w(2) zero_less_one)
  then show ?thesis using w(1,3) by blast
qed

text \<open>
  C33. No answer from a deleted server: when a call returned true, there was a moment after the execution
  of its handler at which its end was enabled and the server that executed it was still registered under
  its name. So the effects of an acknowledged call were complete before \<open>DeleteServer\<close>, after which
  the tester copies the persister.
\<close>

theorem reply_before_delete:
  assumes "netRun es initWorld = Some (Inr w)" "k < length (calls w)" "phase (calls w ! k) = Returned True v"
  shows "\<exists>es1 es2 w1 i. es = es1 @ es2 \<and> netRun es1 initWorld = Some (Inr w1) \<and> Handle k \<in> set es1 \<and>
    enabled (net w1) (reqEnd (req (calls w ! k))) \<and> servers (net w1) (infoName i) = Some (infoServer i) \<and>
    (\<exists>r. phase (calls w1 ! k) = Leaving i (Some r) \<and> rval r = v)"
proof -
  have "answered (calls w ! k)" using assms(3) by (simp add: answered_def)
  then obtain es1 a b es2 w1 i r where s: "es = es1 @ Leave k a b # es2" "netRun es1 initWorld = Some (Inr w1)" "k < length (calls w1)"
    "phase (calls w1 ! k) = Leaving i (Some r)" "enabled (net w1) (reqEnd (req (calls w ! k)))"
    "servers (net w1) (infoName i) = Some (infoServer i)"
    by (rule answered_split[OF assms(1,2)])
  have ok: "callOk (calls w1 ! k)" using worldOk_call[OF netRun_ok[OF s(2)] s(3)] .
  then have g: "handler (calls w1 ! k) = Gone" "rval r = produced (calls w1 ! k)" using s(4) by (simp_all add: callOk_def positive_def)
  then have "count_list es1 (Handle k) = 1" using executed_count[OF s(2), of k] ok s(3) by (simp add: callOk_def finished_def)
  then have h: "Handle k \<in> set es1" by (metis count_list_0_iff zero_neq_one)
  have "netRun (Leave k a b # es2) w1 = Some (Inr w)" using assms(1) s(2) unfolding s(1) netRun_append by (simp only: option.case sum.case)
  from once_produced[OF s(2) this s(3) g(1)] have "produced (calls w ! k) = produced (calls w1 ! k)" .
  moreover have "v = produced (calls w ! k)"
    using worldOk_call[OF netRun_ok[OF assms(1)] assms(2)] assms(3) by (simp add: callOk_def)
  ultimately show ?thesis using s h g(2) by metis
qed

theorem reply_before_delete_witness:
  "\<exists>es1 es2 w1 i. addRun = es1 @ es2 \<and> netRun es1 initWorld = Some (Inr w1) \<and> Handle 0 \<in> set es1 \<and>
    servers (net w1) (infoName i) = Some (infoServer (i :: nat endInfo))"
proof -
  obtain w where w: "netRun addRun initWorld = Some (Inr w)" "length (calls w) = 1" "phase (calls w ! 0) = Returned True (Some 5)"
    using addRun_returns by blast
  have "0 < length (calls w)" using w(2) by simp
  from reply_before_delete[OF w(1) this w(3)] show ?thesis by (elim exE conjE) (intro exI conjI, assumption+)
qed

text \<open>
  C34. Calls return: a call that has not returned yet can take a step of its own that brings it closer to
  its return (at most six are needed), unless it waits for a handler that has not returned on a server
  that is still there; and no event of the network ever takes it back. In particular disabling the end
  or deleting the server frees a caller whose handler never returns.
\<close>

theorem call_progress:
  assumes "netRun es initWorld = Some (Inr w)" "k < length (calls w)"
  shows "rank (calls w ! k) \<le> 6 \<and> (rank (calls w ! k) = 0 \<longleftrightarrow> (\<exists>b v. phase (calls w ! k) = Returned b v)) \<and>
    (rank (calls w ! k) = 0 \<or> handlerPending w k \<or>
      (\<exists>e \<in> set (callEvents k). \<exists>w'. netExec e w = Some (Inr w') \<and> rank (calls w' ! k) < rank (calls w ! k))) \<and>
    (\<forall>e w'. netExec e w = Some (Inr w') \<longrightarrow> rank (calls w' ! k) \<le> rank (calls w ! k))"
proof (intro conjI)
  show "rank (calls w ! k) \<le> 6" by (simp add: rank_def split: phase.splits)
  show "rank (calls w ! k) = 0 \<longleftrightarrow> (\<exists>b v. phase (calls w ! k) = Returned b v)" by (simp add: rank_def split: phase.splits)
  show "rank (calls w ! k) = 0 \<or> handlerPending w k \<or>
      (\<exists>e \<in> set (callEvents k). \<exists>w'. netExec e w = Some (Inr w') \<and> rank (calls w' ! k) < rank (calls w ! k))"
    using progress[OF netRun_ok[OF assms(1)] assms(2)] by blast
  show "\<forall>e w'. netExec e w = Some (Inr w') \<longrightarrow> rank (calls w' ! k) \<le> rank (calls w ! k)"
    using netExec_rank[OF _ assms(2)] by blast
qed

theorem call_progress_witness:
  "\<exists>w. netRun (take 10 addRun) initWorld = Some (Inr w) \<and> handlerPending w 0 \<and> rank (calls w ! 0) \<le> 6"
proof -
  obtain w where w: "netRun (take 10 addRun) initWorld = Some (Inr w)" "length (calls w) = 1" "handlerPending w 0"
    using addRun_waits by blast
  have "0 < length (calls w)" using w(2) by simp
  from call_progress[OF w(1) this] have "rank (calls w ! 0) \<le> 6" by (elim conjE)
  then show ?thesis using w(1,3) by (intro exI conjI)
qed

end
