(* ===== verification/Labgob.thy ===== *)
theory Labgob
  imports Go_Prelude
begin

text \<open>
  \<open>labgob/labgob.go\<close>: the checks around Go's \<open>encoding/gob\<close>. A type is an address in the table
  \<open>types\<close> of the types of the program, which may refer to each other in cycles (this is what
  \<open>reflect.Type\<close> gives). \<open>checkType\<close> walks through them depth first, with the map \<open>checked\<close> to visit
  every type once; the recursion has fuel, and one more than the number of types not checked yet is
  enough. \<open>checkDefault1\<close> walks through a value, at most three levels deep; a value is the tree of what
  it contains, to that depth. Both count what they find in \<open>errorCount\<close>; what they print is in
  \<open>printed\<close>. Names of fields are ASCII, for which \<open>unicode.IsUpper\<close> is exact here.

  \<open>encoding/gob\<close> itself is an argument of the encoder and the decoder.
\<close>

section \<open>Types\<close>

datatype rtype =
    RStruct string "(string \<times> nat) list" \<comment> \<open>name, fields\<close>
  | RSlice nat | RArray nat | RPtr nat
  | RMap nat nat \<comment> \<open>key, element\<close>
  | RBasic string

datatype message =
    LowerCase string string \<comment> \<open>field and type\<close>
  | NonDefault string

record Labgob =
  errorCount :: int
  checked :: "nat set option" \<comment> \<open>\<open>None\<close> is the nil map\<close>
  printed :: "message list"

definition isUpper :: "string \<Rightarrow> bool" where
  "isUpper s = (case s of [] \<Rightarrow> False | c # _ \<Rightarrow> CHR ''A'' \<le> c \<and> c \<le> CHR ''Z'')"

definition isChecked :: "nat \<Rightarrow> Labgob \<Rightarrow> bool" where
  "isChecked t st = (case checked st of None \<Rightarrow> False | Some m \<Rightarrow> t \<in> m)"

definition markChecked :: "nat \<Rightarrow> Labgob \<Rightarrow> Labgob" where
  "markChecked t st = st\<lparr>checked := Some (insert t (case checked st of None \<Rightarrow> {} | Some m \<Rightarrow> m))\<rparr>"

definition checkField :: "string \<Rightarrow> string \<Rightarrow> Labgob \<Rightarrow> Labgob" where
  "checkField typ f st =
     (if isUpper f = False
      then st\<lparr>printed := printed st @ [LowerCase f typ], errorCount := errorCount st + 1\<rparr>
      else st)"

fun checkType :: "nat \<Rightarrow> rtype list \<Rightarrow> nat \<Rightarrow> Labgob \<Rightarrow> Labgob option"
and checkFields :: "nat \<Rightarrow> rtype list \<Rightarrow> string \<Rightarrow> (string \<times> nat) list \<Rightarrow> Labgob \<Rightarrow> Labgob option" where
  "checkType 0 types t st = None"
| "checkType (Suc n) types t st =
     (let st = (if checked st = None then st\<lparr>checked := Some {}\<rparr> else st) in
      if isChecked t st then Some st
      else
        (let st = markChecked t st in
         case types ! t of
           RStruct name fs \<Rightarrow> checkFields n types name fs st
         | RSlice u \<Rightarrow> checkType n types u st
         | RArray u \<Rightarrow> checkType n types u st
         | RPtr u \<Rightarrow> checkType n types u st
         | RMap key u \<Rightarrow>
             (case checkType n types u st of None \<Rightarrow> None | Some st \<Rightarrow> checkType n types key st)
         | RBasic _ \<Rightarrow> Some st))"
| "checkFields n types name [] st = Some st"
| "checkFields n types name ((f, u) # fs) st =
     (case checkType n types u (checkField name f st) of None \<Rightarrow> None | Some st \<Rightarrow> checkFields n types name fs st)"

section \<open>Values\<close>

datatype rvalue =
    VStruct string "(string \<times> rvalue) list"
  | VPtr "rvalue option"
  | VBool string bool | VInt string int | VString string string \<comment> \<open>name of the type, value\<close>
  | VOther

fun isDefault :: "rvalue \<Rightarrow> bool" where
  "isDefault (VBool _ b) = (b = False)"
| "isDefault (VInt _ i) = (i = 0)"
| "isDefault (VString _ s) = (s = '''')"
| "isDefault _ = True"

fun typeName :: "rvalue \<Rightarrow> string" where
  "typeName (VStruct n _) = n"
| "typeName (VBool n _) = n"
| "typeName (VInt n _) = n"
| "typeName (VString n _) = n"
| "typeName _ = ''''"

definition checkBasic :: "rvalue \<Rightarrow> string \<Rightarrow> Labgob \<Rightarrow> Labgob" where
  "checkBasic v name st =
     (if isDefault v = False then
        (let st = (if errorCount st < 1 then
               (let what = (if name = '''' then typeName v else name)
                in st\<lparr>printed := printed st @ [NonDefault what]\<rparr>)
             else st)
         in st\<lparr>errorCount := errorCount st + 1\<rparr>)
      else st)"

fun checkDefault1 :: "rvalue \<Rightarrow> nat \<Rightarrow> string \<Rightarrow> Labgob \<Rightarrow> Labgob"
and checkDefaultFields :: "(string \<times> rvalue) list \<Rightarrow> nat \<Rightarrow> string \<Rightarrow> Labgob \<Rightarrow> Labgob" where
  "checkDefault1 (VStruct n fs) depth name st = (if depth > 3 then st else checkDefaultFields fs depth name st)"
| "checkDefault1 (VPtr p) depth name st =
     (if depth > 3 then st else case p of None \<Rightarrow> st | Some v \<Rightarrow> checkDefault1 v (depth + 1) name st)"
| "checkDefault1 (VBool n b) depth name st = (if depth > 3 then st else checkBasic (VBool n b) name st)"
| "checkDefault1 (VInt n i) depth name st = (if depth > 3 then st else checkBasic (VInt n i) name st)"
| "checkDefault1 (VString n s) depth name st = (if depth > 3 then st else checkBasic (VString n s) name st)"
| "checkDefault1 VOther depth name st = st"
| "checkDefaultFields [] depth name st = st"
| "checkDefaultFields ((f, v) # fs) depth name st =
     (let name1 = (if name \<noteq> '''' then name @ ''.'' @ f else f)
      in checkDefaultFields fs depth name (checkDefault1 v (depth + 1) name1 st))"

definition checkDefault :: "rvalue option \<Rightarrow> Labgob \<Rightarrow> Labgob" where
  "checkDefault value st = (case value of None \<Rightarrow> st | Some v \<Rightarrow> checkDefault1 v 1 '''' st)"

section \<open>The encoder and the decoder\<close>

text \<open>
  A value carries its type. \<open>gobEncode\<close>, \<open>gobDecode\<close> and \<open>gobRegister\<close> are what \<open>encoding/gob\<close> does to
  the stream and to its registry; every operation first runs the checks, with fuel for all types.
\<close>

record rany =
  valueType :: nat
  valueOf :: "rvalue option" \<comment> \<open>\<open>None\<close> is the nil interface\<close>

definition checkValue :: "rtype list \<Rightarrow> rany \<Rightarrow> Labgob \<Rightarrow> Labgob option" where
  "checkValue types value st = checkType (Suc (length types)) types (valueType value) st"

definition Encode :: "(rany \<Rightarrow> 'b \<Rightarrow> 'b \<times> 'e) \<Rightarrow> rtype list \<Rightarrow> rany \<Rightarrow> 'b \<Rightarrow> Labgob \<Rightarrow> ('b \<times> 'e \<times> Labgob) option" where
  "Encode gobEncode types e enc st =
     map_option (\<lambda>st. let (enc, err) = gobEncode e enc in (enc, err, st)) (checkValue types e st)"

definition EncodeValue :: "(rany \<Rightarrow> 'b \<Rightarrow> 'b \<times> 'e) \<Rightarrow> rtype list \<Rightarrow> rany \<Rightarrow> 'b \<Rightarrow> Labgob \<Rightarrow> ('b \<times> 'e \<times> Labgob) option" where
  "EncodeValue gobEncodeValue types value enc st =
     map_option (\<lambda>st. let (enc, err) = gobEncodeValue value enc in (enc, err, st)) (checkValue types value st)"

definition Decode :: "(rany \<Rightarrow> 'b \<Rightarrow> 'b \<times> 'e) \<Rightarrow> rtype list \<Rightarrow> rany \<Rightarrow> 'b \<Rightarrow> Labgob \<Rightarrow> ('b \<times> 'e \<times> Labgob) option" where
  "Decode gobDecode types e dec st =
     map_option (\<lambda>st. let st = checkDefault (valueOf e) st; (dec, err) = gobDecode e dec in (dec, err, st)) (checkValue types e st)"

definition gobRegister :: "('g \<Rightarrow> rany \<Rightarrow> 'g) \<Rightarrow> rtype list \<Rightarrow> rany \<Rightarrow> 'g \<Rightarrow> Labgob \<Rightarrow> ('g \<times> Labgob) option" where
  "gobRegister reg types value registry st = map_option (\<lambda>st. (reg registry value, st)) (checkValue types value st)"

definition RegisterName :: "(string \<Rightarrow> 'g \<Rightarrow> rany \<Rightarrow> 'g) \<Rightarrow> rtype list \<Rightarrow> string \<Rightarrow> rany \<Rightarrow> 'g \<Rightarrow> Labgob \<Rightarrow> ('g \<times> Labgob) option" where
  "RegisterName reg types name value registry st = map_option (\<lambda>st. (reg name registry value, st)) (checkValue types value st)"

section \<open>The walk through the types\<close>

definition marks :: "Labgob \<Rightarrow> nat set" where
  "marks st = (case checked st of None \<Rightarrow> {} | Some m \<Rightarrow> m)"

fun refs :: "rtype \<Rightarrow> nat set" where
  "refs (RStruct n fs) = snd ` set fs"
| "refs (RSlice u) = {u}"
| "refs (RArray u) = {u}"
| "refs (RPtr u) = {u}"
| "refs (RMap key u) = {u, key}"
| "refs (RBasic n) = {}"

fun lowerCase :: "rtype \<Rightarrow> int" where
  "lowerCase (RStruct n fs) = len (filter (\<lambda>f. \<not> isUpper (fst f)) fs)"
| "lowerCase _ = 0"

definition wfTypes :: "rtype list \<Rightarrow> bool" where
  "wfTypes types \<longleftrightarrow> (\<forall>t \<in> set types. refs t \<subseteq> {..<length types})"

definition refRel :: "rtype list \<Rightarrow> (nat \<times> nat) set" where
  "refRel types = {(t, u). t < length types \<and> u \<in> refs (types ! t)}"

text \<open>
  What a part of the walk achieves: from \<open>st\<close> to \<open>st'\<close>, the types \<open>ts\<close> are visited; the newly visited
  types are reachable from them, everything they refer to is visited, and every lower-case field of theirs
  is counted once; \<open>extra\<close> errors were counted beside.
\<close>

definition visits :: "rtype list \<Rightarrow> Labgob \<Rightarrow> nat set \<Rightarrow> int \<Rightarrow> Labgob \<Rightarrow> bool" where
  "visits types st ts extra st' \<longleftrightarrow>
     marks st \<subseteq> marks st' \<and> ts \<subseteq> marks st' \<and> marks st' - marks st \<subseteq> (refRel types)\<^sup>* `` ts \<and>
     (\<forall>u \<in> marks st' - marks st. u < length types \<and> refs (types ! u) \<subseteq> marks st') \<and>
     errorCount st' = errorCount st + extra + (\<Sum>u \<in> marks st' - marks st. lowerCase (types ! u))"

lemma visits_none: "visits types st {} 0 st"
  by (simp add: visits_def)

lemma visits_finite: "visits types st ts x st' \<Longrightarrow> finite (marks st' - marks st)"
  unfolding visits_def by (auto intro: finite_subset[of _ "{..<length types}"])

lemma visits_trans:
  assumes "visits types st ts x st1" "visits types st1 us y st2"
  shows "visits types st (ts \<union> us) (x + y) st2"
proof -
  let ?A = "marks st1 - marks st" and ?B = "marks st2 - marks st1"
  have eq: "marks st2 - marks st = ?A \<union> ?B" "?A \<inter> ?B = {}" using assms unfolding visits_def by auto
  have "(\<Sum>u \<in> ?A \<union> ?B. lowerCase (types ! u)) = (\<Sum>u \<in> ?A. lowerCase (types ! u)) + (\<Sum>u \<in> ?B. lowerCase (types ! u))"
    using assms eq(2) by (intro sum.union_disjoint visits_finite)
  moreover have "\<forall>u \<in> ?A \<union> ?B. u < length types \<and> refs (types ! u) \<subseteq> marks st2"
    using assms unfolding visits_def by blast
  moreover have "?A \<union> ?B \<subseteq> (refRel types)\<^sup>* `` (ts \<union> us)" using assms unfolding visits_def Image_Un by blast
  moreover have "marks st \<subseteq> marks st2" "ts \<union> us \<subseteq> marks st2" using assms unfolding visits_def by blast+
  ultimately show ?thesis using assms unfolding visits_def eq(1) by linarith
qed

lemma visits_cong:
  "visits types st ts x st' \<Longrightarrow> marks st0 = marks st \<Longrightarrow> errorCount st0 + x0 = errorCount st + x \<Longrightarrow> visits types st0 ts x0 st'"
  unfolding visits_def by simp

lemma marks_simps [simp]:
  "marks (st\<lparr>checked := Some m\<rparr>) = m" "marks (markChecked t st) = insert t (marks st)"
  "marks (checkField n f st) = marks st" "isChecked t st \<longleftrightarrow> t \<in> marks st"
  "errorCount (markChecked t st) = errorCount st"
  by (auto simp: marks_def markChecked_def checkField_def isChecked_def split: option.splits)

lemma marks_nil: "checked st = None \<Longrightarrow> marks st = {}"
  by (simp add: marks_def)

text \<open>Visiting what an unvisited type refers to, after marking it, visits the type.\<close>

lemma visits_mark:
  assumes "visits types (markChecked t st) (refs (types ! t)) (lowerCase (types ! t)) st'" "t \<notin> marks st" "t < length types"
  shows "visits types st {t} 0 st'"
proof -
  let ?N = "marks st' - marks (markChecked t st)"
  have new: "marks st' - marks st = insert t ?N" "t \<notin> ?N" using assms(1,2) by (auto simp: visits_def)
  have r: "(t, u) \<in> refRel types" if "u \<in> refs (types ! t)" for u using that assms(3) by (simp add: refRel_def)
  have "(refRel types)\<^sup>* `` refs (types ! t) \<subseteq> (refRel types)\<^sup>* `` {t}"
    using r by (auto intro: converse_rtrancl_into_rtrancl)
  then have "insert t ?N \<subseteq> (refRel types)\<^sup>* `` {t}" using assms(1) unfolding visits_def by blast
  moreover have "(\<Sum>u \<in> insert t ?N. lowerCase (types ! u)) = lowerCase (types ! t) + (\<Sum>u \<in> ?N. lowerCase (types ! u))"
    using visits_finite[OF assms(1)] new(2) by simp
  moreover have "\<forall>u \<in> insert t ?N. u < length types \<and> refs (types ! u) \<subseteq> marks st'"
    using assms(1,3) unfolding visits_def by blast
  moreover have "marks st \<subseteq> marks st'" "{t} \<subseteq> marks st'" using assms(1) by (auto simp: visits_def)
  moreover have "errorCount st' = errorCount st + lowerCase (types ! t) + (\<Sum>u \<in> ?N. lowerCase (types ! u))"
    using assms(1) by (simp add: visits_def)
  ultimately show ?thesis unfolding visits_def new(1) by simp
qed

lemma card_mark:
  assumes "t < (n :: nat)" "t \<notin> m"
  shows "card ({..<n} - m) = Suc (card ({..<n} - insert t m))"
proof -
  have "{..<n} - m = insert t ({..<n} - insert t m)" using assms by auto
  moreover have "card (insert t ({..<n} - insert t m)) = Suc (card ({..<n} - insert t m))" by simp
  ultimately show ?thesis by (simp only:)
qed

lemma card_marks_le: "marks st \<subseteq> marks st' \<Longrightarrow> card ({..<n} - marks st') \<le> card ({..<(n :: nat)} - marks st)"
  by (intro card_mono) auto

text \<open>The fields of a struct, once the types they have can be visited.\<close>

lemma checkFields_visits:
  assumes T: "\<And>t st. t < length types \<Longrightarrow> card ({..<length types} - marks st) < n \<Longrightarrow>
      \<exists>st'. checkType n types t st = Some st' \<and> visits types st {t} 0 st'"
    and "snd ` set fs \<subseteq> {..<length types}" "card ({..<length types} - marks st) < n"
  shows "\<exists>st'. checkFields n types name fs st = Some st' \<and>
    visits types st (snd ` set fs) (len (filter (\<lambda>f. \<not> isUpper (fst f)) fs)) st'"
  using assms(2,3)
proof (induction fs arbitrary: st)
  case Nil
  then show ?case using visits_none by simp
next
  case (Cons fu fs)
  obtain f u where fu: "fu = (f, u)" by (meson surj_pair)
  have "u < length types" using Cons.prems(1) fu by simp
  then obtain st1 where st1: "checkType n types u (checkField name f st) = Some st1" "visits types (checkField name f st) {u} 0 st1"
    using T[of u "checkField name f st"] Cons.prems(2) unfolding marks_simps by blast
  have v: "visits types st {u} (if isUpper f then 0 else 1) st1"
    by (rule visits_cong[OF st1(2)]) (simp, simp add: checkField_def)
  then have "marks st \<subseteq> marks st1" unfolding visits_def by blast
  then have "card ({..<length types} - marks st1) < n"
    using card_marks_le[of st st1 "length types"] Cons.prems(2) by linarith
  then obtain st2 where st2: "checkFields n types name fs st1 = Some st2"
    "visits types st1 (snd ` set fs) (len (filter (\<lambda>f. \<not> isUpper (fst f)) fs)) st2"
    using Cons.IH[of st1] Cons.prems(1) unfolding list.set image_insert insert_subset by blast
  have "visits types st ({u} \<union> snd ` set fs) ((if isUpper f then 0 else 1) + len (filter (\<lambda>f. \<not> isUpper (fst f)) fs)) st2"
    by (rule visits_trans[OF v st2(2)])
  moreover have "(if isUpper f then 0 else 1) + len (filter (\<lambda>f. \<not> isUpper (fst f)) fs) = len (filter (\<lambda>f. \<not> isUpper (fst f)) (fu # fs))"
    by (simp add: fu)
  moreover have "checkFields n types name (fu # fs) st = Some st2" using st1(1) st2(1) by (simp add: fu)
  moreover have "{u} \<union> snd ` set fs = snd ` set (fu # fs)" by (simp add: fu)
  ultimately show ?case by metis
qed

text \<open>With more fuel than there are unvisited types, the walk returns and visits the type.\<close>

lemma checkType_visits:
  assumes "wfTypes types" "t < length types" "card ({..<length types} - marks st) < n"
  shows "\<exists>st'. checkType n types t st = Some st' \<and> visits types st {t} 0 st'"
  using assms(2,3)
proof (induction n arbitrary: t st)
  case (Suc n)
  define s0 where "s0 = (if checked st = None then st\<lparr>checked := Some {}\<rparr> else st)"
  have s0: "marks s0 = marks st" "errorCount s0 = errorCount st" by (simp_all add: s0_def marks_nil)
  show ?case
  proof (cases "t \<in> marks st")
    case True
    then have "checkType (Suc n) types t st = Some s0" using s0(1) by (simp add: s0_def[symmetric] Let_def)
    moreover have "visits types st {t} 0 s0" using True s0 by (simp add: visits_def)
    ultimately show ?thesis by blast
  next
    case False
    let ?s = "markChecked t s0"
    have c: "card ({..<length types} - marks ?s) < n" using card_mark[OF Suc.prems(1) False] Suc.prems(2) s0(1) by simp
    have r: "refs (types ! t) \<subseteq> {..<length types}" using assms(1) Suc.prems(1) by (simp add: wfTypes_def)
    note T = Suc.IH
    have "\<exists>st'. checkType (Suc n) types t st = Some st' \<and> visits types ?s (refs (types ! t)) (lowerCase (types ! t)) st'"
    proof (cases "types ! t")
      case (RStruct name fs)
      then show ?thesis using checkFields_visits[of types n fs ?s name] T r c False s0(1) by (simp add: s0_def[symmetric] Let_def)
    next
      case (RMap key u)
      obtain s1 where s1: "checkType n types u ?s = Some s1" "visits types ?s {u} 0 s1" using T[of u ?s] r c RMap by auto
      then have "card ({..<length types} - marks s1) < n"
        using card_marks_le[of ?s s1 "length types"] c by (simp add: visits_def)
      then obtain s2 where s2: "checkType n types key s1 = Some s2" "visits types s1 {key} 0 s2" using T[of key s1] r RMap by auto
      then show ?thesis using visits_trans[OF s1(2) s2(2)] s1(1) RMap False s0(1) by (simp add: s0_def[symmetric] Let_def insert_commute)
    qed (use T[of _ ?s] r c False s0(1) visits_none in \<open>simp_all add: s0_def[symmetric] Let_def\<close>)
    then obtain st' where st': "checkType (Suc n) types t st = Some st'" "visits types ?s (refs (types ! t)) (lowerCase (types ! t)) st'"
      by blast
    have "visits types s0 {t} 0 st'" using visits_mark[OF st'(2)] False Suc.prems(1) s0(1) by simp
    then have "visits types st {t} 0 st'" using visits_cong s0 by metis
    then show ?thesis using st'(1) by blast
  qed
qed simp

text \<open>Between two walks everything a visited type refers to is visited.\<close>

definition consistent :: "rtype list \<Rightarrow> Labgob \<Rightarrow> bool" where
  "consistent types st \<longleftrightarrow> (\<forall>u \<in> marks st. u < length types \<and> refs (types ! u) \<subseteq> marks st)"

lemma consistent_reach:
  assumes "consistent types st" "t \<in> marks st"
  shows "(refRel types)\<^sup>* `` {t} \<subseteq> marks st"
proof -
  have "u \<in> marks st" if "(t, u) \<in> (refRel types)\<^sup>*" for u
    using that assms(2) by (induction rule: rtrancl_induct) (use assms(1) in \<open>auto simp: consistent_def refRel_def\<close>)
  then show ?thesis by blast
qed

lemma visits_reach:
  assumes "visits types st {t} 0 st'" "consistent types st"
  shows "consistent types st'" "marks st' = marks st \<union> (refRel types)\<^sup>* `` {t}"
    "errorCount st' = errorCount st + (\<Sum>u \<in> (refRel types)\<^sup>* `` {t} - marks st. lowerCase (types ! u))"
proof -
  show c: "consistent types st'" using assms unfolding visits_def consistent_def by blast
  have "t \<in> marks st'" using assms(1) unfolding visits_def by blast
  then show m: "marks st' = marks st \<union> (refRel types)\<^sup>* `` {t}"
    using consistent_reach[OF c] assms(1) unfolding visits_def by blast
  have "marks st' - marks st = (refRel types)\<^sup>* `` {t} - marks st" unfolding m by blast
  then show "errorCount st' = errorCount st + (\<Sum>u \<in> (refRel types)\<^sup>* `` {t} - marks st. lowerCase (types ! u))"
    using assms(1) unfolding visits_def by simp
qed

lemma checkValue_again:
  assumes "valueType v \<in> marks st"
  shows "checkValue types v st = Some st"
proof -
  obtain m where "checked st = Some m" using assms by (cases "checked st") (simp_all add: marks_def)
  then show ?thesis using assms by (simp add: checkValue_def Let_def)
qed

section \<open>The walk through a value\<close>

text \<open>No basic value down to the third level is different from the default.\<close>

fun defaultTo :: "rvalue \<Rightarrow> nat \<Rightarrow> bool"
and defaultFields :: "(string \<times> rvalue) list \<Rightarrow> nat \<Rightarrow> bool" where
  "defaultTo (VStruct n fs) depth \<longleftrightarrow> depth > 3 \<or> defaultFields fs depth"
| "defaultTo (VPtr p) depth \<longleftrightarrow> depth > 3 \<or> (case p of None \<Rightarrow> True | Some v \<Rightarrow> defaultTo v (depth + 1))"
| "defaultTo (VBool n b) depth \<longleftrightarrow> depth > 3 \<or> b = False"
| "defaultTo (VInt n i) depth \<longleftrightarrow> depth > 3 \<or> i = 0"
| "defaultTo (VString n s) depth \<longleftrightarrow> depth > 3 \<or> s = ''''"
| "defaultTo VOther depth \<longleftrightarrow> True"
| "defaultFields [] depth \<longleftrightarrow> True"
| "defaultFields ((f, v) # fs) depth \<longleftrightarrow> defaultTo v (depth + 1) \<and> defaultFields fs depth"

lemma checkBasic_counts:
  "isDefault v \<Longrightarrow> checkBasic v name st = st" "\<not> isDefault v \<Longrightarrow> errorCount (checkBasic v name st) = errorCount st + 1"
  by (simp_all add: checkBasic_def Let_def)

text \<open>The check is silent exactly on such values.\<close>

lemma checkDefault1_detects:
  "(if defaultTo v depth then checkDefault1 v depth name st = st else errorCount st < errorCount (checkDefault1 v depth name st))"
  "(if defaultFields fs depth then checkDefaultFields fs depth name st = st
    else errorCount st < errorCount (checkDefaultFields fs depth name st))"
proof (induction v depth name st and fs depth name st rule: checkDefault1_checkDefaultFields.induct)
  case (8 f v fs depth name st)
  then show ?case by (auto simp: Let_def split: if_splits)
qed (auto simp: checkBasic_counts split: option.splits if_splits)

section \<open>Properties\<close>

text \<open>
  C36. The check of the types ends, also on recursive types, and complains exactly once: it visits the
  types reachable from the type of the value, counts one error for each lower-case field of those that
  were not visited before, and checking the same value again finds nothing.
\<close>

theorem labgob_checks_once:
  assumes "wfTypes types" "consistent types st" "valueType v < length types"
  shows "\<exists>st'. checkValue types v st = Some st' \<and> consistent types st' \<and>
    marks st' = marks st \<union> (refRel types)\<^sup>* `` {valueType v} \<and>
    errorCount st' = errorCount st + (\<Sum>u \<in> (refRel types)\<^sup>* `` {valueType v} - marks st. lowerCase (types ! u)) \<and>
    checkValue types v st' = Some st'"
proof -
  have "card ({..<length types} - marks st) \<le> card {..<length types}" by (intro card_mono) auto
  then obtain st' where st': "checkValue types v st = Some st'" "visits types st {valueType v} 0 st'"
    using checkType_visits[OF assms(1,3), of st "Suc (length types)"] by (auto simp: checkValue_def)
  then have "valueType v \<in> marks st'" by (simp add: visits_def)
  then show ?thesis using st'(1) visits_reach[OF st'(2) assms(2)] checkValue_again[of v st' types] by blast
qed

text \<open>A linked list with a field that is not exported.\<close>

abbreviation listTypes :: "rtype list" where
  "listTypes \<equiv> [RStruct ''Node'' [(''Next'', 1), (''val'', 2)], RPtr 0, RBasic ''int'']"

abbreviation freshState :: Labgob where
  "freshState \<equiv> \<lparr>errorCount = 0, checked = None, printed = []\<rparr>"

theorem labgob_checks_once_witness:
  "\<exists>st'. checkValue listTypes \<lparr>valueType = 1, valueOf = None\<rparr> freshState = Some st' \<and> errorCount st' = 1 \<and>
     printed st' = [LowerCase ''val'' ''Node''] \<and> checkValue listTypes \<lparr>valueType = 1, valueOf = None\<rparr> st' = Some st'"
proof -
  let ?v = "\<lparr>valueType = 1, valueOf = None\<rparr>"
  have e: "\<exists>st'. checkValue listTypes ?v freshState = Some st' \<and> errorCount st' = 1 \<and> printed st' = [LowerCase ''val'' ''Node'']"
    by (simp add: checkValue_def isChecked_def markChecked_def checkField_def isUpper_def del: marks_simps)
  have "wfTypes listTypes" by (simp add: wfTypes_def)
  moreover have "consistent listTypes freshState" by (simp add: consistent_def marks_def)
  ultimately obtain st' where "checkValue listTypes ?v freshState = Some st'" "checkValue listTypes ?v st' = Some st'"
    using labgob_checks_once[of listTypes freshState ?v] by auto
  then show ?thesis using e by auto
qed

end
