(* ===== verification/Clerks.thy ===== *)
theory Clerks
  imports Go_Prelude "HOL-Library.Word"
begin

text \<open>
  The client side of the sharded key/value service: \<open>shardmaster/common.go\<close> and \<open>client.go\<close>,
  \<open>shardkv/common.go\<close> and \<open>client.go\<close>. A clerk asks servers until one answers; the servers and the
  network are a world \<open>'w\<close> that an RPC changes, and an RPC is an argument: it takes an end \<open>'p\<close>,
  the arguments and the world, and gives whether \<open>Call\<close> returned true, the reply and the new world.

  The loops may run forever. \<open>retry\<close> is a partial function: not returning is \<open>None\<close>. A round gives
  \<open>Inl\<close> for a panic, \<open>Inr (Some r)\<close> to return and \<open>Inr None\<close> to go on. The sleep between two rounds
  changes nothing the clerk can see.
\<close>

section \<open>Configurations, arguments and replies\<close>

definition NShards :: int where
  "NShards = 10"

record Config =
  Num :: int
  Shards :: "int list"
  Groups :: "int \<rightharpoonup> string list"

definition OK :: string where "OK = ''OK''"
definition ErrWrongGroup :: string where "ErrWrongGroup = ''ErrWrongGroup''"

record JoinArgs =
  Servers :: "int \<rightharpoonup> string list"

record LeaveArgs =
  GIDs :: "int list"

record MoveArgs =
  Shard :: int
  GID :: int

record QueryArgs =
  QueryNum :: int \<comment> \<open>\<open>Num\<close>\<close>

text \<open>The replies of \<open>Join\<close>, \<open>Leave\<close>, \<open>Move\<close> and \<open>PutAppend\<close> have the two common fields only.\<close>

record Reply =
  WrongLeader :: bool
  Err :: string

record QueryReply = Reply +
  ReplyConfig :: Config \<comment> \<open>\<open>Config\<close>\<close>



record PutAppendArgs =
  PutKey :: string \<comment> \<open>\<open>Key\<close>\<close>
  PutValue :: string \<comment> \<open>\<open>Value\<close>\<close>
  PutOp :: string \<comment> \<open>\<open>Op\<close>\<close>

type_synonym ('p, 'a, 'r, 'w) rpc = "'p \<Rightarrow> 'a \<Rightarrow> 'w \<Rightarrow> (bool \<times> 'r) \<times> 'w"

section \<open>Asking until somebody answers\<close>

partial_function (option) retry ::
  "('s \<Rightarrow> 'r option res \<times> 's) \<Rightarrow> ('s \<Rightarrow> 's option) \<Rightarrow> 's \<Rightarrow> ('r res \<times> 's) option" where
  "retry round between s =
     (case round s of (result, s1) \<Rightarrow>
        (case result of
           Inl e \<Rightarrow> Some (Inl e, s1)
         | Inr answer \<Rightarrow>
             (case answer of
                Some r \<Rightarrow> Some (Inr r, s1)
              | None \<Rightarrow> (case between s1 of None \<Rightarrow> None | Some s2 \<Rightarrow> retry round between s2))))"







section \<open>The clerk of the shard master\<close>

record 'p MasterClerk =
  masterEnds :: "'p list" \<comment> \<open>\<open>servers\<close>\<close>


text \<open>One pass over the known servers, the inner loop of all four operations.\<close>

fun askServers :: "('p, 'a, 'r Reply_scheme, 'w) rpc \<Rightarrow> 'a \<Rightarrow> 'p list \<Rightarrow> 'w \<Rightarrow> 'r Reply_scheme option \<times> 'w" where
  "askServers call args [] w = (None, w)"
| "askServers call args (srv # ends) w =
     (let ((ok, reply), w) = call srv args w in
      if ok \<and> WrongLeader reply = False then (Some reply, w) else askServers call args ends w)"

definition askMaster :: "('p, 'a, 'r Reply_scheme, 'w) rpc \<Rightarrow> 'a \<Rightarrow> 'p MasterClerk \<Rightarrow> 'w \<Rightarrow> ('r Reply_scheme \<times> 'w) option" where
  "askMaster call args ck w =
     (case retry (\<lambda>w. let (answer, w) = askServers call args (masterEnds ck) w in (Inr answer, w)) Some w of
        Some (Inr reply, w) \<Rightarrow> Some (reply, w)
      | _ \<Rightarrow> None)"

definition Query :: "('p, QueryArgs, QueryReply, 'w) rpc \<Rightarrow> 'p MasterClerk \<Rightarrow> int \<Rightarrow> 'w \<Rightarrow> (Config \<times> 'w) option" where
  "Query call ck num w =
     (let args = \<lparr>QueryNum = num\<rparr>
      in map_option (\<lambda>(reply, w). (ReplyConfig reply, w)) (askMaster call args ck w))"

definition Join :: "('p, JoinArgs, Reply, 'w) rpc \<Rightarrow> 'p MasterClerk \<Rightarrow> (int \<rightharpoonup> string list) \<Rightarrow> 'w \<Rightarrow> 'w option" where
  "Join call ck newServers w =
     (let args = \<lparr>Servers = newServers\<rparr> in map_option snd (askMaster call args ck w))"

definition LeaveGroups :: "('p, LeaveArgs, Reply, 'w) rpc \<Rightarrow> 'p MasterClerk \<Rightarrow> int list \<Rightarrow> 'w \<Rightarrow> 'w option" where
  "LeaveGroups call ck gids w =
     (let args = \<lparr>GIDs = gids\<rparr> in map_option snd (askMaster call args ck w))"

definition Move :: "('p, MoveArgs, Reply, 'w) rpc \<Rightarrow> 'p MasterClerk \<Rightarrow> int \<Rightarrow> int \<Rightarrow> 'w \<Rightarrow> 'w option" where
  "Move call ck shard gid w =
     (let args = \<lparr>Shard = shard, GID = gid\<rparr> in map_option snd (askMaster call args ck w))"

section \<open>The clerk of the key/value service\<close>

definition key2shard :: "string \<Rightarrow> int" where
  "key2shard key =
     (let shard = 0;
          shard = (if len key > 0 then of_char (key ! 0) else shard)
      in shard mod NShards)"

record 'p ShardClerk =
  sm :: "'p MasterClerk"
  config :: Config
  make_end :: "string \<Rightarrow> 'p"



fun putServers :: "('p, PutAppendArgs, Reply, 'w) rpc \<Rightarrow> (string \<Rightarrow> 'p) \<Rightarrow> PutAppendArgs \<Rightarrow> string list \<Rightarrow> 'w \<Rightarrow> unit option \<times> 'w" where
  "putServers call mk args [] w = (None, w)"
| "putServers call mk args (name # names) w =
     (let ((ok, reply), w) = call (mk name) args w in
      if ok \<and> WrongLeader reply = False \<and> Err reply = OK then (Some (), w)
      else if ok \<and> Err reply = ErrWrongGroup then (None, w)
      else putServers call mk args names w)"

text \<open>
  One round: the group of the key's shard in the clerk's configuration is asked. Reading the array
  \<open>Shards\<close> out of its range would be a panic.
\<close>

definition shardRound ::
  "(string list \<Rightarrow> 'w \<Rightarrow> 'r option \<times> 'w) \<Rightarrow> string \<Rightarrow> 'p ShardClerk \<times> 'w \<Rightarrow> 'r option res \<times> 'p ShardClerk \<times> 'w" where
  "shardRound ask key = (\<lambda>(ck, w).
     let shard = key2shard key in
     case idx (Shards (config ck)) shard of
       Inl e \<Rightarrow> (Inl e, ck, w)
     | Inr gid \<Rightarrow>
         (case Groups (config ck) gid of
            Some names \<Rightarrow> (let (answer, w) = ask names w in (Inr answer, ck, w))
          | None \<Rightarrow> (Inr None, ck, w)))"

definition refresh :: "('p, QueryArgs, QueryReply, 'w) rpc \<Rightarrow> 'p ShardClerk \<times> 'w \<Rightarrow> ('p ShardClerk \<times> 'w) option" where
  "refresh query = (\<lambda>(ck, w). map_option (\<lambda>(cfg, w). (ck\<lparr>config := cfg\<rparr>, w)) (Query query (sm ck) (-1) w))"


definition PutAppend ::
  "('p, QueryArgs, QueryReply, 'w) rpc \<Rightarrow> ('p, PutAppendArgs, Reply, 'w) rpc \<Rightarrow> string \<Rightarrow> string \<Rightarrow> string \<Rightarrow> 'p ShardClerk \<times> 'w \<Rightarrow>
   (unit res \<times> 'p ShardClerk \<times> 'w) option" where
  "PutAppend query call key val operation s =
     (let args = \<lparr>PutKey = key, PutValue = val, PutOp = operation\<rparr>
      in retry (shardRound (putServers call (make_end (fst s)) args) key) (refresh query) s)"

definition Put :: "('p, QueryArgs, QueryReply, 'w) rpc \<Rightarrow> ('p, PutAppendArgs, Reply, 'w) rpc \<Rightarrow> string \<Rightarrow> string \<Rightarrow> 'p ShardClerk \<times> 'w \<Rightarrow>
   (unit res \<times> 'p ShardClerk \<times> 'w) option" where
  "Put query call key val s = PutAppend query call key val ''Put'' s"

definition Append :: "('p, QueryArgs, QueryReply, 'w) rpc \<Rightarrow> ('p, PutAppendArgs, Reply, 'w) rpc \<Rightarrow> string \<Rightarrow> string \<Rightarrow> 'p ShardClerk \<times> 'w \<Rightarrow>
   (unit res \<times> 'p ShardClerk \<times> 'w) option" where
  "Append query call key val s = PutAppend query call key val ''Append'' s"

section \<open>What a clerk returns\<close>

lemma askServers_answer:
  "askServers call args ends w = (Some r, w') \<Longrightarrow> \<exists>srv \<in> set ends. \<exists>w1. call srv args w1 = ((True, r), w') \<and> \<not> WrongLeader r"
  by (induction ends arbitrary: w) (auto split: prod.splits if_splits)
















end
