(* ===== verification/Raft_Config.thy ===== *)
theory Raft_Config
  imports Raft Labrpc
begin

text \<open>
  \<open>raft/config.go\<close>, the tester of the Raft lab: it starts, crashes and restarts peers, attaches them to
  and detaches them from the network of \<open>labrpc\<close>, reads what they apply and checks that they agree.

  Random names (\<open>randstring\<close>) are arguments: a list of at least \<open>cfg.n\<close> names for the ends of a peer. What a peer answers to \<open>GetState\<close> at the moment it is asked
  is an argument too, since the peers run on between two calls. A failing \<open>t.Fatal\<close> is a \<open>LogFatal\<close>.
  A running peer and the tester share its persister: while the peer runs, the content of \<open>saved\<close> is what
  the peer has in \<open>persister\<close> (\<open>stored\<close>). Clocks and statistics on time are not modelled.
\<close>

section \<open>The tester\<close>

datatype cmd = GoInt int | GoOther string \<comment> \<open>the dynamic types of \<open>Command\<close>\<close>

record config =
  cfgNet :: "(string, int) Network" \<comment> \<open>\<open>net\<close>\<close>
  cfgN :: int \<comment> \<open>\<open>n\<close>\<close>
  rafts :: "cmd Raft option list"
  applyErr :: "string list"
  connected :: "bool list"
  saved :: "cmd gobval Persister option list"
  endnames :: "string list option list" \<comment> \<open>\<open>None\<close> is a nil slice\<close>
  logs :: "(int \<rightharpoonup> int) list"
  rpcs0 :: int
  cmds0 :: int
  maxIndex :: int
  maxIndex0 :: int
  srvAlloc :: nat \<comment> \<open>number of servers made, the next address\<close>

definition upTo :: "int \<Rightarrow> int list" where
  "upTo n = map int [0..<nat n]"

text \<open>\<open>cfg.endnames[i][j]\<close>; indexing a nil slice panics.\<close>

definition endAt :: "config \<Rightarrow> int \<Rightarrow> int \<Rightarrow> string res" where
  "endAt cfg i j =
     bindR (idx (endnames cfg) i) (\<lambda>row. case row of None \<Rightarrow> Inl IndexOutOfRange | Some names \<Rightarrow> idx names j)"

definition enableEnd :: "bool \<Rightarrow> config \<Rightarrow> int \<Rightarrow> int \<Rightarrow> (string, int) Network \<Rightarrow> (string, int) Network res" where
  "enableEnd b cfg i j rn = bindR (endAt cfg i j) (\<lambda>endname. Inr (Enable endname b rn))"

section \<open>Attaching and detaching\<close>

text \<open>The loops change the network only.\<close>

definition connectOut :: "config \<Rightarrow> int \<Rightarrow> int \<Rightarrow> (string, int) Network \<Rightarrow> (string, int) Network res" where
  "connectOut cfg i j rn = bindR (idx (connected cfg) j) (\<lambda>c. if c then enableEnd True cfg i j rn else Inr rn)"

definition connectIn :: "config \<Rightarrow> int \<Rightarrow> int \<Rightarrow> (string, int) Network \<Rightarrow> (string, int) Network res" where
  "connectIn cfg i j rn = bindR (idx (connected cfg) j) (\<lambda>c. if c then enableEnd True cfg j i rn else Inr rn)"

definition connect :: "int \<Rightarrow> config \<Rightarrow> config res" where
  "connect i cfg =
     bindR (upd (connected cfg) i True) (\<lambda>c.
     let cfg = cfg\<lparr>connected := c\<rparr> in
     bindR (foldR (connectOut cfg i) (upTo (cfgN cfg)) (cfgNet cfg)) (\<lambda>rn.
     bindR (foldR (connectIn cfg i) (upTo (cfgN cfg)) rn) (\<lambda>rn.
       Inr (cfg\<lparr>cfgNet := rn\<rparr>))))"

definition disconnectOut :: "config \<Rightarrow> int \<Rightarrow> int \<Rightarrow> (string, int) Network \<Rightarrow> (string, int) Network res" where
  "disconnectOut cfg i j rn =
     bindR (idx (endnames cfg) i) (\<lambda>row. if row \<noteq> None then enableEnd False cfg i j rn else Inr rn)"

definition disconnectIn :: "config \<Rightarrow> int \<Rightarrow> int \<Rightarrow> (string, int) Network \<Rightarrow> (string, int) Network res" where
  "disconnectIn cfg i j rn =
     bindR (idx (endnames cfg) j) (\<lambda>row. if row \<noteq> None then enableEnd False cfg j i rn else Inr rn)"

definition disconnect :: "int \<Rightarrow> config \<Rightarrow> config res" where
  "disconnect i cfg =
     bindR (upd (connected cfg) i False) (\<lambda>c.
     let cfg = cfg\<lparr>connected := c\<rparr> in
     bindR (foldR (disconnectOut cfg i) (upTo (cfgN cfg)) (cfgNet cfg)) (\<lambda>rn.
     bindR (foldR (disconnectIn cfg i) (upTo (cfgN cfg)) rn) (\<lambda>rn.
       Inr (cfg\<lparr>cfgNet := rn\<rparr>))))"

section \<open>Crashing and starting peers\<close>

definition stored :: "config \<Rightarrow> int \<Rightarrow> cmd gobval Persister option res" where
  "stored cfg i =
     bindR (idx (saved cfg) i) (\<lambda>s.
     bindR (idx (rafts cfg) i) (\<lambda>r.
       Inr (case (s, r) of (Some _, Some rf) \<Rightarrow> Some (persister rf) | _ \<Rightarrow> s)))"

text \<open>
  \<open>Kill\<close> only signals the instance, which the tester then forgets. The last step keeps the Raft state of
  the persister and drops its snapshot.
\<close>

definition crash1 :: "int \<Rightarrow> config \<Rightarrow> config res" where
  "crash1 i cfg =
     bindR (disconnect i cfg) (\<lambda>cfg.
     let cfg = cfg\<lparr>cfgNet := DeleteServer i (cfgNet cfg)\<rparr> in
     bindR (stored cfg i) (\<lambda>s.
     let s = map_option Copy s in
     bindR (upd (rafts cfg) i None) (\<lambda>rs.
     let s = (case s of
           None \<Rightarrow> None
         | Some ps \<Rightarrow> (let raftlog = ReadRaftState ps in Some (SaveRaftState \<lparr>raftstate = [], snapshot = []\<rparr> raftlog))) in
     bindR (upd (saved cfg) i s) (\<lambda>sv. Inr (cfg\<lparr>rafts := rs, saved := sv\<rparr>)))))"

definition makeEnds :: "string list \<Rightarrow> int \<Rightarrow> (string, int) Network \<Rightarrow> (string, int) Network res" where
  "makeEnds names j rn =
     bindR (idx names j) (\<lambda>e. bindR (MakeEnd e rn) (\<lambda>rn. Inr (Connect e j rn)))"

definition start1 :: "string list \<Rightarrow> int \<Rightarrow> config \<Rightarrow> config res" where
  "start1 names i cfg =
     bindR (crash1 i cfg) (\<lambda>cfg.
     bindR (upd (endnames cfg) i (Some (take (nat (cfgN cfg)) names))) (\<lambda>es.
     bindR (foldR (makeEnds names) (upTo (cfgN cfg)) (cfgNet cfg)) (\<lambda>rn.
     let cfg = cfg\<lparr>endnames := es, cfgNet := rn\<rparr> in
     bindR (idx (saved cfg) i) (\<lambda>s.
     let ps = (case s of Some ps \<Rightarrow> Copy ps | None \<Rightarrow> MakePersister) in
     bindR (upd (saved cfg) i (Some ps)) (\<lambda>sv.
     let rf = Make (nat (cfgN cfg)) i ps in
     bindR (upd (rafts cfg) i (Some rf)) (\<lambda>rs.
       Inr (cfg\<lparr>saved := sv, rafts := rs, cfgNet := AddServer i (srvAlloc cfg) (cfgNet cfg), srvAlloc := srvAlloc cfg + 1\<rparr>)))))))"

text \<open>The reader of the apply channel of peer \<open>i\<close> gets one message; the program ends when it finds an error.\<close>

definition applyMsg :: "int \<Rightarrow> cmd ApplyMsg \<Rightarrow> config \<Rightarrow> config res" where
  "applyMsg i m cfg =
     (if \<not> CommandValid m then Inr cfg
      else case Command m of
        Some (GoInt v) \<Rightarrow>
          (let clash = list_ex (\<lambda>l. case l (CommandIndex m) of Some old \<Rightarrow> old \<noteq> v | None \<Rightarrow> False) (logs cfg) in
           bindR (idx (logs cfg) i) (\<lambda>l.
           let prevok = (l (CommandIndex m - 1) \<noteq> None) in
           bindR (upd (logs cfg) i (l(CommandIndex m \<mapsto> v))) (\<lambda>ls.
           let cfg = cfg\<lparr>logs := ls\<rparr>;
               cfg = (if CommandIndex m > maxIndex cfg then cfg\<lparr>maxIndex := CommandIndex m\<rparr> else cfg)
           in if CommandIndex m > 1 \<and> \<not> prevok then Inl (LogFatal ''apply error: server apply out of order'')
              else if clash then Inl (LogFatal ''apply error: commit index'')
              else Inr cfg)))
      | _ \<Rightarrow> Inl (LogFatal ''apply error: committed command is not an int''))"

definition setunreliable :: "bool \<Rightarrow> config \<Rightarrow> config" where
  "setunreliable unrel cfg = cfg\<lparr>cfgNet := Reliable (\<not> unrel) (cfgNet cfg)\<rparr>"

definition setlongreordering :: "bool \<Rightarrow> config \<Rightarrow> config" where
  "setlongreordering longrel cfg = cfg\<lparr>cfgNet := LongReordering longrel (cfgNet cfg)\<rparr>"

text \<open>\<open>names i\<close> are the random names for the ends of peer \<open>i\<close>.\<close>

definition emptyConfig :: "int \<Rightarrow> config" where
  "emptyConfig n =
     \<lparr>cfgNet = MakeNetwork, cfgN = n, rafts = replicate (nat n) None, applyErr = replicate (nat n) '''',
      connected = replicate (nat n) False, saved = replicate (nat n) None, endnames = replicate (nat n) None,
      logs = replicate (nat n) Map.empty, rpcs0 = 0, cmds0 = 0, maxIndex = 0, maxIndex0 = 0, srvAlloc = 0\<rparr>"

definition make_config :: "int \<Rightarrow> bool \<Rightarrow> (int \<Rightarrow> string list) \<Rightarrow> config res" where
  "make_config n unreliable names =
     (let cfg = setunreliable unreliable (emptyConfig n);
          cfg = cfg\<lparr>cfgNet := LongDelays True (cfgNet cfg)\<rparr>
      in bindR (foldR (\<lambda>i. start1 (names i) i) (upTo n) cfg) (foldR connect (upTo n)))"

definition cleanup :: "config \<Rightarrow> config res" where
  "cleanup cfg =
     (let cfg = cfg\<lparr>rafts := map (map_option Kill) (rafts cfg)\<rparr>
      in bindR (Cleanup (cfgNet cfg)) (\<lambda>rn. Inr (cfg\<lparr>cfgNet := rn\<rparr>)))"

definition rpcTotal :: "config \<Rightarrow> int" where
  "rpcTotal cfg = GetTotalCount (cfgNet cfg)"

definition beginTest :: "config \<Rightarrow> config" where
  "beginTest cfg = cfg\<lparr>rpcs0 := rpcTotal cfg, cmds0 := 0, maxIndex0 := maxIndex cfg\<rparr>"

section \<open>Checks\<close>

type_synonym states = "int \<Rightarrow> int \<times> bool" \<comment> \<open>what the peers answer to \<open>GetState\<close>\<close>

definition askState :: "states \<Rightarrow> config \<Rightarrow> int \<Rightarrow> (int \<times> bool) res" where
  "askState obs cfg i = bindR (idx (rafts cfg) i) (\<lambda>r. if Option.is_none r then Inl NilDereference else Inr (obs i))"

text \<open>The leaders that a poll finds, by term, in the order of the peers; and the loop over that map.\<close>

definition pollLeader :: "states \<Rightarrow> config \<Rightarrow> int \<Rightarrow> (int \<rightharpoonup> int list) \<Rightarrow> (int \<rightharpoonup> int list) res" where
  "pollLeader obs cfg i leaders =
     bindR (idx (connected cfg) i) (\<lambda>c.
       if c then
         bindR (askState obs cfg i) (\<lambda>(term, leader).
           Inr (if leader then leaders(term \<mapsto> (case leaders term of None \<Rightarrow> [i] | Some ps \<Rightarrow> ps @ [i])) else leaders))
       else Inr leaders)"

definition pollLeaders :: "states \<Rightarrow> config \<Rightarrow> (int \<rightharpoonup> int list) res" where
  "pollLeaders obs cfg = foldR (pollLeader obs cfg) (upTo (cfgN cfg)) Map.empty"

fun checkLeaders :: "(int \<times> int list) list \<Rightarrow> int \<Rightarrow> int res" where
  "checkLeaders [] lastTermWithLeader = Inr lastTermWithLeader"
| "checkLeaders ((term, ps) # ls) lastTermWithLeader =
     (if length ps > 1 then Inl (LogFatal ''term has more than one leader'')
      else checkLeaders ls (if term > lastTermWithLeader then term else lastTermWithLeader))"

text \<open>\<open>rng\<close> lists the map \<open>leaders\<close> in the order of the range loop; one element of \<open>polls\<close> per iteration.\<close>

fun checkOneLeader :: "((int \<rightharpoonup> int list) \<Rightarrow> (int \<times> int list) list) \<Rightarrow> states list \<Rightarrow> config \<Rightarrow> int res" where
  "checkOneLeader rng [] cfg = Inl (LogFatal ''expected one leader, got none'')"
| "checkOneLeader rng (obs # polls) cfg =
     bindR (pollLeaders obs cfg) (\<lambda>leaders.
     bindR (checkLeaders (rng leaders) (-1)) (\<lambda>lastTermWithLeader.
       if rng leaders \<noteq> [] then
         (case leaders lastTermWithLeader of None \<Rightarrow> Inl IndexOutOfRange | Some ps \<Rightarrow> idx ps 0)
       else checkOneLeader rng polls cfg))"

definition checkTerm :: "states \<Rightarrow> config \<Rightarrow> int \<Rightarrow> int \<Rightarrow> int res" where
  "checkTerm obs cfg i term =
     bindR (idx (connected cfg) i) (\<lambda>c.
       if c then
         bindR (askState obs cfg i) (\<lambda>(xterm, _).
           if term = -1 then Inr xterm
           else if term \<noteq> xterm then Inl (LogFatal ''servers disagree on term'')
           else Inr term)
       else Inr term)"

definition checkTerms :: "states \<Rightarrow> config \<Rightarrow> int res" where
  "checkTerms obs cfg = foldR (checkTerm obs cfg) (upTo (cfgN cfg)) (-1)"

definition checkNoLeader :: "states \<Rightarrow> config \<Rightarrow> unit res" where
  "checkNoLeader obs cfg =
     foldR (\<lambda>i _. bindR (idx (connected cfg) i) (\<lambda>c.
       if c then
         bindR (askState obs cfg i) (\<lambda>(_, is_leader).
           if is_leader then Inl (LogFatal ''expected no leader'') else Inr ())
       else Inr ())) (upTo (cfgN cfg)) ()"

definition countCommitted :: "int \<Rightarrow> config \<Rightarrow> int \<Rightarrow> int \<times> int \<Rightarrow> (int \<times> int) res" where
  "countCommitted index cfg i = (\<lambda>(cnt, c).
     bindR (idx (applyErr cfg) i) (\<lambda>err.
       if err \<noteq> '''' then Inl (LogFatal err)
       else
         bindR (idx (logs cfg) i) (\<lambda>l.
           case l index of
             Some cmd1 \<Rightarrow>
               if cnt > 0 \<and> c \<noteq> cmd1 then Inl (LogFatal ''committed values do not match'') else Inr (cnt + 1, cmd1)
           | None \<Rightarrow> Inr (cnt, c))))"

definition nCommitted :: "int \<Rightarrow> config \<Rightarrow> (int \<times> int) res" where
  "nCommitted index cfg = foldR (countCommitted index cfg) (upTo (len (rafts cfg))) (0, -1)"

end
