(* ===== verification/Tester_Rows.thy ===== *)
theory Tester_Rows
  imports Raft_Config
begin

text \<open>
  The names of ends that a tester keeps, one row per server with an end to each server: rows of servers
  that have been started are long enough, no name occurs twice, and the network knows every end and leads
  it to its server. The testers of Raft and of the services above it share this part.
\<close>

section \<open>Loops over the network\<close>

lemma set_upTo [simp]: "set (upTo n) = {0..<n}"
  by (cases "0 \<le> n") (simp_all add: upTo_def image_int_atLeastLessThan)

lemma upTo_nat: "upTo (int k) = map int [0..<k]"
  by (simp add: upTo_def)

text \<open>A loop that enables, or disables, the ends \<open>nm j\<close> for the \<open>j\<close> with \<open>P j\<close>.\<close>

lemma foldR_enable:
  assumes "\<And>j rn. j \<in> set js \<Longrightarrow> f j rn = Inr (if P j then Enable (nm j) b rn else rn)"
  shows "foldR f js rn = Inr (rn\<lparr>enabled := (\<lambda>e. if \<exists>j \<in> set js. P j \<and> nm j = e then b else enabled rn e)\<rparr>)"
  using assms
proof (induction js arbitrary: rn)
  case (Cons j js)
  let ?rn = "if P j then Enable (nm j) b rn else rn"
  have "foldR f (j # js) rn = foldR f js ?rn" using Cons.prems[of j] by simp
  also have "\<dots> = Inr (?rn\<lparr>enabled := (\<lambda>e. if \<exists>j \<in> set js. P j \<and> nm j = e then b else enabled ?rn e)\<rparr>)"
    using Cons by simp
  also have "(\<lambda>e. if \<exists>j \<in> set js. P j \<and> nm j = e then b else enabled ?rn e) =
      (\<lambda>e. if \<exists>i \<in> set (j # js). P i \<and> nm i = e then b else enabled rn e)"
    by (rule ext) (auto simp: Enable_def)
  also have "?rn\<lparr>enabled := F\<rparr> = rn\<lparr>enabled := F\<rparr>" for F by (simp add: Enable_def)
  finally show ?case .
qed simp

lemma foldR_enable_all:
  assumes "\<And>j rn. j \<in> set js \<Longrightarrow> f j rn = Inr (Enable (name j) b rn)"
  shows "foldR f js rn = Inr (rn\<lparr>enabled := (\<lambda>e. if \<exists>j \<in> set js. name j = e then b else enabled rn e)\<rparr>)"
  using foldR_enable[of js f "\<lambda>_. True" name b rn] assms by simp

lemma foldR_each: "foldR f xs s = Inr t \<Longrightarrow> x \<in> set xs \<Longrightarrow> \<exists>s1 s2. f x s1 = Inr s2"
proof (induction xs arbitrary: s)
  case (Cons y xs)
  then obtain u where "f y s = Inr u" "foldR f xs u = Inr t" by (auto simp: bindR_eq_Inr)
  then show ?case using Cons by auto
qed simp

section \<open>Rows of ends\<close>

definition hasEnds :: "string list option list \<Rightarrow> int \<Rightarrow> bool" where
  "hasEnds rows i \<longleftrightarrow> rows ! nat i \<noteq> None"

definition cell :: "string list option list \<Rightarrow> int \<Rightarrow> int \<Rightarrow> string" where
  "cell rows i j = the (rows ! nat i) ! nat j"

definition rowsOk :: "int \<Rightarrow> string list option list \<Rightarrow> (string, int) Network \<Rightarrow> bool" where
  "rowsOk n rows rn \<longleftrightarrow>
     len rows = n \<and>
     (\<forall>i \<in> {0..<n}. hasEnds rows i \<longrightarrow> n \<le> len (the (rows ! nat i))) \<and>
     (\<forall>i \<in> {0..<n}. \<forall>j \<in> {0..<n}. \<forall>i' \<in> {0..<n}. \<forall>j' \<in> {0..<n}.
        hasEnds rows i \<and> hasEnds rows i' \<and> cell rows i j = cell rows i' j' \<longrightarrow> i = i' \<and> j = j') \<and>
     (\<forall>i \<in> {0..<n}. \<forall>j \<in> {0..<n}. hasEnds rows i \<longrightarrow>
        ends rn (cell rows i j) \<noteq> None \<and> connections rn (cell rows i j) = Some j)"

lemma rowsOkD:
  assumes "rowsOk n rows rn"
  shows "len rows = n"
    "\<And>i. i \<in> {0..<n} \<Longrightarrow> hasEnds rows i \<Longrightarrow> n \<le> len (the (rows ! nat i))"
    "\<And>i j i' j'. i \<in> {0..<n} \<Longrightarrow> j \<in> {0..<n} \<Longrightarrow> i' \<in> {0..<n} \<Longrightarrow> j' \<in> {0..<n} \<Longrightarrow> hasEnds rows i \<Longrightarrow> hasEnds rows i' \<Longrightarrow>
       cell rows i j = cell rows i' j' \<Longrightarrow> i = i' \<and> j = j'"
    "\<And>i j. i \<in> {0..<n} \<Longrightarrow> j \<in> {0..<n} \<Longrightarrow> hasEnds rows i \<Longrightarrow> ends rn (cell rows i j) \<noteq> None"
    "\<And>i j. i \<in> {0..<n} \<Longrightarrow> j \<in> {0..<n} \<Longrightarrow> hasEnds rows i \<Longrightarrow> connections rn (cell rows i j) = Some j"
  using assms unfolding rowsOk_def by blast+

lemma rowsOk_grow:
  assumes ok: "rowsOk n rows rn"
    and grow: "\<And>e. ends rn e \<noteq> None \<Longrightarrow> ends rn' e \<noteq> None \<and> connections rn' e = connections rn e"
  shows "rowsOk n rows rn'"
proof -
  have "\<forall>i \<in> {0..<n}. \<forall>j \<in> {0..<n}. hasEnds rows i \<longrightarrow> ends rn' (cell rows i j) \<noteq> None \<and> connections rn' (cell rows i j) = Some j"
    using rowsOkD(4,5)[OF ok] grow by metis
  then show ?thesis using ok unfolding rowsOk_def by blast
qed

lemma rowsOk_empty: "0 \<le> n \<Longrightarrow> rowsOk n (replicate (nat n) None) rn"
  by (simp add: rowsOk_def hasEnds_def)

text \<open>The name of an end, when the tester has it.\<close>

lemma rowsOk_lookup:
  assumes "rowsOk n rows rn" "i \<in> {0..<n}" "j \<in> {0..<n}"
  shows "bindR (idx rows i) (\<lambda>row. case row of None \<Rightarrow> Inl IndexOutOfRange | Some names \<Rightarrow> idx names j) =
    (if hasEnds rows i then Inr (cell rows i j) else Inl IndexOutOfRange)"
proof (cases "rows ! nat i")
  case None
  then show ?thesis using rowsOkD(1)[OF assms(1)] assms(2) by (simp add: hasEnds_def)
next
  case (Some es)
  then have "n \<le> len es" using rowsOkD(2)[OF assms(1,2)] by (simp add: hasEnds_def)
  then show ?thesis using rowsOkD(1)[OF assms(1)] assms(2,3) Some by (simp add: hasEnds_def cell_def)
qed

text \<open>
  A loop that makes ends: it fails on a name that is in use, so when it returns all names were new; the
  new ends are disabled and lead to their peers, the others are as before.
\<close>

lemma makeEnds_loop:
  assumes "foldR (makeEnds names) (map int [0..<k]) rn = Inr rn'"
  shows "k \<le> length names \<and> (\<forall>j < k. \<forall>j' < k. names ! j = names ! j' \<longrightarrow> j = j') \<and>
    (\<forall>j < k. ends rn (names ! j) = None \<and> ends rn' (names ! j) \<noteq> None \<and> connections rn' (names ! j) = Some (int j) \<and> \<not> enabled rn' (names ! j)) \<and>
    (\<forall>e. (\<forall>j < k. names ! j \<noteq> e) \<longrightarrow> ends rn' e = ends rn e \<and> connections rn' e = connections rn e \<and> enabled rn' e = enabled rn e)"
  using assms
proof (induction k arbitrary: rn')
  case (Suc k)
  obtain r1 where r1: "foldR (makeEnds names) (map int [0..<k]) rn = Inr r1" "makeEnds names (int k) r1 = Inr rn'"
    using Suc.prems by (auto simp: foldR_append bindR_eq_Inr)
  note IH = Suc.IH[OF r1(1)]
  have k: "k < length names" "ends r1 (names ! k) = None"
    "rn' = Connect (names ! k) (int k) (r1\<lparr>ends := (ends r1)(names ! k \<mapsto> \<lparr>endname = names ! k\<rparr>),
       enabled := (enabled r1)(names ! k := False), connections := (connections r1)(names ! k := None)\<rparr>)"
    using r1(2) by (auto simp: makeEnds_def MakeEnd_def go_checked split: if_splits)
  have new: "names ! j \<noteq> names ! k" if "j < k" for j using IH k(2) that by auto
  have rn: "ends rn (names ! k) = None" using IH k(2) new by metis
  have at: "ends rn' e = (if e = names ! k then Some \<lparr>endname = e\<rparr> else ends r1 e)" "connections rn' e = (if e = names ! k then Some (int k) else connections r1 e)"
    "enabled rn' e = (if e = names ! k then False else enabled r1 e)" for e by (auto simp: k(3) Connect_def)
  show ?case
  proof (intro conjI)
    show "Suc k \<le> length names" using k(1) by simp
    show "\<forall>j < Suc k. \<forall>j' < Suc k. names ! j = names ! j' \<longrightarrow> j = j'"
      using IH new by (metis less_Suc_eq)
    show "\<forall>j < Suc k. ends rn (names ! j) = None \<and> ends rn' (names ! j) \<noteq> None \<and> connections rn' (names ! j) = Some (int j) \<and> \<not> enabled rn' (names ! j)"
      using IH new rn by (auto simp: at less_Suc_eq)
    show "\<forall>e. (\<forall>j < Suc k. names ! j \<noteq> e) \<longrightarrow> ends rn' e = ends rn e \<and> connections rn' e = connections rn e \<and> enabled rn' e = enabled rn e"
      using IH by (auto simp: at less_Suc_eq)
  qed
qed simp

lemma makeEnds_upTo:
  assumes "foldR (makeEnds names) (upTo n) rn = Inr rn'"
  shows "n \<le> len names"
    "\<And>a b. a \<in> {0..<n} \<Longrightarrow> b \<in> {0..<n} \<Longrightarrow> names ! nat a = names ! nat b \<Longrightarrow> a = b"
    "\<And>j. j \<in> {0..<n} \<Longrightarrow> ends rn (names ! nat j) = None"
    "\<And>j. j \<in> {0..<n} \<Longrightarrow> ends rn' (names ! nat j) \<noteq> None"
    "\<And>j. j \<in> {0..<n} \<Longrightarrow> connections rn' (names ! nat j) = Some j"
    "\<And>j. j \<in> {0..<n} \<Longrightarrow> \<not> enabled rn' (names ! nat j)"
    "\<And>e. ends rn e \<noteq> None \<Longrightarrow> ends rn' e = ends rn e \<and> connections rn' e = connections rn e \<and> enabled rn' e = enabled rn e"
    "\<And>e. enabled rn' e \<Longrightarrow> enabled rn e"
proof -
  have u: "upTo n = map int [0..<nat n]" by (simp add: upTo_def)
  note M = makeEnds_loop[OF assms[unfolded u]]
  show "n \<le> len names" using M by linarith
  show "a = b" if "a \<in> {0..<n}" "b \<in> {0..<n}" "names ! nat a = names ! nat b" for a b
    using M that by (metis atLeastLessThan_iff eq_nat_nat_iff nat_less_eq_zless le_less_trans zless_nat_conj)
  show "ends rn (names ! nat j) = None" "ends rn' (names ! nat j) \<noteq> None" "connections rn' (names ! nat j) = Some j" "\<not> enabled rn' (names ! nat j)"
    if "j \<in> {0..<n}" for j using M that by auto
  show "ends rn' e = ends rn e \<and> connections rn' e = connections rn e \<and> enabled rn' e = enabled rn e" if "ends rn e \<noteq> None" for e
    using M that by metis
  show "enabled rn e" if "enabled rn' e" for e using M that by metis
qed

text \<open>A server gets a new row.\<close>

definition newRow :: "int \<Rightarrow> int \<Rightarrow> string list \<Rightarrow> string list option list \<Rightarrow> string list option list" where
  "newRow n i names rows = rows[nat i := Some (take (nat n) names)]"

lemma newRow_cells:
  assumes "len rows = n" "i \<in> {0..<n}" "a \<in> {0..<n}" "b \<in> {0..<n}" "n \<le> len names"
  shows "hasEnds (newRow n i names rows) a \<longleftrightarrow> a = i \<or> hasEnds rows a"
    "cell (newRow n i names rows) a b = (if a = i then names ! nat b else cell rows a b)"
  using assms by (auto simp: newRow_def hasEnds_def cell_def nth_list_update nat_eq_iff)

lemma rowsOk_newRow:
  assumes ok: "rowsOk n rows rn" and i: "i \<in> {0..<n}" and mk: "foldR (makeEnds names) (upTo n) rn = Inr rn'"
  shows "rowsOk n (newRow n i names rows) rn'" (is "rowsOk n ?r rn'")
proof -
  note D = rowsOkD[OF ok] and M = makeEnds_upTo[OF mk]
  note C = newRow_cells[OF D(1) i _ _ M(1)]
  have fresh: "names ! nat b \<noteq> cell rows a' b'" if "b \<in> {0..<n}" "a' \<in> {0..<n}" "b' \<in> {0..<n}" "hasEnds rows a'" for b a' b'
    using M(3)[OF that(1)] D(4)[OF that(2,3,4)] by auto
  have "n \<le> len (the (?r ! nat a))" if "a \<in> {0..<n}" "hasEnds ?r a" for a
    using that i D(1,2) M(1) C(1)[OF that(1) i] by (auto simp: newRow_def nth_list_update nat_eq_iff)
  moreover have "a = a' \<and> b = b'"
    if p: "a \<in> {0..<n}" "b \<in> {0..<n}" "a' \<in> {0..<n}" "b' \<in> {0..<n}" and h: "hasEnds ?r a" "hasEnds ?r a'" "cell ?r a b = cell ?r a' b'" for a b a' b'
  proof (cases "a = i"; cases "a' = i")
    assume "a = i" "a' = i"
    then show ?thesis using h(3) C(2) p M(2)[OF p(2,4)] by simp
  next
    assume "a = i" "a' \<noteq> i"
    then show ?thesis using h C p fresh[OF p(2,3,4)] by simp
  next
    assume "a \<noteq> i" "a' = i"
    then show ?thesis using h C p fresh[OF p(4,1,2)] by simp
  next
    assume "a \<noteq> i" "a' \<noteq> i"
    then show ?thesis using h C p D(3)[OF p] by simp
  qed
  moreover have "ends rn' (cell ?r a b) \<noteq> None \<and> connections rn' (cell ?r a b) = Some b"
    if p: "a \<in> {0..<n}" "b \<in> {0..<n}" "hasEnds ?r a" for a b
    using C[OF p(1,2)] p M(4,5)[OF p(2)] M(7) D(4,5)[OF p(1,2)] by (cases "a = i") auto
  moreover have "len ?r = n" using D(1) by (simp add: newRow_def)
  ultimately show ?thesis unfolding rowsOk_def by blast
qed

end
