(* ===== verification/Raft_Tester.thy ===== *)
theory Raft_Tester
  imports Tester_Rows
begin

text \<open>
  The connectivity that the Raft tester sets up: whatever sequence of starts, crashes, attachments and
  detachments it goes through, an end is enabled exactly when both of its peers are attached, it leads
  to the peer it is for, and the ends of earlier instances of a peer are dead.
\<close>

section \<open>The invariant\<close>

abbreviation peer :: "config \<Rightarrow> int \<Rightarrow> bool" where
  "peer cfg i \<equiv> 0 \<le> i \<and> i < cfgN cfg"

abbreviation hasRow :: "config \<Rightarrow> int \<Rightarrow> bool" where
  "hasRow cfg \<equiv> hasEnds (endnames cfg)"

abbreviation nm :: "config \<Rightarrow> int \<Rightarrow> int \<Rightarrow> string" where
  "nm cfg \<equiv> cell (endnames cfg)"

definition attached :: "config \<Rightarrow> int \<Rightarrow> bool" where
  "attached cfg i = connected cfg ! nat i"

definition testerInv :: "config \<Rightarrow> bool" where
  "testerInv cfg \<longleftrightarrow>
     rowsOk (cfgN cfg) (endnames cfg) (cfgNet cfg) \<and>
     len (connected cfg) = cfgN cfg \<and>
     (\<forall>i. peer cfg i \<and> attached cfg i \<longrightarrow> hasRow cfg i) \<and>
     (\<forall>i j. peer cfg i \<and> peer cfg j \<and> hasRow cfg i \<longrightarrow> (enabled (cfgNet cfg) (nm cfg i j) \<longleftrightarrow> attached cfg i \<and> attached cfg j)) \<and>
     (\<forall>e. enabled (cfgNet cfg) e \<longrightarrow> (\<exists>i j. peer cfg i \<and> peer cfg j \<and> hasRow cfg i \<and> nm cfg i j = e))"

lemma testerInv_rows: "testerInv cfg \<Longrightarrow> rowsOk (cfgN cfg) (endnames cfg) (cfgNet cfg)"
  by (simp add: testerInv_def)

lemma testerInv_cong:
  assumes "testerInv cfg" "cfgN cfg' = cfgN cfg" "connected cfg' = connected cfg" "endnames cfg' = endnames cfg"
    "ends (cfgNet cfg') = ends (cfgNet cfg)" "connections (cfgNet cfg') = connections (cfgNet cfg)" "enabled (cfgNet cfg') = enabled (cfgNet cfg)"
  shows "testerInv cfg'"
  using assms(1) unfolding testerInv_def rowsOk_def attached_def assms(2-7) .

lemma testerInvD:
  assumes "testerInv cfg"
  shows "len (connected cfg) = cfgN cfg" "len (endnames cfg) = cfgN cfg"
    "\<And>i. peer cfg i \<Longrightarrow> hasRow cfg i \<Longrightarrow> cfgN cfg \<le> len (the (endnames cfg ! nat i))"
    "\<And>i. peer cfg i \<Longrightarrow> attached cfg i \<Longrightarrow> hasRow cfg i"
    "\<And>i j i' j'. peer cfg i \<Longrightarrow> peer cfg j \<Longrightarrow> peer cfg i' \<Longrightarrow> peer cfg j' \<Longrightarrow> hasRow cfg i \<Longrightarrow> hasRow cfg i' \<Longrightarrow>
       nm cfg i j = nm cfg i' j' \<Longrightarrow> i = i' \<and> j = j'"
    "\<And>i j. peer cfg i \<Longrightarrow> peer cfg j \<Longrightarrow> hasRow cfg i \<Longrightarrow> ends (cfgNet cfg) (nm cfg i j) \<noteq> None"
    "\<And>i j. peer cfg i \<Longrightarrow> peer cfg j \<Longrightarrow> hasRow cfg i \<Longrightarrow> connections (cfgNet cfg) (nm cfg i j) = Some j"
    "\<And>i j. peer cfg i \<Longrightarrow> peer cfg j \<Longrightarrow> hasRow cfg i \<Longrightarrow> enabled (cfgNet cfg) (nm cfg i j) \<longleftrightarrow> attached cfg i \<and> attached cfg j"
    "\<And>e. enabled (cfgNet cfg) e \<Longrightarrow> \<exists>i j. peer cfg i \<and> peer cfg j \<and> hasRow cfg i \<and> nm cfg i j = e"
  using rowsOkD[OF testerInv_rows[OF assms]] assms unfolding testerInv_def by (simp, simp, simp, blast, simp, simp, simp, blast, blast)

lemma endAt_nm:
  assumes "testerInv cfg" "peer cfg i" "peer cfg j" "hasRow cfg i"
  shows "endAt cfg i j = Inr (nm cfg i j)"
  using rowsOk_lookup[OF testerInv_rows[OF assms(1)], of i j] assms(2-4) by (simp add: endAt_def)

lemma endAt_none: "testerInv cfg \<Longrightarrow> peer cfg i \<Longrightarrow> \<not> hasRow cfg i \<Longrightarrow> endAt cfg i j = Inl IndexOutOfRange"
  using testerInvD(2)[of cfg] by (simp add: endAt_def hasEnds_def)

text \<open>Changing who is attached and which ends are enabled, together.\<close>

lemma testerInv_attach:
  assumes inv: "testerInv cfg" and i: "peer cfg i" "v \<Longrightarrow> hasRow cfg i"
    and en: "\<And>e. en e \<longleftrightarrow> (if \<exists>j. peer cfg j \<and> (v \<longrightarrow> j = i \<or> attached cfg j) \<and> (hasRow cfg i \<and> nm cfg i j = e \<or> hasRow cfg j \<and> nm cfg j i = e)
        then v else enabled (cfgNet cfg) e)"
  shows "testerInv (cfg\<lparr>connected := (connected cfg)[nat i := v], cfgNet := (cfgNet cfg)\<lparr>enabled := en\<rparr>\<rparr>)" (is "testerInv ?c")
proof -
  note D = testerInvD[OF inv]
  have simps: "hasRow ?c = hasRow cfg" "nm ?c = nm cfg" "cfgN ?c = cfgN cfg" by (simp_all add: fun_eq_iff)
  have at: "attached ?c j = (if j = i then v else attached cfg j)" if "peer cfg j" for j
    using that i(1) D(1) by (auto simp: attached_def nth_list_update nat_eq_iff)
  have key: "en (nm cfg a b) \<longleftrightarrow> attached ?c a \<and> attached ?c b" if ab: "peer cfg a" "peer cfg b" "hasRow cfg a" for a b
  proof -
    have "(\<exists>j. peer cfg j \<and> (v \<longrightarrow> j = i \<or> attached cfg j) \<and> (hasRow cfg i \<and> nm cfg i j = nm cfg a b \<or> hasRow cfg j \<and> nm cfg j i = nm cfg a b)) \<longleftrightarrow>
        (a = i \<and> (v \<longrightarrow> b = i \<or> attached cfg b) \<or> b = i \<and> (v \<longrightarrow> a = i \<or> attached cfg a))" (is "?L = ?R")
    proof
      assume ?L
      then obtain j where "peer cfg j" "v \<longrightarrow> j = i \<or> attached cfg j" "hasRow cfg i \<and> nm cfg i j = nm cfg a b \<or> hasRow cfg j \<and> nm cfg j i = nm cfg a b"
        by blast
      then show ?R using D(5)[OF i(1) _ ab(1,2)] D(5)[OF _ i(1) ab(1,2)] ab(3) by metis
    next
      assume ?R
      then show ?L using ab by blast
    qed
    then show ?thesis unfolding en at[OF ab(1)] at[OF ab(2)] using D(8)[OF ab] by auto
  qed
  have "enabled (cfgNet cfg) e \<or> v \<and> (\<exists>j. peer cfg j \<and> (hasRow cfg i \<and> nm cfg i j = e \<or> hasRow cfg j \<and> nm cfg j i = e))" if "en e" for e
    using that unfolding en by (auto split: if_splits)
  then have cur: "\<exists>a b. peer cfg a \<and> peer cfg b \<and> hasRow cfg a \<and> nm cfg a b = e" if "en e" for e
    using that D(9)[of e] i(1) by blast
  have row: "hasRow cfg a" if "peer cfg a" "attached ?c a" for a using that at[of a] D(4)[of a] i(2) by (auto split: if_splits)
  have more: "endnames ?c = endnames cfg" "enabled (cfgNet ?c) = en" "len (connected ?c) = len (connected cfg)" by simp_all
  have "rowsOk (cfgN cfg) (endnames cfg) (cfgNet ?c)" using rowsOk_grow[OF testerInv_rows[OF inv], of "cfgNet ?c"] by simp
  moreover have "\<forall>i. peer cfg i \<and> attached ?c i \<longrightarrow> hasRow cfg i" using row by blast
  moreover have "\<forall>i j. peer cfg i \<and> peer cfg j \<and> hasRow cfg i \<longrightarrow> (en (nm cfg i j) \<longleftrightarrow> attached ?c i \<and> attached ?c j)"
    using key by blast
  moreover have "\<forall>e. en e \<longrightarrow> (\<exists>i j. peer cfg i \<and> peer cfg j \<and> hasRow cfg i \<and> nm cfg i j = e)" using cur by blast
  ultimately show ?thesis using D(1) unfolding testerInv_def simps more by (intro conjI)
qed

section \<open>Attaching and detaching\<close>

lemma endAt_connected [simp]: "endAt (cfg\<lparr>connected := c\<rparr>) = endAt cfg"
  by (simp add: endAt_def fun_eq_iff)

lemma connect_inv:
  assumes inv: "testerInv cfg" and ok: "connect i cfg = Inr cfg'"
  shows "testerInv cfg'"
proof -
  let ?c = "(connected cfg)[nat i := True]"
  let ?cfg = "cfg\<lparr>connected := ?c\<rparr>"
  have i: "peer cfg i" using ok testerInvD(1)[OF inv] by (auto simp: connect_def go_checked)
  have c: "?c ! nat j \<longleftrightarrow> j = i \<or> attached cfg j" if "peer cfg j" for j
    using that i testerInvD(1)[OF inv] by (auto simp: attached_def nth_list_update nat_eq_iff split: if_splits)
  have idx: "idx ?c j = Inr (?c ! nat j)" if "peer cfg j" for j using that testerInvD(1)[OF inv] by simp
  have row: "hasRow cfg i"
  proof (rule ccontr)
    assume "\<not> hasRow cfg i"
    then have "connectOut ?cfg i i rn = Inl IndexOutOfRange" for rn
      using endAt_none[OF inv i] idx[OF i] c[OF i] by (simp add: connectOut_def enableEnd_def)
    moreover have "\<exists>rn s. connectOut ?cfg i i rn = Inr s"
      using ok foldR_each[of "connectOut ?cfg i" "upTo (cfgN cfg)" _ _ i] i by (auto simp: connect_def go_checked Let_def)
    ultimately show False by simp
  qed
  have out: "connectOut ?cfg i j rn = Inr (if ?c ! nat j then Enable (nm cfg i j) True rn else rn)" if "j \<in> set (upTo (cfgN cfg))" for j rn
    using that idx endAt_nm[OF inv i _ row] by (simp add: connectOut_def enableEnd_def)
  have inn: "connectIn ?cfg i j rn = Inr (if ?c ! nat j then Enable (nm cfg j i) True rn else rn)" if "j \<in> set (upTo (cfgN cfg))" for j rn
    using that idx c endAt_nm[OF inv _ i] row testerInvD(4)[OF inv] by (auto simp: connectIn_def enableEnd_def)
  define en where "en = (\<lambda>e. if \<exists>j \<in> {0..<cfgN cfg}. ?c ! nat j \<and> nm cfg j i = e then True
      else if \<exists>j \<in> {0..<cfgN cfg}. ?c ! nat j \<and> nm cfg i j = e then True else enabled (cfgNet cfg) e)"
  have "cfg' = cfg\<lparr>connected := ?c, cfgNet := (cfgNet cfg)\<lparr>enabled := en\<rparr>\<rparr>"
  proof -
    have "foldR (connectOut ?cfg i) (upTo (cfgN cfg)) rn =
        Inr (rn\<lparr>enabled := (\<lambda>e. if \<exists>j \<in> set (upTo (cfgN cfg)). ?c ! nat j \<and> nm cfg i j = e then True else enabled rn e)\<rparr>)" for rn
      by (rule foldR_enable[OF out])
    moreover have "foldR (connectIn ?cfg i) (upTo (cfgN cfg)) rn =
        Inr (rn\<lparr>enabled := (\<lambda>e. if \<exists>j \<in> set (upTo (cfgN cfg)). ?c ! nat j \<and> nm cfg j i = e then True else enabled rn e)\<rparr>)" for rn
      by (rule foldR_enable[OF inn])
    moreover have "upd (connected cfg) i True = Inr ?c" using i testerInvD(1)[OF inv] by simp
    ultimately show ?thesis using ok by (simp only: connect_def bindR_simps Let_def en_def set_upTo) (auto simp: en_def)
  qed
  moreover have "testerInv (cfg\<lparr>connected := ?c, cfgNet := (cfgNet cfg)\<lparr>enabled := en\<rparr>\<rparr>)"
  proof (rule testerInv_attach[OF inv i])
    show "hasRow cfg i" by (rule row)
    show "en e \<longleftrightarrow> (if \<exists>j. peer cfg j \<and> (True \<longrightarrow> j = i \<or> attached cfg j) \<and> (hasRow cfg i \<and> nm cfg i j = e \<or> hasRow cfg j \<and> nm cfg j i = e)
        then True else enabled (cfgNet cfg) e)" for e
      unfolding en_def using c row testerInvD(4)[OF inv] by (auto 0 4)
  qed
  ultimately show ?thesis by simp
qed

lemma disconnect_inv:
  assumes inv: "testerInv cfg" and ok: "disconnect i cfg = Inr cfg'"
  shows "testerInv cfg' \<and> peer cfg i \<and> \<not> attached cfg' i \<and> endnames cfg' = endnames cfg \<and> cfgN cfg' = cfgN cfg"
proof -
  let ?c = "(connected cfg)[nat i := False]"
  let ?cfg = "cfg\<lparr>connected := ?c\<rparr>"
  have i: "peer cfg i" using ok testerInvD(1)[OF inv] by (auto simp: disconnect_def go_checked)
  have row: "idx (endnames cfg) j = Inr (endnames cfg ! nat j)" if "peer cfg j" for j using that testerInvD(2)[OF inv] by simp
  have out: "disconnectOut ?cfg i j rn = Inr (if hasRow cfg i then Enable (nm cfg i j) False rn else rn)" if "j \<in> set (upTo (cfgN cfg))" for j rn
    using that row[OF i] endAt_nm[OF inv i] by (simp add: disconnectOut_def enableEnd_def hasEnds_def)
  have inn: "disconnectIn ?cfg i j rn = Inr (if hasRow cfg j then Enable (nm cfg j i) False rn else rn)" if "j \<in> set (upTo (cfgN cfg))" for j rn
    using that row[of j] endAt_nm[OF inv _ i, of j] by (simp add: disconnectIn_def enableEnd_def hasEnds_def)
  define en where "en = (\<lambda>e. if \<exists>j \<in> {0..<cfgN cfg}. hasRow cfg j \<and> nm cfg j i = e then False
      else if \<exists>j \<in> {0..<cfgN cfg}. hasRow cfg i \<and> nm cfg i j = e then False else enabled (cfgNet cfg) e)"
  have cfg': "cfg' = cfg\<lparr>connected := ?c, cfgNet := (cfgNet cfg)\<lparr>enabled := en\<rparr>\<rparr>"
  proof -
    have "foldR (disconnectOut ?cfg i) (upTo (cfgN cfg)) rn =
        Inr (rn\<lparr>enabled := (\<lambda>e. if \<exists>j \<in> set (upTo (cfgN cfg)). hasRow cfg i \<and> nm cfg i j = e then False else enabled rn e)\<rparr>)" for rn
      by (rule foldR_enable[OF out])
    moreover have "foldR (disconnectIn ?cfg i) (upTo (cfgN cfg)) rn =
        Inr (rn\<lparr>enabled := (\<lambda>e. if \<exists>j \<in> set (upTo (cfgN cfg)). hasRow cfg j \<and> nm cfg j i = e then False else enabled rn e)\<rparr>)" for rn
      by (rule foldR_enable[OF inn])
    moreover have "upd (connected cfg) i False = Inr ?c" using i testerInvD(1)[OF inv] by simp
    ultimately show ?thesis using ok by (simp only: disconnect_def bindR_simps Let_def en_def set_upTo) (auto simp: en_def)
  qed
  have "testerInv (cfg\<lparr>connected := ?c, cfgNet := (cfgNet cfg)\<lparr>enabled := en\<rparr>\<rparr>)"
  proof (rule testerInv_attach[OF inv i])
    show "en e \<longleftrightarrow> (if \<exists>j. peer cfg j \<and> (False \<longrightarrow> j = i \<or> attached cfg j) \<and> (hasRow cfg i \<and> nm cfg i j = e \<or> hasRow cfg j \<and> nm cfg j i = e)
        then False else enabled (cfgNet cfg) e)" for e
      unfolding en_def by auto
  qed simp
  moreover have "nat i < length (connected cfg)" using i testerInvD(1)[OF inv] by linarith
  then have "\<not> attached cfg' i" by (simp add: cfg' attached_def)
  ultimately show ?thesis using i by (simp add: cfg')
qed

section \<open>Crashing and starting\<close>

lemma crash1_inv:
  assumes "testerInv cfg" "crash1 i cfg = Inr cfg'"
  shows "testerInv cfg' \<and> peer cfg i \<and> \<not> attached cfg' i \<and> endnames cfg' = endnames cfg \<and> cfgN cfg' = cfgN cfg"
proof -
  obtain c rs sv where c: "disconnect i cfg = Inr c" "cfg' = c\<lparr>cfgNet := DeleteServer i (cfgNet c), rafts := rs, saved := sv\<rparr>"
    using assms(2) by (auto simp: crash1_def Let_def bindR_eq_Inr)
  note d = disconnect_inv[OF assms(1) c(1)]
  have "testerInv cfg'" using d c(2) by (intro testerInv_cong[of c cfg']) (simp_all add: DeleteServer_def)
  then show ?thesis using d c(2) by (simp add: attached_def)
qed

text \<open>Giving a detached peer a new row of ends.\<close>

lemma testerInv_restart:
  assumes inv: "testerInv cfg" and i: "peer cfg i" "\<not> attached cfg i"
    and mk: "foldR (makeEnds names) (upTo (cfgN cfg)) (cfgNet cfg) = Inr rn"
  shows "testerInv (cfg\<lparr>endnames := newRow (cfgN cfg) i names (endnames cfg), cfgNet := rn\<rparr>)" (is "testerInv ?c")
proof -
  note D = testerInvD[OF inv] and M = makeEnds_upTo[OF mk]
  have C: "hasRow ?c a \<longleftrightarrow> a = i \<or> hasRow cfg a" "nm ?c a b = (if a = i then names ! nat b else nm cfg a b)" if "peer cfg a" "peer cfg b" for a b
    using newRow_cells[OF D(2) _ _ _ M(1), of i a b] that i(1) by simp_all
  have at: "attached ?c = attached cfg" by (simp add: attached_def fun_eq_iff)
  have "rowsOk (cfgN cfg) (endnames ?c) rn" using rowsOk_newRow[OF testerInv_rows[OF inv] _ mk, of i] i(1) by simp
  moreover have "hasRow ?c a" if "peer cfg a" "attached cfg a" for a using C(1)[OF that(1,1)] D(4)[OF that] by blast
  moreover have "enabled rn (nm ?c a b) \<longleftrightarrow> attached cfg a \<and> attached cfg b" if p: "peer cfg a" "peer cfg b" "hasRow ?c a" for a b
    using C[OF p(1,2)] p M(6)[of b] i(2) M(7)[of "nm cfg a b"] D(6,8)[OF p(1,2)] by (cases "a = i") auto
  moreover have "\<exists>a b. peer cfg a \<and> peer cfg b \<and> hasRow ?c a \<and> nm ?c a b = e" if en: "enabled rn e" for e
  proof -
    obtain a b where ab: "peer cfg a" "peer cfg b" "hasRow cfg a" "nm cfg a b = e" using D(9)[OF M(8)[OF en]] by blast
    then have "a \<noteq> i" using D(8)[OF ab(1,2,3)] M(8)[OF en] i(2) by auto
    then show ?thesis using ab C[OF ab(1,2)] by auto
  qed
  ultimately show ?thesis using D(1) unfolding testerInv_def by (simp add: at)
qed

lemma start1_inv:
  assumes inv: "testerInv cfg" and st: "start1 names i cfg = Inr cfg'"
  shows "testerInv cfg' \<and> cfgN cfg' = cfgN cfg"
proof -
  obtain c es rn where c: "crash1 i cfg = Inr c" "upd (endnames c) i (Some (take (nat (cfgN c)) names)) = Inr es"
      "foldR (makeEnds names) (upTo (cfgN c)) (cfgNet c) = Inr rn"
    and eq: "connected cfg' = connected c" "endnames cfg' = es" "cfgN cfg' = cfgN c"
      "ends (cfgNet cfg') = ends rn" "connections (cfgNet cfg') = connections rn" "enabled (cfgNet cfg') = enabled rn"
    using st by (auto simp: start1_def Let_def bindR_eq_Inr AddServer_def)
  note k = crash1_inv[OF inv c(1)]
  have es: "es = newRow (cfgN c) i names (endnames c)" using c(2) by (simp add: upd_eq_Inr newRow_def)
  have "testerInv (c\<lparr>endnames := es, cfgNet := rn\<rparr>)"
    unfolding es using testerInv_restart[of c i names rn] k c(3) by simp
  then show ?thesis using k eq by (intro conjI testerInv_cong[of "c\<lparr>endnames := es, cfgNet := rn\<rparr>" cfg']) simp_all
qed

section \<open>Runs of the tester\<close>

datatype testerOp =
    Attach int | Detach int | CrashPeer int | StartPeer int "string list"
  | SetUnreliable bool | SetReordering bool | Applied int "cmd ApplyMsg" | BeginTest

fun testExec :: "testerOp \<Rightarrow> config \<Rightarrow> config res" where
  "testExec (Attach i) cfg = connect i cfg"
| "testExec (Detach i) cfg = disconnect i cfg"
| "testExec (CrashPeer i) cfg = crash1 i cfg"
| "testExec (StartPeer i names) cfg = start1 names i cfg"
| "testExec (SetUnreliable b) cfg = Inr (setunreliable b cfg)"
| "testExec (SetReordering b) cfg = Inr (setlongreordering b cfg)"
| "testExec (Applied i m) cfg = applyMsg i m cfg"
| "testExec BeginTest cfg = Inr (beginTest cfg)"

lemma applyMsg_keeps:
  assumes "applyMsg i m cfg = Inr cfg'"
  shows "cfgN cfg' = cfgN cfg \<and> connected cfg' = connected cfg \<and> endnames cfg' = endnames cfg \<and> cfgNet cfg' = cfgNet cfg"
  using assms by (auto simp: applyMsg_def Let_def bindR_eq_Inr split: option.splits cmd.splits if_splits)

lemma testExec_inv:
  assumes "testerInv cfg" "testExec x cfg = Inr cfg'"
  shows "testerInv cfg' \<and> cfgN cfg' = cfgN cfg"
proof (cases x)
  case (Applied i m)
  then have "applyMsg i m cfg = Inr cfg'" using assms(2) by simp
  note k = applyMsg_keeps[OF this]
  then show ?thesis using assms(1) by (intro conjI testerInv_cong[of cfg cfg']) simp_all
next
  case (SetUnreliable b)
  then have "cfg' = setunreliable b cfg" using assms(2) by simp
  then show ?thesis using assms(1) by (intro conjI testerInv_cong[of cfg cfg']) (simp_all add: setunreliable_def Reliable_def)
next
  case (SetReordering b)
  then have "cfg' = setlongreordering b cfg" using assms(2) by simp
  then show ?thesis using assms(1) by (intro conjI testerInv_cong[of cfg cfg']) (simp_all add: setlongreordering_def LongReordering_def)
next
  case BeginTest
  then have "cfg' = beginTest cfg" using assms(2) by simp
  then show ?thesis using assms(1) by (intro conjI testerInv_cong[of cfg cfg']) (simp_all add: beginTest_def)
next
  case (Attach i)
  then have "connect i cfg = Inr cfg'" using assms(2) by simp
  then show ?thesis using connect_inv[OF assms(1)] by (auto simp: connect_def Let_def bindR_eq_Inr)
next
  case (Detach i)
  then show ?thesis using disconnect_inv[OF assms(1), of i cfg'] assms(2) by simp
next
  case (CrashPeer i)
  then show ?thesis using crash1_inv[OF assms(1), of i cfg'] assms(2) by simp
next
  case (StartPeer i names)
  then show ?thesis using start1_inv[OF assms(1), of names i cfg'] assms(2) by simp
qed

lemma testRun_inv: "testerInv cfg \<Longrightarrow> foldR testExec ops cfg = Inr cfg' \<Longrightarrow> testerInv cfg' \<and> cfgN cfg' = cfgN cfg"
proof (induction ops arbitrary: cfg)
  case (Cons x ops)
  then obtain c where "testExec x cfg = Inr c" "foldR testExec ops c = Inr cfg'" by (auto simp: bindR_eq_Inr)
  then show ?case using testExec_inv[OF Cons.prems(1), of x c] Cons.IH[of c] by simp
qed simp

lemma emptyConfig_inv:
  assumes "0 \<le> n"
  shows "testerInv (emptyConfig n)"
proof -
  have "\<not> hasRow (emptyConfig n) i" "\<not> attached (emptyConfig n) i" if "peer (emptyConfig n) i" for i
    using that by (simp_all add: emptyConfig_def hasEnds_def attached_def)
  moreover have "\<not> enabled (cfgNet (emptyConfig n)) e" for e by (simp add: emptyConfig_def MakeNetwork_def)
  ultimately show ?thesis using assms rowsOk_empty[OF assms] unfolding testerInv_def by (auto simp: emptyConfig_def)
qed

section \<open>Who can talk to whom\<close>

text \<open>
  C38. In every run of the Raft tester (any sequence of attaching, detaching, crashing, starting peers and
  of the other operations that does not fail), whatever names the random generator gave: the network finds
  the end from peer i to peer j enabled exactly when the tester counts both as connected, the end leads
  to server j, and every enabled end of the network, so no end of an earlier instance of a peer, is the
  current one from one connected peer to another.
\<close>

theorem tester_connectivity:
  assumes run: "foldR testExec ops (emptyConfig n) = Inr cfg" and i: "0 \<le> i" "i < n" and j: "0 \<le> j" "j < n"
    and e: "endAt cfg i j = Inr e"
  shows "fst (ReadEndnameInfo e (cfgNet cfg)) = (connected cfg ! nat i \<and> connected cfg ! nat j) \<and>
    fst (snd (ReadEndnameInfo e (cfgNet cfg))) = Some j \<and>
    (\<forall>e'. enabled (cfgNet cfg) e' \<longrightarrow>
      (\<exists>a b. endAt cfg a b = Inr e' \<and> connected cfg ! nat a \<and> connected cfg ! nat b))"
proof -
  have inv: "testerInv cfg" and n: "cfgN cfg = n" using testRun_inv[OF emptyConfig_inv run] i by (simp_all add: emptyConfig_def)
  note D = testerInvD[OF inv]
  have p: "peer cfg i" "peer cfg j" using i j n by simp_all
  then have row: "hasRow cfg i" using endAt_none[OF inv, of i j] e by auto
  then have "e = nm cfg i j" using endAt_nm[OF inv p] e by simp
  moreover have "\<exists>a b. endAt cfg a b = Inr e' \<and> connected cfg ! nat a \<and> connected cfg ! nat b" if en: "enabled (cfgNet cfg) e'" for e'
  proof -
    obtain a b where ab: "peer cfg a" "peer cfg b" "hasRow cfg a" "nm cfg a b = e'" using D(9)[OF en] by blast
    then have "attached cfg a \<and> attached cfg b" using D(8)[OF ab(1,2,3)] en by simp
    then show ?thesis using endAt_nm[OF inv ab(1,2,3)] ab(4) by (auto simp: attached_def)
  qed
  ultimately show ?thesis using D(7,8)[OF p row] by (simp add: ReadEndnameInfo_def attached_def Let_def)
qed

text \<open>Two peers are started and attached, peer 0 restarts: its new ends are disabled until it is attached again.\<close>

definition restartRun :: "testerOp list" where
  "restartRun = [StartPeer 0 [''a'', ''b''], StartPeer 1 [''c'', ''d''], Attach 0, Attach 1, StartPeer 0 [''e'', ''f'']]"

lemma restartRun_result:
  "(case foldR testExec restartRun (emptyConfig 2) of Inl _ \<Rightarrow> None | Inr cfg \<Rightarrow> Some (connected cfg, endnames cfg)) =
     Some ([False, True], [Some [''e'', ''f''], Some [''c'', ''d'']])"
  by (simp add: restartRun_def upTo_def upt_rec numeral_2_eq_2 testExec.simps start1_def crash1_def connect_def disconnect_def emptyConfig_def
      connectOut_def connectIn_def disconnectOut_def disconnectIn_def enableEnd_def endAt_def makeEnds_def MakeEnd_def Connect_def Enable_def
      stored_def AddServer_def DeleteServer_def MakeNetwork_def go_checked Let_def)

theorem tester_connectivity_witness:
  "\<exists>cfg. foldR testExec restartRun (emptyConfig 2) = Inr cfg \<and> endAt cfg 1 0 = Inr ''c'' \<and>
     \<not> fst (ReadEndnameInfo ''c'' (cfgNet cfg)) \<and> fst (snd (ReadEndnameInfo ''c'' (cfgNet cfg))) = Some 0"
proof -
  obtain cfg where run: "foldR testExec restartRun (emptyConfig 2) = Inr cfg"
    and c: "connected cfg = [False, True]" "endnames cfg = [Some [''e'', ''f''], Some [''c'', ''d'']]"
    using restartRun_result by (auto split: sum.splits)
  have e: "endAt cfg 1 0 = Inr ''c''" by (simp add: endAt_def c)
  show ?thesis using tester_connectivity[OF run _ _ _ _ e] run e c(1) by (intro exI[of _ cfg]) simp
qed

end
