(* ===== verification/Kv_Config.thy ===== *)
theory Kv_Config
  imports Raft_Tester Clerks "HOL-Library.Multiset"
begin

text \<open>
  The testers of the services above Raft, \<open>kvraft/config.go\<close> and \<open>shardmaster/config.go\<close>: they start and
  shut down servers, connect any two of them, make and connect clerks, and partition the servers. The two
  files have the same text but for the type of the servers (\<open>KVServer\<close>, \<open>ShardMaster\<close>) and for three
  fields, so that \<open>Tester\<close> has the type of the servers as a parameter and \<open>KvTester\<close> extends it. The
  operations that depend on the server get its Raft peer (\<open>rfOf\<close>) or its constructor (\<open>start\<close>).

  The handlers of both servers are empty in the source. As in the tester of Raft, random values and the
  answers to \<open>GetState\<close> are arguments, the list of names for new ends has as many names as there are
  servers, and the persister of a running server is the one of its Raft peer.
\<close>

section \<open>The servers\<close>

datatype Op = OpStruct \<comment> \<open>a struct without fields\<close>

record KVServer =
  kvMe :: int
  kvRf :: "Op Raft"
  kvMaxraftstate :: int

definition StartKVServer :: "int \<Rightarrow> nat \<Rightarrow> int \<Rightarrow> Op gobval Persister \<Rightarrow> KVServer" where
  "StartKVServer maxraft m i ps = \<lparr>kvMe = i, kvRf = Make m i ps, kvMaxraftstate = maxraft\<rparr>"

definition kvKill :: "KVServer \<Rightarrow> KVServer" where
  "kvKill kv = kv\<lparr>kvRf := Kill (kvRf kv)\<rparr>"

record ShardMaster =
  smMe :: int
  smRf :: "Op Raft"
  configs :: "Config list"

definition StartShardMaster :: "nat \<Rightarrow> int \<Rightarrow> Op gobval Persister \<Rightarrow> ShardMaster" where
  "StartShardMaster m i ps =
     \<lparr>smMe = i, smRf = Make m i ps, configs = [\<lparr>Num = 0, Shards = replicate (nat NShards) 0, Groups = Map.empty\<rparr>]\<rparr>"

definition smKill :: "ShardMaster \<Rightarrow> ShardMaster" where
  "smKill s = s\<lparr>smRf := Kill (smRf s)\<rparr>"

section \<open>The testers\<close>

record 's Tester =
  tNet :: "(string, int) Network"
  tN :: int
  kvservers :: "'s option list"
  tSaved :: "Op gobval Persister option list"
  tEndnames :: "string list option list"
  clerks :: "nat \<rightharpoonup> string list" \<comment> \<open>by the address of the clerk\<close>
  nextClientId :: int
  tAlloc :: nat \<comment> \<open>number of servers and clerks made, the next address\<close>

record 's KvTester = "'s Tester" +
  maxraftstate :: int
  tRpcs0 :: int
  ops :: "32 word"

definition tCleanup :: "('s \<Rightarrow> 's) \<Rightarrow> ('s, 'z) Tester_scheme \<Rightarrow> ('s, 'z) Tester_scheme res" where
  "tCleanup kill cfg =
     (let cfg = cfg\<lparr>kvservers := map (map_option kill) (kvservers cfg)\<rparr>
      in bindR (Cleanup (tNet cfg)) (\<lambda>rn. Inr (cfg\<lparr>tNet := rn\<rparr>)))"

definition tStored :: "('s \<Rightarrow> Op Raft) \<Rightarrow> ('s, 'z) Tester_scheme \<Rightarrow> int \<Rightarrow> Op gobval Persister option res" where
  "tStored rfOf cfg i =
     bindR (idx (tSaved cfg) i) (\<lambda>s.
     bindR (idx (kvservers cfg) i) (\<lambda>k.
       Inr (case (s, k) of (Some _, Some kv) \<Rightarrow> Some (persister (rfOf kv)) | _ \<Rightarrow> s)))"

definition largest :: "('s \<Rightarrow> Op Raft) \<Rightarrow> (Op gobval Persister \<Rightarrow> int) \<Rightarrow> ('s, 'z) Tester_scheme \<Rightarrow> int res" where
  "largest rfOf sz cfg =
     foldR (\<lambda>i logsize. bindR (tStored rfOf cfg i) (\<lambda>s.
       case s of
         None \<Rightarrow> Inl NilDereference
       | Some ps \<Rightarrow> (let n = sz ps in Inr (if n > logsize then n else logsize)))) (upTo (tN cfg)) 0"

definition LogSize :: "('s \<Rightarrow> Op Raft) \<Rightarrow> ('s, 'z) Tester_scheme \<Rightarrow> int res" where
  "LogSize rfOf cfg = largest rfOf RaftStateSize cfg"

definition tSnapshotSize :: "('s \<Rightarrow> Op Raft) \<Rightarrow> ('s, 'z) Tester_scheme \<Rightarrow> int res" where
  "tSnapshotSize rfOf cfg = largest rfOf SnapshotSize cfg"

section \<open>Connecting servers\<close>

definition tEnd :: "('s, 'z) Tester_scheme \<Rightarrow> int \<Rightarrow> int \<Rightarrow> string res" where
  "tEnd cfg i j =
     bindR (idx (tEndnames cfg) i) (\<lambda>row. case row of None \<Rightarrow> Inl IndexOutOfRange | Some names \<Rightarrow> idx names j)"

definition setEnd :: "bool \<Rightarrow> ('s, 'z) Tester_scheme \<Rightarrow> int \<Rightarrow> int \<Rightarrow> (string, int) Network \<Rightarrow> (string, int) Network res" where
  "setEnd b cfg i j rn = bindR (tEnd cfg i j) (\<lambda>endname. Inr (Enable endname b rn))"

definition connectUnlocked :: "int \<Rightarrow> int list \<Rightarrow> ('s, 'z) Tester_scheme \<Rightarrow> ('s, 'z) Tester_scheme res" where
  "connectUnlocked i to cfg =
     bindR (foldR (\<lambda>j. setEnd True cfg i j) to (tNet cfg)) (\<lambda>rn.
     bindR (foldR (\<lambda>j. setEnd True cfg j i) to rn) (\<lambda>rn.
       Inr (cfg\<lparr>tNet := rn\<rparr>)))"

text \<open>
  The second loop of \<open>disconnectUnlocked\<close> tests \<open>cfg.endnames[j]\<close> for the index \<open>j\<close> into \<open>from\<close>, and uses
  \<open>cfg.endnames[from[j]]\<close>.
\<close>

definition disconnectUnlocked :: "int \<Rightarrow> int list \<Rightarrow> ('s, 'z) Tester_scheme \<Rightarrow> ('s, 'z) Tester_scheme res" where
  "disconnectUnlocked i fr cfg =
     bindR (foldR (\<lambda>f rn. bindR (idx (tEndnames cfg) i) (\<lambda>row.
       if row \<noteq> None then setEnd False cfg i f rn else Inr rn)) fr (tNet cfg)) (\<lambda>rn.
     bindR (foldR (\<lambda>(j, f) rn. bindR (idx (tEndnames cfg) j) (\<lambda>row.
       if row \<noteq> None then setEnd False cfg f i rn else Inr rn)) (zip (upTo (len fr)) fr) rn) (\<lambda>rn.
       Inr (cfg\<lparr>tNet := rn\<rparr>)))"

definition AllServers :: "('s, 'z) Tester_scheme \<Rightarrow> int list" where
  "AllServers cfg = upTo (tN cfg)"

definition ConnectAll :: "('s, 'z) Tester_scheme \<Rightarrow> ('s, 'z) Tester_scheme res" where
  "ConnectAll cfg = foldR (\<lambda>i cfg. connectUnlocked i (AllServers cfg) cfg) (upTo (tN cfg)) cfg"

definition partitionServers :: "int list \<Rightarrow> int list \<Rightarrow> ('s, 'z) Tester_scheme \<Rightarrow> ('s, 'z) Tester_scheme res" where
  "partitionServers p1 p2 cfg =
     bindR (foldR (\<lambda>i cfg. bindR (disconnectUnlocked i p2 cfg) (connectUnlocked i p1)) p1 cfg)
       (foldR (\<lambda>i cfg. bindR (disconnectUnlocked i p1 cfg) (connectUnlocked i p2)) p2)"

section \<open>Clerks\<close>

text \<open>\<open>rnd i\<close> is the result of \<open>rand.Intn(i + 1)\<close>.\<close>

definition random_handles :: "(nat \<Rightarrow> nat) \<Rightarrow> 'a list \<Rightarrow> 'a list" where
  "random_handles rnd kvh = fold (\<lambda>i sa. sa[i := sa ! rnd i, rnd i := sa ! i]) [0..<length kvh] kvh"

definition clientEnds :: "nat \<Rightarrow> ('s, 'z) Tester_scheme \<Rightarrow> string list" where
  "clientEnds ck cfg = (case clerks cfg ck of None \<Rightarrow> [] | Some es \<Rightarrow> es)"

definition enableClient :: "bool \<Rightarrow> nat \<Rightarrow> int list \<Rightarrow> ('s, 'z) Tester_scheme \<Rightarrow> ('s, 'z) Tester_scheme res" where
  "enableClient b ck to cfg =
     bindR (foldR (\<lambda>j rn. bindR (idx (clientEnds ck cfg) j) (\<lambda>s. Inr (Enable s b rn))) to (tNet cfg)) (\<lambda>rn.
       Inr (cfg\<lparr>tNet := rn\<rparr>))"

definition ConnectClient :: "nat \<Rightarrow> int list \<Rightarrow> ('s, 'z) Tester_scheme \<Rightarrow> ('s, 'z) Tester_scheme res" where
  "ConnectClient ck to cfg = enableClient True ck to cfg"

definition DisconnectClient :: "nat \<Rightarrow> int list \<Rightarrow> ('s, 'z) Tester_scheme \<Rightarrow> ('s, 'z) Tester_scheme res" where
  "DisconnectClient ck fr cfg = enableClient False ck fr cfg"

text \<open>The new clerk is returned as its address and the ends that it uses, in its order.\<close>

definition makeClient ::
  "string list \<Rightarrow> (nat \<Rightarrow> nat) \<Rightarrow> int list \<Rightarrow> ('s, 'z) Tester_scheme \<Rightarrow> (nat \<times> string list \<times> ('s, 'z) Tester_scheme) res" where
  "makeClient names rnd to cfg =
     bindR (foldR (makeEnds names) (upTo (tN cfg)) (tNet cfg)) (\<lambda>rn.
     let es = take (nat (tN cfg)) names;
         ck = tAlloc cfg;
         cfg = cfg\<lparr>tNet := rn, clerks := (clerks cfg)(ck \<mapsto> es), nextClientId := nextClientId cfg + 1, tAlloc := ck + 1\<rparr>
     in bindR (ConnectClient ck to cfg) (\<lambda>cfg. Inr (ck, random_handles rnd es, cfg)))"

definition deleteClient :: "nat \<Rightarrow> ('s, 'z) Tester_scheme \<Rightarrow> ('s, 'z) Tester_scheme" where
  "deleteClient ck cfg = cfg\<lparr>clerks := (clerks cfg)(ck := None)\<rparr>"

section \<open>Starting and shutting down servers\<close>

text \<open>
  In between, \<open>ShutdownServer\<close> gives the mutex back while it kills the server, which changes nothing
  that the tester reads: the instance is forgotten and its persister has been replaced by a copy.
\<close>

definition ShutdownServer :: "('s \<Rightarrow> Op Raft) \<Rightarrow> int \<Rightarrow> ('s, 'z) Tester_scheme \<Rightarrow> ('s, 'z) Tester_scheme res" where
  "ShutdownServer rfOf i cfg =
     bindR (disconnectUnlocked i (AllServers cfg) cfg) (\<lambda>cfg.
     let cfg = cfg\<lparr>tNet := DeleteServer i (tNet cfg)\<rparr> in
     bindR (tStored rfOf cfg i) (\<lambda>s.
     bindR (if s \<noteq> None then upd (tSaved cfg) i (map_option Copy s) else Inr (tSaved cfg)) (\<lambda>sv.
     bindR (idx (kvservers cfg) i) (\<lambda>kv.
     bindR (if kv \<noteq> None then upd (kvservers cfg) i None else Inr (kvservers cfg)) (\<lambda>ks.
       Inr (cfg\<lparr>tSaved := sv, kvservers := ks\<rparr>))))))"

definition tStartServer ::
  "('s \<Rightarrow> Op Raft) \<Rightarrow> (nat \<Rightarrow> int \<Rightarrow> Op gobval Persister \<Rightarrow> 's) \<Rightarrow> string list \<Rightarrow> int \<Rightarrow> ('s, 'z) Tester_scheme \<Rightarrow> ('s, 'z) Tester_scheme res" where
  "tStartServer rfOf start names i cfg =
     bindR (upd (tEndnames cfg) i (Some (take (nat (tN cfg)) names))) (\<lambda>es.
     bindR (foldR (makeEnds names) (upTo (tN cfg)) (tNet cfg)) (\<lambda>rn.
     bindR (tStored rfOf cfg i) (\<lambda>s.
     let ps = (case s of Some ps \<Rightarrow> Copy ps | None \<Rightarrow> MakePersister) in
     bindR (upd (tSaved cfg) i (Some ps)) (\<lambda>sv.
     bindR (upd (kvservers cfg) i (Some (start (nat (tN cfg)) i ps))) (\<lambda>ks.
       Inr (cfg\<lparr>tEndnames := es, tSaved := sv, kvservers := ks,
         tNet := AddServer i (tAlloc cfg) rn, tAlloc := tAlloc cfg + 1\<rparr>))))))"

definition kvStartServer :: "string list \<Rightarrow> int \<Rightarrow> KVServer KvTester \<Rightarrow> KVServer KvTester res" where
  "kvStartServer names i cfg = tStartServer kvRf (StartKVServer (maxraftstate cfg)) names i cfg"

definition smStartServer :: "string list \<Rightarrow> int \<Rightarrow> ShardMaster Tester \<Rightarrow> ShardMaster Tester res" where
  "smStartServer names i cfg = tStartServer smRf StartShardMaster names i cfg"

section \<open>Partitions\<close>

fun leaderAmong :: "states \<Rightarrow> ('s, 'z) Tester_scheme \<Rightarrow> int list \<Rightarrow> (bool \<times> int) res" where
  "leaderAmong obs cfg [] = Inr (False, 0)"
| "leaderAmong obs cfg (i # is) =
     bindR (idx (kvservers cfg) i) (\<lambda>kv.
       if Option.is_none kv then Inl NilDereference
       else let (_, is_leader) = obs i in if is_leader then Inr (True, i) else leaderAmong obs cfg is)"

definition Leader :: "states \<Rightarrow> ('s, 'z) Tester_scheme \<Rightarrow> (bool \<times> int) res" where
  "Leader obs cfg = leaderAmong obs cfg (upTo (tN cfg))"

definition partitionStep :: "int \<Rightarrow> int \<Rightarrow> int list \<times> int list \<times> int \<Rightarrow> (int list \<times> int list \<times> int) res" where
  "partitionStep l i = (\<lambda>(p1, p2, j).
     if i \<noteq> l then
       if j < len p1 then bindR (upd p1 j i) (\<lambda>p1. Inr (p1, p2, j + 1))
       else bindR (upd p2 (j - len p1) i) (\<lambda>p2. Inr (p1, p2, j + 1))
     else Inr (p1, p2, j))"

definition make_partition :: "states \<Rightarrow> ('s, 'z) Tester_scheme \<Rightarrow> (int list \<times> int list) res" where
  "make_partition obs cfg =
     bindR (Leader obs cfg) (\<lambda>(_, l).
     let p1 = replicate (nat (tN cfg div 2 + 1)) 0; p2 = replicate (nat (tN cfg div 2)) 0 in
     bindR (foldR (partitionStep l) (upTo (tN cfg)) (p1, p2, 0)) (\<lambda>(p1, p2, j).
     bindR (upd p2 (len p2 - 1) l) (\<lambda>p2.
       Inr (p1, p2))))"

section \<open>Making a tester\<close>

definition emptyTester :: "int \<Rightarrow> 's Tester" where
  "emptyTester n =
     \<lparr>tNet = MakeNetwork, tN = n, kvservers = replicate (nat n) None, tSaved = replicate (nat n) None,
      tEndnames = replicate (nat n) None, clerks = Map.empty, nextClientId = n + 1000, tAlloc = 0\<rparr>"

definition emptyKvTester :: "int \<Rightarrow> int \<Rightarrow> KVServer KvTester" where
  "emptyKvTester n maxraft = Tester.extend (emptyTester n) \<lparr>maxraftstate = maxraft, tRpcs0 = 0, ops = 0\<rparr>"

definition kv_make_config :: "int \<Rightarrow> bool \<Rightarrow> int \<Rightarrow> (int \<Rightarrow> string list) \<Rightarrow> KVServer KvTester res" where
  "kv_make_config n unreliable maxraft names =
     bindR (foldR (\<lambda>i. kvStartServer (names i) i) (upTo n) (emptyKvTester n maxraft)) (\<lambda>cfg.
     bindR (ConnectAll cfg) (\<lambda>cfg.
       Inr (cfg\<lparr>tNet := Reliable (\<not> unreliable) (tNet cfg)\<rparr>)))"

definition sm_make_config :: "int \<Rightarrow> bool \<Rightarrow> (int \<Rightarrow> string list) \<Rightarrow> ShardMaster Tester res" where
  "sm_make_config n unreliable names =
     bindR (foldR (\<lambda>i. smStartServer (names i) i) (upTo n) (emptyTester n)) (\<lambda>cfg.
     bindR (ConnectAll cfg) (\<lambda>cfg.
       Inr (cfg\<lparr>tNet := Reliable (\<not> unreliable) (tNet cfg)\<rparr>)))"

definition kvBegin :: "KVServer KvTester \<Rightarrow> KVServer KvTester" where
  "kvBegin cfg = cfg\<lparr>tRpcs0 := GetTotalCount (tNet cfg), ops := 0\<rparr>"

definition kvOp :: "KVServer KvTester \<Rightarrow> KVServer KvTester" where
  "kvOp cfg = cfg\<lparr>ops := ops cfg + 1\<rparr>"

end
