(* ===== verification/Kv_Tester.thy ===== *)
theory Kv_Tester
  imports Kv_Config
begin

text \<open>
  What the testers of the services promise to the tests: \<open>make_partition\<close> splits an odd number of servers
  into a majority and a minority with the leader, and after \<open>partition\<close> two servers can talk exactly
  when they are in the same part. \<open>random_handles\<close> permutes the ends of a clerk.
\<close>

section \<open>Shuffling\<close>

lemma random_handles_mset:
  assumes "\<And>i. rnd i \<le> i"
  shows "mset (random_handles rnd kvh) = mset kvh"
proof -
  let ?f = "\<lambda>i sa. sa[i := sa ! rnd i, rnd i := sa ! i]"
  have "length (fold ?f [0..<k] kvh) = length kvh \<and> mset (fold ?f [0..<k] kvh) = mset kvh" if "k \<le> length kvh" for k
    using that
  proof (induction k)
    case (Suc k)
    then show ?case using assms[of k] by (simp add: mset_swap)
  qed simp
  then show ?thesis by (simp add: random_handles_def)
qed

section \<open>Splitting the servers\<close>

definition fill :: "nat \<Rightarrow> int list \<Rightarrow> int list" where
  "fill a xs = take a xs @ replicate (a - length xs) 0"

lemma length_fill [simp]: "length (fill a xs) = a"
  by (simp add: fill_def)

lemma fill_snoc: "length xs < a \<Longrightarrow> (fill a xs)[length xs := x] = fill a (xs @ [x])"
  by (simp add: fill_def list_update_append Suc_diff_Suc[symmetric])

lemma fill_full: "a \<le> length xs \<Longrightarrow> fill a (xs @ ys) = fill a xs"
  by (simp add: fill_def)

lemma partitionLoop:
  assumes "length (filter (\<lambda>i. i \<noteq> l) is) \<le> a + b"
  shows "foldR (partitionStep l) is (replicate a 0, replicate b 0, 0) =
    Inr (fill a (filter (\<lambda>i. i \<noteq> l) is), fill b (drop a (filter (\<lambda>i. i \<noteq> l) is)), len (filter (\<lambda>i. i \<noteq> l) is))"
  using assms
proof (induction "is" rule: rev_induct)
  case Nil
  then show ?case by (simp add: fill_def)
next
  case (snoc i "is")
  let ?o = "filter (\<lambda>i. i \<noteq> l) is"
  have IH: "foldR (partitionStep l) is (replicate a 0, replicate b 0, 0) = Inr (fill a ?o, fill b (drop a ?o), len ?o)"
    using snoc by (simp split: if_splits)
  show ?case
  proof (cases "i = l")
    case True
    then show ?thesis unfolding foldR_append IH by (simp add: partitionStep_def)
  next
    case False
    then have n: "length ?o < a + b" using snoc.prems by simp
    show ?thesis
    proof (cases "length ?o < a")
      case True
      then show ?thesis unfolding foldR_append IH using False by (simp add: partitionStep_def fill_snoc)
    next
      case ge: False
      then have "fill b (drop a ?o @ [i]) = (fill b (drop a ?o))[length ?o - a := i]"
        using fill_snoc[of "drop a ?o" b i] n by simp
      then show ?thesis unfolding foldR_append IH using False ge n by (simp add: partitionStep_def fill_full nat_diff_distrib)
    qed
  qed
qed

lemma upd_last: "upd (ys @ [y]) (len (ys @ [y]) - 1) x = Inr (ys @ [x])"
  by (simp add: upd_eq_Inr list_update_append)

lemma leaderAmong_range:
  assumes "leaderAmong obs cfg is = Inr (b, l)"
  shows "b \<and> l \<in> set is \<and> snd (obs l) \<or> \<not> b \<and> l = 0 \<and> (\<forall>i \<in> set is. \<not> snd (obs i))"
  using assms
proof (induction "is")
  case (Cons i "is")
  then show ?case by (cases "snd (obs i)") (auto simp: bindR_eq_Inr Let_def case_prod_unfold split: if_splits)
qed simp

lemma leaderAmong_total:
  assumes "\<And>i. i \<in> set is \<Longrightarrow> 0 \<le> i \<and> i < len (kvservers cfg) \<and> kvservers cfg ! nat i \<noteq> None"
  shows "\<exists>r. leaderAmong obs cfg is = Inr r"
  using assms
proof (induction "is")
  case (Cons i "is")
  obtain k where "kvservers cfg ! nat i = Some k" using Cons.prems[of i] by auto
  then show ?case using Cons by (auto simp: Let_def case_prod_unfold)
qed (intro exI, rule leaderAmong.simps(1))

lemma upTo_others:
  assumes "0 \<le> l" "l < n"
  shows "len (filter (\<lambda>i. i \<noteq> l) (upTo n)) = n - 1" "distinct (filter (\<lambda>i. i \<noteq> l) (upTo n))"
    "set (filter (\<lambda>i. i \<noteq> l) (upTo n)) = {0..<n} - {l}"
proof -
  show d: "distinct (filter (\<lambda>i. i \<noteq> l) (upTo n))" by (simp add: upTo_def distinct_map)
  show s: "set (filter (\<lambda>i. i \<noteq> l) (upTo n)) = {0..<n} - {l}" by auto
  show "len (filter (\<lambda>i. i \<noteq> l) (upTo n)) = n - 1"
    using distinct_card[OF d] s assms by simp
qed

text \<open>
  C39. Bounds of \<open>make_partition\<close>, for an odd number n of at least three running servers and whatever they
  answer about the leader: the function does not index out of range, the first part has n/2 + 1 servers, a
  majority, the second has n/2, every server is in exactly one of them, and the leader that \<open>Leader\<close> found
  is the last of the second part.
\<close>

theorem make_partition_splits:
  assumes n: "odd (tN cfg)" "3 \<le> tN cfg"
    and run: "\<And>i. 0 \<le> i \<Longrightarrow> i < tN cfg \<Longrightarrow> i < len (kvservers cfg) \<and> kvservers cfg ! nat i \<noteq> None"
  shows "\<exists>p1 p2 b l. Leader obs cfg = Inr (b, l) \<and> make_partition obs cfg = Inr (p1, p2) \<and>
    len p1 = tN cfg div 2 + 1 \<and> len p2 = tN cfg div 2 \<and> distinct (p1 @ p2) \<and> set (p1 @ p2) = {0..<tN cfg} \<and> last p2 = l"
proof -
  have "\<exists>r. leaderAmong obs cfg (upTo (tN cfg)) = Inr r" by (rule leaderAmong_total) (use run in simp)
  then obtain b l where L: "leaderAmong obs cfg (upTo (tN cfg)) = Inr (b, l)" by (metis surj_pair)
  have l: "0 \<le> l" "l < tN cfg" using leaderAmong_range[OF L] n(2) by auto
  define xs where "xs = filter (\<lambda>i. i \<noteq> l) (upTo (tN cfg))"
  note xs = upTo_others[OF l, folded xs_def]
  define m where "m = nat (tN cfg div 2)"
  have m: "tN cfg = 2 * int m + 1" "1 \<le> m" using odd_two_times_div_two_succ[OF n(1)] n(2) by (simp_all add: m_def)
  have half: "tN cfg div 2 = int m" using m(1) by simp
  have len: "length xs = 2 * m" using xs(1) m(1) by simp
  have "foldR (partitionStep l) (upTo (tN cfg)) (replicate (m + 1) 0, replicate m 0, 0) = Inr (fill (m + 1) xs, fill m (drop (m + 1) xs), len xs)"
    unfolding xs_def by (rule partitionLoop) (use len in \<open>simp add: xs_def\<close>)
  moreover have "fill m (drop (m + 1) xs) = drop (m + 1) xs @ [0]" "fill (m + 1) xs = take (m + 1) xs"
    using len m(2) by (simp_all add: fill_def)
  ultimately have loop: "foldR (partitionStep l) (upTo (tN cfg)) (replicate (m + 1) 0, replicate m 0, 0) =
      Inr (take (m + 1) xs, drop (m + 1) xs @ [0], len xs)" by simp
  have last: "upd (drop (m + 1) xs @ [0]) (len (drop (m + 1) xs @ [0]) - 1) l = Inr (drop (m + 1) xs @ [l])" by (rule upd_last)
  have "nat (int m + 1) = m + 1" by simp
  then have "make_partition obs cfg = Inr (take (m + 1) xs, drop (m + 1) xs @ [l])"
    unfolding make_partition_def Leader_def L half by (simp only: bindR_simps prod.case Let_def nat_int loop last)
  moreover have "distinct (xs @ [l])" unfolding distinct_append xs(3) using xs(2) by simp
  then have "distinct (take (m + 1) xs @ drop (m + 1) xs @ [l])" by (simp only: append_assoc[symmetric] append_take_drop_id)
  moreover have "set (xs @ [l]) = {0..<tN cfg}" unfolding set_append xs(3) using l by auto
  then have "set (take (m + 1) xs @ drop (m + 1) xs @ [l]) = {0..<tN cfg}" by (simp only: append_assoc[symmetric] append_take_drop_id)
  moreover have "len (take (m + 1) xs) = int m + 1" "len (drop (m + 1) xs @ [l]) = int m" using len m(2) by simp_all
  moreover have "last (drop (m + 1) xs @ [l]) = l" by simp
  ultimately show ?thesis unfolding Leader_def L half by blast
qed

definition demoKv :: "KVServer KvTester" where
  "demoKv = (emptyKvTester 5 (-1))\<lparr>kvservers := map (\<lambda>i. Some (StartKVServer (-1) 5 i MakePersister)) (upTo 5)\<rparr>"

theorem make_partition_splits_witness:
  "\<exists>p1 p2. make_partition (\<lambda>i. (1, i = 2)) demoKv = Inr (p1, p2) \<and> len p1 = 3 \<and> len p2 = 2 \<and> set (p1 @ p2) = {0..<5}"
proof -
  have n: "tN demoKv = 5" by (simp add: demoKv_def emptyKvTester_def Tester.extend_def emptyTester_def)
  have "kvservers demoKv = map (\<lambda>i. Some (StartKVServer (-1) 5 i MakePersister)) (upTo 5)" by (simp add: demoKv_def)
  then have "i < len (kvservers demoKv) \<and> kvservers demoKv ! nat i \<noteq> None" if "0 \<le> i" "i < tN demoKv" for i
    using that n by (simp add: upTo_def)
  then show ?thesis using make_partition_splits[of demoKv "\<lambda>i. (1, i = 2)"] n by auto
qed

section \<open>Links between servers\<close>

text \<open>
  Both loops of \<open>connectUnlocked\<close> and \<open>disconnectUnlocked\<close> together, when every server has been started:
  they set the links between a server and some others.
\<close>

definition setLinks :: "int \<Rightarrow> int list \<Rightarrow> bool \<Rightarrow> ('s, 'z) Tester_scheme \<Rightarrow> ('s, 'z) Tester_scheme" where
  "setLinks i js v cfg =
     cfg\<lparr>tNet := (tNet cfg)\<lparr>enabled := (\<lambda>e. if \<exists>j \<in> set js. cell (tEndnames cfg) i j = e \<or> cell (tEndnames cfg) j i = e
       then v else enabled (tNet cfg) e)\<rparr>\<rparr>"

definition linked :: "('s, 'z) Tester_scheme \<Rightarrow> int \<Rightarrow> int \<Rightarrow> bool" where
  "linked cfg a b = enabled (tNet cfg) (cell (tEndnames cfg) a b)"

definition kvInv :: "('s, 'z) Tester_scheme \<Rightarrow> bool" where
  "kvInv cfg \<longleftrightarrow> rowsOk (tN cfg) (tEndnames cfg) (tNet cfg)"

definition allStarted :: "('s, 'z) Tester_scheme \<Rightarrow> bool" where
  "allStarted cfg \<longleftrightarrow> (\<forall>i \<in> {0..<tN cfg}. hasEnds (tEndnames cfg) i)"

lemma tEnd_cell: "kvInv cfg \<Longrightarrow> allStarted cfg \<Longrightarrow> i \<in> {0..<tN cfg} \<Longrightarrow> j \<in> {0..<tN cfg} \<Longrightarrow> tEnd cfg i j = Inr (cell (tEndnames cfg) i j)"
  using rowsOk_lookup[of "tN cfg" "tEndnames cfg" "tNet cfg" i j] by (simp add: tEnd_def kvInv_def allStarted_def)

lemma row_there: "kvInv cfg \<Longrightarrow> allStarted cfg \<Longrightarrow> i \<in> {0..<tN cfg} \<Longrightarrow> \<exists>es. idx (tEndnames cfg) i = Inr (Some es)"
  using rowsOkD(1)[of "tN cfg" "tEndnames cfg" "tNet cfg"] by (auto simp: kvInv_def allStarted_def hasEnds_def)

lemma setLinks_loops:
  assumes out: "\<And>rn. foldR f xs rn = Inr (rn\<lparr>enabled := (\<lambda>e. if \<exists>j \<in> set js. cell (tEndnames cfg) i j = e then v else enabled rn e)\<rparr>)"
    and inc: "\<And>rn. foldR g ys rn = Inr (rn\<lparr>enabled := (\<lambda>e. if \<exists>j \<in> set js. cell (tEndnames cfg) j i = e then v else enabled rn e)\<rparr>)"
  shows "bindR (foldR f xs (tNet cfg)) (\<lambda>rn. bindR (foldR g ys rn) (\<lambda>rn. Inr (cfg\<lparr>tNet := rn\<rparr>))) = Inr (setLinks i js v cfg)"
  unfolding setLinks_def
  by (simp add: out inc, rule arg_cong[where f = "\<lambda>en. cfg\<lparr>tNet := (tNet cfg)\<lparr>enabled := en\<rparr>\<rparr>"], rule ext, auto)

lemma connectUnlocked_eq:
  assumes "kvInv cfg" "allStarted cfg" "i \<in> {0..<tN cfg}" "set to \<subseteq> {0..<tN cfg}"
  shows "connectUnlocked i to cfg = Inr (setLinks i to True cfg)"
  unfolding connectUnlocked_def
proof (rule setLinks_loops)
  fix rn
  show "foldR (\<lambda>j. setEnd True cfg i j) to rn = Inr (rn\<lparr>enabled := (\<lambda>e. if \<exists>j \<in> set to. cell (tEndnames cfg) i j = e then True else enabled rn e)\<rparr>)"
    by (rule foldR_enable_all) (use tEnd_cell[OF assms(1,2,3)] assms(4) in \<open>auto simp: setEnd_def\<close>)
  show "foldR (\<lambda>j. setEnd True cfg j i) to rn = Inr (rn\<lparr>enabled := (\<lambda>e. if \<exists>j \<in> set to. cell (tEndnames cfg) j i = e then True else enabled rn e)\<rparr>)"
    by (rule foldR_enable_all) (use tEnd_cell[OF assms(1,2) _ assms(3)] assms(4) in \<open>auto simp: setEnd_def\<close>)
qed

lemma disconnectUnlocked_eq:
  assumes "kvInv cfg" "allStarted cfg" "i \<in> {0..<tN cfg}" "set fr \<subseteq> {0..<tN cfg}" "len fr \<le> tN cfg"
  shows "disconnectUnlocked i fr cfg = Inr (setLinks i fr False cfg)"
  unfolding disconnectUnlocked_def
proof (rule setLinks_loops)
  fix rn
  obtain es where es: "idx (tEndnames cfg) i = Inr (Some es)" using row_there[OF assms(1,2,3)] by blast
  show "foldR (\<lambda>f rn. bindR (idx (tEndnames cfg) i) (\<lambda>row. if row \<noteq> None then setEnd False cfg i f rn else Inr rn)) fr rn =
      Inr (rn\<lparr>enabled := (\<lambda>e. if \<exists>j \<in> set fr. cell (tEndnames cfg) i j = e then False else enabled rn e)\<rparr>)"
    by (rule foldR_enable_all) (use tEnd_cell[OF assms(1,2,3)] assms(4) es in \<open>auto simp: setEnd_def\<close>)
  let ?z = "zip (upTo (len fr)) fr" and ?g = "\<lambda>(j, f) rn. bindR (idx (tEndnames cfg) j) (\<lambda>row. if row \<noteq> None then setEnd False cfg f i rn else Inr rn)"
  have "?g p rn = Inr (Enable (cell (tEndnames cfg) (snd p) i) False rn)" if p: "p \<in> set ?z" for p rn
  proof -
    have "fst p \<in> {0..<tN cfg}" "snd p \<in> {0..<tN cfg}"
      using set_zip_leftD[of "fst p" "snd p" "upTo (len fr)" fr] set_zip_rightD[of "fst p" "snd p" "upTo (len fr)" fr] p assms(4,5) by auto
    then show ?thesis using row_there[OF assms(1,2), of "fst p"] tEnd_cell[OF assms(1,2) _ assms(3), of "snd p"]
      by (auto simp: setEnd_def case_prod_unfold)
  qed
  then have "foldR ?g ?z rn = Inr (rn\<lparr>enabled := (\<lambda>e. if \<exists>p \<in> set ?z. cell (tEndnames cfg) (snd p) i = e then False else enabled rn e)\<rparr>)"
    by (rule foldR_enable_all)
  moreover have "snd ` set ?z = set fr" unfolding set_map[symmetric] by (simp add: upTo_def)
  then have "(\<exists>p \<in> set ?z. cell (tEndnames cfg) (snd p) i = e) \<longleftrightarrow> (\<exists>j \<in> set fr. cell (tEndnames cfg) j i = e)" for e
    by (metis (no_types, opaque_lifting) image_iff)
  ultimately show "foldR ?g ?z rn = Inr (rn\<lparr>enabled := (\<lambda>e. if \<exists>j \<in> set fr. cell (tEndnames cfg) j i = e then False else enabled rn e)\<rparr>)"
    by simp
qed

lemma setLinks_same [simp]: "tN (setLinks i js v cfg) = tN cfg" "tEndnames (setLinks i js v cfg) = tEndnames cfg"
  by (simp_all add: setLinks_def)

lemma setLinks_inv: "kvInv cfg \<Longrightarrow> kvInv (setLinks i js v cfg)" "allStarted (setLinks i js v cfg) = allStarted cfg"
  using rowsOk_grow[of "tN cfg" "tEndnames cfg" "tNet cfg" "tNet (setLinks i js v cfg)"] by (simp_all add: kvInv_def allStarted_def) (simp add: setLinks_def)

lemma setLinks_linked:
  assumes "kvInv cfg" "allStarted cfg" "i \<in> {0..<tN cfg}" "set js \<subseteq> {0..<tN cfg}" "a \<in> {0..<tN cfg}" "b \<in> {0..<tN cfg}"
  shows "linked (setLinks i js v cfg) a b = (if a = i \<and> b \<in> set js \<or> b = i \<and> a \<in> set js then v else linked cfg a b)"
proof -
  have "cell (tEndnames cfg) x y = cell (tEndnames cfg) a b \<longleftrightarrow> x = a \<and> y = b" if "x \<in> {0..<tN cfg}" "y \<in> {0..<tN cfg}" for x y
    using rowsOkD(3)[OF assms(1)[unfolded kvInv_def] that assms(5,6)] assms(2,5) that by (auto simp: allStarted_def)
  then have "(\<exists>j \<in> set js. cell (tEndnames cfg) i j = cell (tEndnames cfg) a b \<or> cell (tEndnames cfg) j i = cell (tEndnames cfg) a b) \<longleftrightarrow>
      a = i \<and> b \<in> set js \<or> b = i \<and> a \<in> set js"
    using assms(3,4) by (metis subsetD)
  then show ?thesis by (simp add: linked_def setLinks_def)
qed

text \<open>One of the two loops of \<open>partition\<close>, over a part or a beginning of it.\<close>

lemma partition_loop:
  assumes "kvInv cfg" "allStarted cfg" "set p \<union> set q \<subseteq> {0..<tN cfg}" "set p \<inter> set q = {}" "len q \<le> tN cfg" "set is \<subseteq> set p"
  shows "\<exists>cfg'. foldR (\<lambda>i cfg. bindR (disconnectUnlocked i q cfg) (connectUnlocked i p)) is cfg = Inr cfg' \<and>
    kvInv cfg' \<and> allStarted cfg' \<and> tN cfg' = tN cfg \<and> tEndnames cfg' = tEndnames cfg \<and>
    (\<forall>a \<in> {0..<tN cfg}. \<forall>b \<in> {0..<tN cfg}. linked cfg' a b =
      (if a \<in> set is \<and> b \<in> set q \<or> b \<in> set is \<and> a \<in> set q then False
       else if a \<in> set is \<and> b \<in> set p \<or> b \<in> set is \<and> a \<in> set p then True else linked cfg a b))"
  using assms
proof (induction "is" arbitrary: cfg)
  case (Cons i "is")
  let ?c = "setLinks i p True (setLinks i q False cfg)"
  have i: "i \<in> {0..<tN cfg}" "i \<in> set p" using Cons.prems by auto
  note D = disconnectUnlocked_eq[OF Cons.prems(1,2) i(1), of q]
  have "bindR (disconnectUnlocked i q cfg) (connectUnlocked i p) = Inr ?c"
    using D connectUnlocked_eq[of "setLinks i q False cfg" i p] Cons.prems i by (simp add: setLinks_inv)
  moreover have c: "kvInv ?c" "allStarted ?c" "tN ?c = tN cfg" "tEndnames ?c = tEndnames cfg" using Cons.prems by (simp_all add: setLinks_inv)
  then obtain cfg' where k: "foldR (\<lambda>i cfg. bindR (disconnectUnlocked i q cfg) (connectUnlocked i p)) is ?c = Inr cfg'"
      "kvInv cfg'" "allStarted cfg'" "tN cfg' = tN cfg" "tEndnames cfg' = tEndnames cfg"
    and l: "\<forall>a \<in> {0..<tN cfg}. \<forall>b \<in> {0..<tN cfg}. linked cfg' a b =
      (if a \<in> set is \<and> b \<in> set q \<or> b \<in> set is \<and> a \<in> set q then False
       else if a \<in> set is \<and> b \<in> set p \<or> b \<in> set is \<and> a \<in> set p then True else linked ?c a b)"
    using Cons.IH[of ?c] Cons.prems(3-6) by auto
  have "linked ?c a b = (if a = i \<and> b \<in> set p \<or> b = i \<and> a \<in> set p then True else if a = i \<and> b \<in> set q \<or> b = i \<and> a \<in> set q then False else linked cfg a b)"
    if "a \<in> {0..<tN cfg}" "b \<in> {0..<tN cfg}" for a b
  proof -
    have "linked (setLinks i q False cfg) a b = (if a = i \<and> b \<in> set q \<or> b = i \<and> a \<in> set q then False else linked cfg a b)"
      using Cons.prems i(1) that by (intro setLinks_linked) auto
    moreover have "linked ?c a b = (if a = i \<and> b \<in> set p \<or> b = i \<and> a \<in> set p then True else linked (setLinks i q False cfg) a b)"
      using Cons.prems i(1) that by (intro setLinks_linked) (auto simp: setLinks_inv)
    ultimately show ?thesis by (simp only:)
  qed
  then have "linked cfg' a b = (if a \<in> set (i # is) \<and> b \<in> set q \<or> b \<in> set (i # is) \<and> a \<in> set q then False
       else if a \<in> set (i # is) \<and> b \<in> set p \<or> b \<in> set (i # is) \<and> a \<in> set p then True else linked cfg a b)"
    if "a \<in> {0..<tN cfg}" "b \<in> {0..<tN cfg}" for a b
    using l that Cons.prems(4,6) i(2) by (simp add: disjoint_iff subset_iff)
  ultimately show ?case using k by (intro exI[of _ cfg']) simp
qed simp

lemma partition_linked:
  assumes "kvInv cfg" "allStarted cfg" "set p1 \<union> set p2 = {0..<tN cfg}" "set p1 \<inter> set p2 = {}" "len p1 \<le> tN cfg" "len p2 \<le> tN cfg"
  shows "\<exists>cfg'. partitionServers p1 p2 cfg = Inr cfg' \<and> kvInv cfg' \<and> allStarted cfg' \<and> tN cfg' = tN cfg \<and> tEndnames cfg' = tEndnames cfg \<and>
    (\<forall>a \<in> {0..<tN cfg}. \<forall>b \<in> {0..<tN cfg}. linked cfg' a b \<longleftrightarrow> (a \<in> set p1 \<longleftrightarrow> b \<in> set p1))"
proof -
  obtain c where c: "foldR (\<lambda>i cfg. bindR (disconnectUnlocked i p2 cfg) (connectUnlocked i p1)) p1 cfg = Inr c"
      "kvInv c" "allStarted c" "tN c = tN cfg" "tEndnames c = tEndnames cfg"
    and l1: "\<forall>a \<in> {0..<tN cfg}. \<forall>b \<in> {0..<tN cfg}. linked c a b =
      (if a \<in> set p1 \<and> b \<in> set p2 \<or> b \<in> set p1 \<and> a \<in> set p2 then False
       else if a \<in> set p1 \<and> b \<in> set p1 \<or> b \<in> set p1 \<and> a \<in> set p1 then True else linked cfg a b)"
    using partition_loop[OF assms(1,2) _ assms(4,6) order_refl] assms(3) by auto
  obtain c' where c': "foldR (\<lambda>i cfg. bindR (disconnectUnlocked i p1 cfg) (connectUnlocked i p2)) p2 c = Inr c'"
      "kvInv c'" "allStarted c'" "tN c' = tN c" "tEndnames c' = tEndnames c"
    and l2: "\<forall>a \<in> {0..<tN c}. \<forall>b \<in> {0..<tN c}. linked c' a b =
      (if a \<in> set p2 \<and> b \<in> set p1 \<or> b \<in> set p2 \<and> a \<in> set p1 then False
       else if a \<in> set p2 \<and> b \<in> set p2 \<or> b \<in> set p2 \<and> a \<in> set p2 then True else linked c a b)"
    using partition_loop[OF c(2,3), of p2 p1 p2] assms(3-5) c(4) by (auto simp: Int_commute Un_commute)
  have "linked c' a b \<longleftrightarrow> (a \<in> set p1 \<longleftrightarrow> b \<in> set p1)" if "a \<in> {0..<tN cfg}" "b \<in> {0..<tN cfg}" for a b
  proof -
    have "a \<in> set p1 \<or> a \<in> set p2" "b \<in> set p1 \<or> b \<in> set p2" "a \<notin> set p1 \<or> a \<notin> set p2" "b \<notin> set p1 \<or> b \<notin> set p2"
      using that assms(3,4) by blast+
    moreover note l1[rule_format, OF that] l2[rule_format, of a b, unfolded c(4), OF that]
    ultimately show ?thesis by metis
  qed
  then show ?thesis using c c' by (intro exI[of _ c']) (simp add: partitionServers_def)
qed

section \<open>Runs of the tester\<close>

datatype kvTestOp =
    ConnectTo int "int list" | DisconnectFrom int "int list" | ConnectEvery | Partition "int list" "int list"
  | NewClient "string list" "nat \<Rightarrow> nat" "int list" | DropClient nat | ClientTo nat "int list" | ClientFrom nat "int list"
  | Shutdown int | StartUp int "string list" | BeginKv | CountOp

fun kvExec :: "kvTestOp \<Rightarrow> KVServer KvTester \<Rightarrow> KVServer KvTester res" where
  "kvExec (ConnectTo i to) cfg = connectUnlocked i to cfg"
| "kvExec (DisconnectFrom i fr) cfg = disconnectUnlocked i fr cfg"
| "kvExec ConnectEvery cfg = ConnectAll cfg"
| "kvExec (Partition p1 p2) cfg = partitionServers p1 p2 cfg"
| "kvExec (NewClient names rnd to) cfg = bindR (makeClient names rnd to cfg) (\<lambda>(ck, handles, cfg). Inr cfg)"
| "kvExec (DropClient ck) cfg = Inr (deleteClient ck cfg)"
| "kvExec (ClientTo ck to) cfg = ConnectClient ck to cfg"
| "kvExec (ClientFrom ck fr) cfg = DisconnectClient ck fr cfg"
| "kvExec (Shutdown i) cfg = ShutdownServer kvRf i cfg"
| "kvExec (StartUp i names) cfg = kvStartServer names i cfg"
| "kvExec BeginKv cfg = Inr (kvBegin cfg)"
| "kvExec CountOp cfg = Inr (kvOp cfg)"

text \<open>What the operations other than \<open>StartServer\<close> leave alone.\<close>

definition keepsRows :: "('s, 'z) Tester_scheme \<Rightarrow> ('s, 'z) Tester_scheme \<Rightarrow> bool" where
  "keepsRows cfg cfg' \<longleftrightarrow> tN cfg' = tN cfg \<and> tEndnames cfg' = tEndnames cfg \<and>
     (\<forall>e. ends (tNet cfg) e \<noteq> None \<longrightarrow> ends (tNet cfg') e \<noteq> None \<and> connections (tNet cfg') e = connections (tNet cfg) e)"

lemma keepsRows_trans: "keepsRows a b \<Longrightarrow> keepsRows b c \<Longrightarrow> keepsRows a c"
  by (auto simp: keepsRows_def)

lemma keepsRows_inv: "kvInv cfg \<Longrightarrow> keepsRows cfg cfg' \<Longrightarrow> kvInv cfg' \<and> tN cfg' = tN cfg"
  unfolding kvInv_def keepsRows_def using rowsOk_grow[of "tN cfg" "tEndnames cfg" "tNet cfg" "tNet cfg'"] by simp

lemma foldR_rel:
  assumes "foldR f xs s = Inr t" "\<And>x s t. f x s = Inr t \<Longrightarrow> R s t" "\<And>s. R s s" "\<And>a b c. R a b \<Longrightarrow> R b c \<Longrightarrow> R a c"
  shows "R s t"
  using assms(1)
proof (induction xs arbitrary: s)
  case (Cons x xs)
  then obtain u where "f x s = Inr u" "foldR f xs u = Inr t" by (auto simp: bindR_eq_Inr)
  then show ?case using assms(2,4) Cons.IH by blast
qed (use assms(3) in simp)

definition sameEnds :: "(string, int) Network \<Rightarrow> (string, int) Network \<Rightarrow> bool" where
  "sameEnds rn rn' \<longleftrightarrow> ends rn' = ends rn \<and> connections rn' = connections rn"

lemma foldR_sameEnds:
  assumes "foldR f xs rn = Inr rn'" "\<And>x rn rn'. f x rn = Inr rn' \<Longrightarrow> sameEnds rn rn'"
  shows "sameEnds rn rn'"
  using assms(1) by (rule foldR_rel) (use assms(2) in \<open>auto simp: sameEnds_def\<close>)

lemma sameEnds_trans: "sameEnds a b \<Longrightarrow> sameEnds b c \<Longrightarrow> sameEnds a c"
  by (simp add: sameEnds_def)

lemma sameEnds_keeps: "sameEnds (tNet cfg) rn \<Longrightarrow> keepsRows cfg (cfg\<lparr>tNet := rn\<rparr>)"
  by (simp add: sameEnds_def keepsRows_def)

lemma setEnd_sameEnds: "setEnd b cfg i j rn = Inr rn' \<Longrightarrow> sameEnds rn rn'"
  by (auto simp: setEnd_def bindR_eq_Inr sameEnds_def Enable_def)

lemma loops_keep:
  assumes "bindR (foldR f xs (tNet cfg)) (\<lambda>rn. bindR (foldR g ys rn) (\<lambda>rn. Inr (cfg\<lparr>tNet := rn\<rparr>))) = Inr cfg'"
    and "\<And>x rn rn'. f x rn = Inr rn' \<Longrightarrow> sameEnds rn rn'" "\<And>x rn rn'. g x rn = Inr rn' \<Longrightarrow> sameEnds rn rn'"
  shows "keepsRows cfg cfg'"
proof -
  obtain rn rn' where r: "foldR f xs (tNet cfg) = Inr rn" "foldR g ys rn = Inr rn'" "cfg' = cfg\<lparr>tNet := rn'\<rparr>"
    using assms(1) by (auto simp: bindR_eq_Inr)
  have "sameEnds (tNet cfg) rn'" using foldR_sameEnds[OF r(1) assms(2)] foldR_sameEnds[OF r(2) assms(3)] by (rule sameEnds_trans)
  then show ?thesis unfolding r(3) by (rule sameEnds_keeps)
qed

lemma connectUnlocked_keeps: "connectUnlocked i to cfg = Inr cfg' \<Longrightarrow> keepsRows cfg cfg'"
  unfolding connectUnlocked_def by (erule loops_keep) (rule setEnd_sameEnds, assumption)+

lemma disconnectUnlocked_keeps: "disconnectUnlocked i fr cfg = Inr cfg' \<Longrightarrow> keepsRows cfg cfg'"
  unfolding disconnectUnlocked_def
proof (erule loops_keep)
  have refl: "sameEnds rn rn" for rn by (simp add: sameEnds_def)
  show "sameEnds rn rn'" if "bindR (idx (tEndnames cfg) i) (\<lambda>row. if row \<noteq> None then setEnd False cfg i x rn else Inr rn) = Inr rn'" for x rn rn'
    using that refl[of rn] setEnd_sameEnds[of False cfg i x rn rn'] by (cases "idx (tEndnames cfg) i") (simp_all split: if_splits)
  show "sameEnds rn rn'" if "(case x of (j, f) \<Rightarrow> \<lambda>rn. bindR (idx (tEndnames cfg) j) (\<lambda>row. if row \<noteq> None then setEnd False cfg f i rn else Inr rn)) rn = Inr rn'" for x rn rn'
    using that refl[of rn] setEnd_sameEnds[of False cfg "snd x" i rn rn'] by (cases x; cases "idx (tEndnames cfg) (fst x)") (simp_all split: if_splits)
qed

lemma enableClient_keeps: "enableClient b ck to cfg = Inr cfg' \<Longrightarrow> keepsRows cfg cfg'"
proof -
  assume "enableClient b ck to cfg = Inr cfg'"
  then obtain rn where r: "foldR (\<lambda>j rn. bindR (idx (clientEnds ck cfg) j) (\<lambda>s. Inr (Enable s b rn))) to (tNet cfg) = Inr rn" "cfg' = cfg\<lparr>tNet := rn\<rparr>"
    by (auto simp: enableClient_def bindR_eq_Inr)
  have "sameEnds (tNet cfg) rn" using r(1) by (rule foldR_sameEnds) (auto simp: bindR_eq_Inr sameEnds_def Enable_def)
  then show ?thesis unfolding r(2) by (rule sameEnds_keeps)
qed

lemma partition_keeps:
  assumes "partitionServers p1 p2 cfg = Inr cfg'"
  shows "keepsRows cfg cfg'"
proof -
  have step: "keepsRows a b" if "bindR (disconnectUnlocked i q a) (connectUnlocked i p) = Inr b" for i p q and a b :: "('a, 'b) Tester_scheme"
  proof -
    from that obtain u where "disconnectUnlocked i q a = Inr u" "connectUnlocked i p u = Inr b" by (auto simp: bindR_eq_Inr)
    then show ?thesis by (intro keepsRows_trans[OF disconnectUnlocked_keeps connectUnlocked_keeps])
  qed
  obtain c where c: "foldR (\<lambda>i cfg. bindR (disconnectUnlocked i p2 cfg) (connectUnlocked i p1)) p1 cfg = Inr c"
    "foldR (\<lambda>i cfg. bindR (disconnectUnlocked i p1 cfg) (connectUnlocked i p2)) p2 c = Inr cfg'"
    using assms by (auto simp: partitionServers_def bindR_eq_Inr)
  have refl: "keepsRows a a" for a :: "('a, 'b) Tester_scheme" by (simp add: keepsRows_def)
  have "keepsRows cfg c" using c(1) by (rule foldR_rel) (erule step, rule refl, erule (1) keepsRows_trans)
  moreover have "keepsRows c cfg'" using c(2) by (rule foldR_rel) (erule step, rule refl, erule (1) keepsRows_trans)
  ultimately show ?thesis by (rule keepsRows_trans)
qed

lemma ConnectAll_keeps: "ConnectAll cfg = Inr cfg' \<Longrightarrow> keepsRows cfg cfg'"
  unfolding ConnectAll_def
  by (erule foldR_rel) (erule connectUnlocked_keeps, simp add: keepsRows_def, erule (1) keepsRows_trans)

lemma makeClient_keeps:
  assumes "makeClient names rnd to cfg = Inr (ck, hs, cfg')"
  shows "keepsRows cfg cfg'"
proof -
  obtain rn c where r: "foldR (makeEnds names) (upTo (tN cfg)) (tNet cfg) = Inr rn" "enableClient True ck to c = Inr cfg'"
    "tN c = tN cfg" "tEndnames c = tEndnames cfg" "tNet c = rn"
    using assms by (auto simp: makeClient_def ConnectClient_def Let_def bindR_eq_Inr)
  have "keepsRows cfg c" using makeEnds_upTo(7)[OF r(1)] r(3-5) by (auto simp: keepsRows_def)
  then show ?thesis by (rule keepsRows_trans[OF _ enableClient_keeps[OF r(2)]])
qed

lemma ShutdownServer_keeps:
  assumes "ShutdownServer rfOf i cfg = Inr cfg'"
  shows "keepsRows cfg cfg'"
proof -
  obtain c where c: "disconnectUnlocked i (AllServers cfg) cfg = Inr c" "tN cfg' = tN c" "tEndnames cfg' = tEndnames c" "tNet cfg' = DeleteServer i (tNet c)"
    using assms by (auto simp: ShutdownServer_def Let_def bindR_eq_Inr)
  have "keepsRows c cfg'" using c(2-4) by (simp add: keepsRows_def DeleteServer_def)
  then show ?thesis by (rule keepsRows_trans[OF disconnectUnlocked_keeps[OF c(1)]])
qed

lemma tStartServer_inv:
  assumes "kvInv cfg" "tStartServer rfOf start names i cfg = Inr cfg'"
  shows "kvInv cfg' \<and> tN cfg' = tN cfg"
proof -
  obtain rn es where r: "upd (tEndnames cfg) i (Some (take (nat (tN cfg)) names)) = Inr es" "foldR (makeEnds names) (upTo (tN cfg)) (tNet cfg) = Inr rn"
    "tN cfg' = tN cfg" "tEndnames cfg' = es" "ends (tNet cfg') = ends rn" "connections (tNet cfg') = connections rn"
    using assms(2) by (auto simp: tStartServer_def Let_def bindR_eq_Inr AddServer_def)
  have ok: "rowsOk (tN cfg) (tEndnames cfg) (tNet cfg)" using assms(1) by (simp add: kvInv_def)
  have i: "i \<in> {0..<tN cfg}" "es = newRow (tN cfg) i names (tEndnames cfg)"
    using r(1) rowsOkD(1)[OF ok] by (auto simp: upd_eq_Inr newRow_def)
  have "rowsOk (tN cfg) es (tNet cfg')" using rowsOk_newRow[OF ok i(1) r(2)] r(5,6) i(2) by (simp add: rowsOk_def)
  then show ?thesis using r(3,4) by (simp add: kvInv_def)
qed

lemma kvExec_inv:
  assumes "kvInv cfg" "kvExec x cfg = Inr cfg'"
  shows "kvInv cfg' \<and> tN cfg' = tN cfg"
proof (cases x)
  case (StartUp i names)
  then show ?thesis using assms tStartServer_inv[OF assms(1)] by (simp add: kvStartServer_def)
next
  case (NewClient names rnd to)
  then show ?thesis using assms(2) by (auto simp: bindR_eq_Inr intro!: keepsRows_inv[OF assms(1)] elim: makeClient_keeps)
qed (use assms in \<open>auto intro!: keepsRows_inv[OF assms(1)] simp: deleteClient_def kvBegin_def kvOp_def keepsRows_def ConnectClient_def DisconnectClient_def
      dest: connectUnlocked_keeps disconnectUnlocked_keeps ConnectAll_keeps partition_keeps enableClient_keeps ShutdownServer_keeps\<close>)

lemma kvRun_inv: "kvInv cfg \<Longrightarrow> foldR kvExec xs cfg = Inr cfg' \<Longrightarrow> kvInv cfg' \<and> tN cfg' = tN cfg"
proof (induction xs arbitrary: cfg)
  case (Cons x xs)
  then obtain c where "kvExec x cfg = Inr c" "foldR kvExec xs c = Inr cfg'" by (auto simp: bindR_eq_Inr)
  then show ?case using kvExec_inv[OF Cons.prems(1), of x c] Cons.IH[of c] by simp
qed simp

lemma emptyKvTester_inv: "0 \<le> n \<Longrightarrow> kvInv (emptyKvTester n maxraft) \<and> tN (emptyKvTester n maxraft) = n"
  by (simp add: kvInv_def emptyKvTester_def Tester.extend_def emptyTester_def rowsOk_empty)

lemma distinct_len: "distinct xs \<Longrightarrow> set xs \<subseteq> {0..<n} \<Longrightarrow> 0 \<le> n \<Longrightarrow> len xs \<le> n"
  using card_mono[of "{0..<n}" "set xs"] by (simp add: distinct_card)

text \<open>
  C40. After any run of the tester of the key/value service, once every server has been started: the
  call \<open>partition\<close> with two lists that split the servers returns, and afterwards the network finds the end
  from server i to server j enabled exactly when both are in the same part, whatever was connected
  before, and leads it to server j.
\<close>

theorem partition_isolates:
  assumes n: "0 \<le> n" and run: "foldR kvExec xs (emptyKvTester n maxraft) = Inr cfg"
    and started: "\<And>i. 0 \<le> i \<Longrightarrow> i < n \<Longrightarrow> tEndnames cfg ! nat i \<noteq> None"
    and parts: "distinct (p1 @ p2)" "set p1 \<union> set p2 = {0..<n}"
  shows "\<exists>cfg'. partitionServers p1 p2 cfg = Inr cfg' \<and>
    (\<forall>i j. 0 \<le> i \<and> i < n \<and> 0 \<le> j \<and> j < n \<longrightarrow>
      (\<exists>e. tEnd cfg' i j = Inr e \<and> fst (snd (ReadEndnameInfo e (tNet cfg'))) = Some j \<and>
        fst (ReadEndnameInfo e (tNet cfg')) = (i \<in> set p1 \<longleftrightarrow> j \<in> set p1)))"
proof -
  have cfg: "kvInv cfg" "tN cfg = n" using kvRun_inv[OF _ run] emptyKvTester_inv[OF n, of maxraft] by simp_all
  have "allStarted cfg" using started cfg(2) by (simp add: allStarted_def hasEnds_def)
  moreover have "len p1 \<le> n" "len p2 \<le> n" using parts n by (auto intro!: distinct_len)
  ultimately obtain c where c: "partitionServers p1 p2 cfg = Inr c" "kvInv c" "allStarted c" "tN c = n"
    and l: "\<And>a b. a \<in> {0..<n} \<Longrightarrow> b \<in> {0..<n} \<Longrightarrow> linked c a b \<longleftrightarrow> (a \<in> set p1 \<longleftrightarrow> b \<in> set p1)"
    using partition_linked[OF cfg(1), of p1 p2] parts cfg(2) by auto
  have "tEnd c i j = Inr (cell (tEndnames c) i j) \<and> fst (snd (ReadEndnameInfo (cell (tEndnames c) i j) (tNet c))) = Some j \<and>
      fst (ReadEndnameInfo (cell (tEndnames c) i j) (tNet c)) = (i \<in> set p1 \<longleftrightarrow> j \<in> set p1)" if "i \<in> {0..<n}" "j \<in> {0..<n}" for i j
    using tEnd_cell[OF c(2,3), of i j] rowsOkD(5)[OF c(2)[unfolded kvInv_def], of i j] c(3,4) that l[OF that]
    by (simp add: ReadEndnameInfo_def linked_def allStarted_def Let_def)
  then show ?thesis using c(1) by (intro exI[of _ c]) auto
qed

definition startThree :: "kvTestOp list" where
  "startThree = [StartUp 0 [''a'', ''b'', ''c''], StartUp 1 [''d'', ''e'', ''f''], StartUp 2 [''g'', ''h'', ''i''], ConnectEvery]"

lemma startThree_result:
  "(case foldR kvExec startThree (emptyKvTester 3 (-1)) of Inl _ \<Rightarrow> None | Inr cfg \<Rightarrow> Some (tEndnames cfg)) =
     Some [Some [''a'', ''b'', ''c''], Some [''d'', ''e'', ''f''], Some [''g'', ''h'', ''i'']]"
  by (simp add: startThree_def kvStartServer_def tStartServer_def tStored_def ConnectAll_def connectUnlocked_def AllServers_def setEnd_def tEnd_def
      upTo_def upt_rec emptyKvTester_def Tester.extend_def emptyTester_def makeEnds_def MakeEnd_def Connect_def Enable_def AddServer_def MakeNetwork_def
      go_checked Let_def numeral_3_eq_3)

theorem partition_isolates_witness:
  "\<exists>cfg cfg' e e'. foldR kvExec startThree (emptyKvTester 3 (-1)) = Inr cfg \<and> partitionServers [0, 1] [2] cfg = Inr cfg' \<and>
     tEnd cfg' 0 1 = Inr e \<and> fst (ReadEndnameInfo e (tNet cfg')) \<and> tEnd cfg' 0 2 = Inr e' \<and> \<not> fst (ReadEndnameInfo e' (tNet cfg'))"
proof -
  obtain cfg where run: "foldR kvExec startThree (emptyKvTester 3 (-1)) = Inr cfg"
    and es: "tEndnames cfg = [Some [''a'', ''b'', ''c''], Some [''d'', ''e'', ''f''], Some [''g'', ''h'', ''i'']]"
    using startThree_result by (auto split: sum.splits)
  have "tEndnames cfg ! nat i \<noteq> None" if "0 \<le> i" "i < 3" for i
  proof -
    have "i = 0 \<or> i = 1 \<or> i = 2" using that by linarith
    then show ?thesis by (auto simp: es)
  qed
  moreover have "set [0, 1] \<union> set [2] = {0..<(3 :: int)}" by auto
  ultimately obtain cfg' where c: "partitionServers [0, 1] [2] cfg = Inr cfg'"
    and l: "\<forall>i j. 0 \<le> i \<and> i < 3 \<and> 0 \<le> j \<and> j < 3 \<longrightarrow> (\<exists>e. tEnd cfg' i j = Inr e \<and> fst (snd (ReadEndnameInfo e (tNet cfg'))) = Some j \<and>
        fst (ReadEndnameInfo e (tNet cfg')) = (i \<in> set [0, 1] \<longleftrightarrow> j \<in> set [0, 1]))"
    using partition_isolates[OF _ run, of "[0, 1]" "[2]"] by auto
  show ?thesis using run c l[rule_format, of 0 1] l[rule_format, of 0 2] by auto
qed

end
