(* ===== verification/Spec2Isabelle.thy ===== *)
theory Spec2Isabelle
  imports Raft_Properties MR_Properties Lin_Properties Labrpc_Properties Labgob Clerks Kv_Tester
begin

text \<open>
  A verification of the distributed systems labs under \<open>src/mit6.824/src\<close>, written in Go. Its parts are
  a Raft peer (\<open>raft\<close>), a MapReduce library with two applications (\<open>mapreduce\<close>, \<open>main\<close>), a
  linearizability checker (\<open>linearizability\<close>), a simulated network with remote procedure calls
  (\<open>labrpc\<close>) and its encoder (\<open>labgob\<close>), the clerks of the shard master and of the sharded store
  (\<open>shardmaster\<close>, \<open>shardkv\<close>), and the testers that start, crash and partition peers over that network
  (\<open>raft/config.go\<close>, \<open>kvraft/config.go\<close>, \<open>shardmaster/config.go\<close>). A Raft peer talks to others through
  ends of \<open>labrpc\<close> and keeps its state in a persister; the testers own the network, the ends and the
  persisters; the checker judges the histories that tests record.

  \<^bold>\<open>Conventions.\<close> A pure Go function is a HOL function. Code that can panic or end the program returns
  \<open>'a res\<close>, a sum of \<open>go_error\<close> and the result: indexing, slicing, division and nil dereferences are
  checked (\<open>idx\<close>, \<open>upd\<close>, \<open>slice_to\<close>, \<open>slice_from\<close>; \<open>bindR\<close> and \<open>foldR\<close> sequence them), \<open>log.Fatal\<close> is
  the error \<open>LogFatal\<close>. Go's \<open>int\<close> is \<open>int\<close>, since no claim depends on its 64 bits; where a width
  matters (the hash of MapReduce, the counters of \<open>labrpc\<close>, the words of a bit set) it is a \<open>word\<close>.
  A structure is a record with the names of its fields. Concurrent code is cut at its critical sections
  and channel operations; each piece is one function, and a run is a sequence of events that name the
  piece which comes next and what the environment or a random choice decided. \<open>None\<close> is an event
  that cannot happen, \<open>Some (Inl e)\<close> one that panics. Time is not modelled: a timer may fire whenever it
  is set. The prelude \<open>Go_Prelude\<close> has these notions, reachability and invariants of such machines (the
  locale \<open>invariant\<close>) and the lemmas on lists, words and majorities that the components share.

  \<^bold>\<open>Raft\<close> (\<open>raft/raft.go\<close>, \<open>raft/util.go\<close>, \<open>raft/persister.go\<close>). \<open>Persister\<close> models the stable storage and
  its contract (locale \<open>stable_storage\<close>). \<open>Raft\<close> has the peer: its record, \<open>Make\<close>, \<open>Start\<close>, \<open>Kill\<close>,
  \<open>persist\<close> and \<open>readPersist\<close>, the two handlers, and the three routines \<open>follower\<close>, \<open>candidate\<close> and
  \<open>leader\<close>, one function per critical section. \<open>Raft_Cluster\<close> composes n peers with a network that may
  delay, reorder, lose and deliver requests and replies at any time, with crashes and restarts from the
  persister. \<open>Raft_Peer\<close> proves what each operation does on every branch and the invariant of a peer,
  \<open>Raft_Election\<close> the invariant of the cluster, \<open>Raft_Replication\<close> the exchange between a leader and a
  follower, \<open>Raft_Safety\<close> its consequences. \<open>Raft_Properties\<close> states the properties: votes, terms and the
  persister agree and survive crashes; at most one candidate wins a term; the handlers never panic;
  a follower that accepts a leader's request ends with its log, and the retries end; what is committed
  and what is applied. It also has runs of a cluster that break the guarantees of Raft: two leaders in
  one term (an elected peer does not check that it is still a candidate of that term), divergent
  commands, committed entries that are lost or erased by delayed requests, a commit with half of four
  peers, and a panic of a deposed leader.

  \<^bold>\<open>MapReduce\<close> (\<open>mapreduce\<close>, \<open>main/wc.go\<close>, \<open>main/ii.go\<close>). \<open>Go_Strings\<close> has decimal numbers and the strings
  of JSON; \<open>MR_Common\<close> the file names, the file system and the encoding of pairs; \<open>MR_Tasks\<close> \<open>doMap\<close>,
  \<open>doReduce\<close>, \<open>merge\<close> and the sequential master; \<open>MR_Worker\<close> the worker, the master and its records;
  \<open>MR_Schedule\<close> the scheduler with its calls in flight as a state machine. \<open>MR_Correct\<close>, \<open>MR_Apps\<close>,
  \<open>MR_Schedule_Inv\<close> and \<open>MR_Distributed\<close> prove the tasks, the applications, the scheduler and their
  composition. \<open>sort.Slice\<close> and the order of a range over a map are parameters with their documented
  contract (locales \<open>key_sort\<close> and \<open>map_range\<close>). \<open>MR_Properties\<close>: a distributed job gives the output of the
  sequential one, which is the specification of MapReduce; every task is accounted for, the scheduler
  does not panic, makes progress and ends; a phase without tasks never returns and a reduce task
  without pairs makes \<open>merge\<close> fail.

  \<^bold>\<open>Linearizability\<close> (\<open>linearizability\<close>). \<open>Lin_Bitset\<close>, \<open>Lin_Model\<close>, \<open>Lin_List\<close> (the doubly linked list of
  entries in a store) and \<open>Lin_Check\<close> (the search with its cache and stack, and the drivers) model the
  package. \<open>Lin_Spec\<close> defines linearizability and proves that it is local to the keys; \<open>Lin_Search\<close>
  shows that the search decides an abstract game on the list, \<open>Lin_Correct\<close> that this game is
  linearizability, \<open>Lin_Histories\<close>, \<open>Lin_Events\<close> and \<open>Lin_Kv\<close> carry this to the two drivers.
  \<open>Lin_Properties\<close>: the checker returns and is right on complete histories, never rejects a
  linearizable one under a timeout, bit sets refine sets, and \<open>unlift\<close> undoes \<open>lift\<close>. The loop of the
  checker is a \<open>partial_function\<close> whose termination is proved where it holds.

  \<^bold>\<open>Network\<close> (\<open>labrpc/labrpc.go\<close>). \<open>Labrpc\<close> is the package as one state machine of calls; \<open>Labrpc_Calls\<close>
  classifies its steps (the inductive \<open>callMove\<close>) and proves the invariant of a call; \<open>Labrpc_Properties\<close>:
  a handler runs at most once per call, a positive reply implies that the server was still registered
  after the execution, an unfinished call can always move towards its return, and a well typed call
  reaches its method.

  \<^bold>\<open>Encoder, clerks, testers.\<close> \<open>Labgob\<close> is the check of \<open>labgob/labgob.go\<close> on types that may be recursive,
  with a fuel that its termination theorem shows to be enough. \<open>Clerks\<close> has the clerks of \<open>shardmaster\<close>
  and \<open>shardkv\<close>; their loops may run forever and are a \<open>partial_function\<close>, with a theorem that says
  exactly when and with what they return. \<open>Raft_Config\<close> is the tester of Raft and \<open>Kv_Config\<close> that of
  the services above it, over the network of \<open>Labrpc\<close> and the peers of \<open>Raft\<close>; \<open>Tester_Rows\<close>, \<open>Raft_Tester\<close>
  and \<open>Kv_Tester\<close> prove that the connectivity a tester sets up is the one it announces: attached peers
  can talk to each other, ends of dead instances are dead, a partition isolates its two parts.

  \<^bold>\<open>Not modelled.\<close> The handlers of the key/value, shard master and shard servers and the clerk of
  \<open>kvraft\<close> are empty skeletons in the source. \<open>shardkv/config.go\<close> drives those empty servers through
  closures over the tester. \<open>wait\<close>, \<open>one\<close>, \<open>end\<close> and \<open>checkTimeout\<close> of the testers are loops over the
  real time that print statistics; \<open>randstring\<close> and \<open>makeSeed\<close> read random bytes, which are arguments here.
  Opening sockets in \<open>mapreduce\<close> is I/O. \<open>encoding/gob\<close>, \<open>net/rpc\<close>, \<open>reflect\<close> and \<open>sort\<close> belong to Go's
  library. The daemons of \<open>main\<close> are front ends of packages that are not in the repository. The C and
  C++ labs (\<open>mini_rdt\<close>, \<open>mini_P2P\<close>, \<open>DPDK\<close>) are separate programs.
\<close>

end
